(* ===== verification/Prelude.thy ===== *)
theory Prelude
  imports Main "HOL-Library.Word" "HOL-Library.Sublist"
begin

text \<open>
  Shared vocabulary of the development: the failures a C++ execution can run into as
  values, a bind for fallible steps, memory regions with bounds-checked reads and writes,
  \<open>size_t\<close> arithmetic with its wrap-around, and the \<open>std\<close> algorithms the sources call on
  character ranges.  The collections \<open>res_simps\<close> (fallible steps), \<open>sz_simps\<close>
  (\<open>size_t\<close> arithmetic) and \<open>mem_simps\<close> (memory regions) carry the component proofs.
\<close>

unbundle bit_operations_syntax

named_theorems res_simps \<open>case analysis of fallible steps\<close>
named_theorems sz_simps \<open>size_t arithmetic that does not wrap\<close>
named_theorems mem_simps \<open>reads and writes of memory regions\<close>

subsection \<open>Failures\<close>

text \<open>
  \<open>AssertFail\<close> is a failing \<open>assert\<close>; \<open>OutOfBounds\<close> a read or write outside the
  allocated region; \<open>LengthError\<close> and \<open>OutOfRange\<close> the exceptions
  \<open>std::length_error\<close> and \<open>std::out_of_range\<close>; \<open>Aborted\<close> a call of \<open>abort()\<close>;
  \<open>UseAfterFree\<close> an access through a pointer to a deleted object; \<open>Dangling\<close> an access
  through a reference to a local variable whose function has returned; \<open>Overflow\<close> a
  signed overflow; \<open>NullDeref\<close> an access through a null pointer; \<open>NoReturn\<close> a callback or
  a call that never returns.
\<close>

datatype yerror =
    AssertFail
  | OutOfBounds
  | LengthError
  | OutOfRange
  | Aborted
  | UseAfterFree
  | Dangling
  | Overflow
  | NullDeref
  | NoReturn

type_synonym 'a res = "yerror + 'a"

definition rbind :: "'a res \<Rightarrow> ('a \<Rightarrow> 'b res) \<Rightarrow> 'b res" where
  "rbind m f = (case m of Inl e \<Rightarrow> Inl e | Inr x \<Rightarrow> f x)"

definition check :: "bool \<Rightarrow> yerror \<Rightarrow> unit res" where
  "check b e = (if b then Inr () else Inl e)"

abbreviation assert :: "bool \<Rightarrow> unit res" where
  "assert b \<equiv> check b AssertFail"

lemma rbind_Inl [simp]: "rbind (Inl e) f = Inl e"
  by (simp add: rbind_def)

lemma rbind_Inr [simp]: "rbind (Inr x) f = f x"
  by (simp add: rbind_def)

lemma rbind_assoc: "rbind (rbind m f) g = rbind m (\<lambda>x. rbind (f x) g)"
  by (simp add: rbind_def split: sum.splits)

lemma rbind_eq_Inr [res_simps]:
  "rbind m f = Inr y \<longleftrightarrow> (\<exists>x. m = Inr x \<and> f x = Inr y)"
  by (simp add: rbind_def split: sum.splits)

lemma rbind_eq_Inl [res_simps]:
  "rbind m f = Inl e \<longleftrightarrow> m = Inl e \<or> (\<exists>x. m = Inr x \<and> f x = Inl e)"
  by (auto simp: rbind_def split: sum.splits)

lemma check_True [simp]: "check True e = Inr ()"
  by (simp add: check_def)

lemma check_False [simp]: "check False e = Inl e"
  by (simp add: check_def)

lemma check_eq_Inr [res_simps]: "check b e = Inr u \<longleftrightarrow> b"
  by (simp add: check_def)

lemma check_eq_Inl [res_simps]: "check b e = Inl e' \<longleftrightarrow> \<not> b \<and> e' = e"
  by (auto simp: check_def)

lemma rbind_check [simp]: "b \<Longrightarrow> rbind (check b e) f = f ()"
  by simp

subsection \<open>Memory regions\<close>

text \<open>
  A region is a list of cells.  \<open>mem_read i n xs\<close> reads \<open>n\<close> cells from offset \<open>i\<close>,
  \<open>mem_write i ys xs\<close> is \<open>std::copy\<close> of \<open>ys\<close> to offset \<open>i\<close>; an access that leaves the
  region is a failure.
\<close>

definition mem_read :: "nat \<Rightarrow> nat \<Rightarrow> 'a list \<Rightarrow> 'a list res" where
  "mem_read i n xs =
     (if i + n \<le> length xs then Inr (take n (drop i xs)) else Inl OutOfBounds)"

definition mem_write :: "nat \<Rightarrow> 'a list \<Rightarrow> 'a list \<Rightarrow> 'a list res" where
  "mem_write i ys xs =
     (if i + length ys \<le> length xs
      then Inr (take i xs @ ys @ drop (i + length ys) xs) else Inl OutOfBounds)"

lemma mem_read_in [mem_simps]:
  "i + n \<le> length xs \<Longrightarrow> mem_read i n xs = Inr (take n (drop i xs))"
  by (simp add: mem_read_def)

lemma mem_write_in [mem_simps]:
  "i + length ys \<le> length xs \<Longrightarrow>
   mem_write i ys xs = Inr (take i xs @ ys @ drop (i + length ys) xs)"
  by (simp add: mem_write_def)

lemma length_blit [simp]:
  "i + length ys \<le> length xs \<Longrightarrow>
   length (take i xs @ ys @ drop (i + length ys) xs) = length xs"
  by simp

text \<open>The cells before, inside and after a written range.\<close>

lemma blit_split:
  assumes "r \<le> i" and "i + length ys \<le> length xs"
  shows "take (i + length ys - r) (drop r (take i xs @ ys @ drop (i + length ys) xs))
       = take (i - r) (drop r xs) @ ys"
  using assms by (simp add: take_drop)

text \<open>The cells between two offsets.\<close>

definition segment :: "nat \<Rightarrow> nat \<Rightarrow> 'a list \<Rightarrow> 'a list" where
  "segment a b xs = take (b - a) (drop a xs)"

lemma length_segment [simp]: "b \<le> length xs \<Longrightarrow> length (segment a b xs) = b - a"
  by (simp add: segment_def)

lemma mem_read_segment:
  "a \<le> b \<Longrightarrow> b \<le> length xs \<Longrightarrow> mem_read a (b - a) xs = Inr (segment a b xs)"
  by (simp add: mem_read_def segment_def)

lemma take_segment: "a + k \<le> b \<Longrightarrow> take k (segment a b xs) = segment a (a + k) xs"
  by (simp add: segment_def min_def)

lemma drop_segment: "drop k (segment a b xs) = segment (a + k) b xs"
  by (simp add: segment_def drop_take add.commute)

lemma segment_nth: "a + k < b \<Longrightarrow> b \<le> length xs \<Longrightarrow> segment a b xs ! k = xs ! (a + k)"
  by (simp add: segment_def)

subsection \<open>Unsigned 64-bit sizes\<close>

text \<open>
  \<open>size_t\<close> values are naturals below \<open>2 ^ 64\<close>; \<open>+\<close> and \<open>-\<close> wrap.  No object is larger than
  \<open>PTRDIFF_MAX\<close> bytes, which is also \<open>std::vector<char>::max_size()\<close>.
\<close>

definition size_mod :: nat where
  "size_mod = 2 ^ 64"

definition kMaxSize :: nat where
  "kMaxSize = 2 ^ 63 - 1"

definition sz_add :: "nat \<Rightarrow> nat \<Rightarrow> nat" where
  "sz_add a b = (a + b) mod size_mod"

definition sz_sub :: "nat \<Rightarrow> nat \<Rightarrow> nat" where
  "sz_sub a b = (a + size_mod - b) mod size_mod"

lemma sz_add_exact: "a + b < size_mod \<Longrightarrow> sz_add a b = a + b"
  by (simp add: sz_add_def)

lemma kMaxSize_less: "a \<le> kMaxSize \<Longrightarrow> b \<le> kMaxSize \<Longrightarrow> a + b < size_mod"
  by (simp add: kMaxSize_def size_mod_def)

lemma sz_add_small [sz_simps]: "a \<le> kMaxSize \<Longrightarrow> b \<le> kMaxSize \<Longrightarrow> sz_add a b = a + b"
  by (simp add: sz_add_exact kMaxSize_less)

lemma sz_sub_exact [sz_simps]: "b \<le> a \<Longrightarrow> a \<le> kMaxSize \<Longrightarrow> sz_sub a b = a - b"
proof -
  assume "b \<le> a" and "a \<le> kMaxSize"
  moreover from this have "a - b < size_mod"
    using kMaxSize_less [of a 0] by simp
  ultimately have "a + size_mod - b = (a - b) + size_mod" and "a - b < size_mod"
    by linarith+
  then show ?thesis by (simp only: sz_sub_def mod_add_self2 mod_less)
qed

lemma sz_sub_wraps: "a < b \<Longrightarrow> b \<le> size_mod \<Longrightarrow> sz_sub a b = a + size_mod - b"
  by (simp add: sz_sub_def)

subsection \<open>Algorithms on character ranges\<close>

text \<open>
  \<open>std_search xs pat\<close> is the offset \<open>std::search\<close> returns on the range \<open>xs\<close>: the first
  position where \<open>pat\<close> matches, or the length of the range.  \<open>std_find xs c\<close> is
  \<open>std::find\<close>.
\<close>

fun std_search :: "'a list \<Rightarrow> 'a list \<Rightarrow> nat" where
  "std_search [] pat = 0"
| "std_search (x # xs) pat =
     (if take (length pat) (x # xs) = pat then 0 else Suc (std_search xs pat))"

fun std_find :: "'a list \<Rightarrow> 'a \<Rightarrow> nat" where
  "std_find [] c = 0"
| "std_find (x # xs) c = (if x = c then 0 else Suc (std_find xs c))"

lemma std_search_le: "std_search xs pat \<le> length xs"
  by (induction xs) auto

lemma std_search_hit:
  "std_search xs pat < length xs \<Longrightarrow>
   take (length pat) (drop (std_search xs pat) xs) = pat"
  by (induction xs) auto

lemma std_search_hit_len:
  "std_search xs pat < length xs \<Longrightarrow> std_search xs pat + length pat \<le> length xs"
proof (induction xs)
  case (Cons x xs)
  show ?case
  proof (cases "take (length pat) (x # xs) = pat")
    case True
    then have "min (length (x # xs)) (length pat) = length pat"
      by (metis length_take)
    with True show ?thesis by simp
  qed (use Cons in auto)
qed simp

lemma std_search_first:
  "i < std_search xs pat \<Longrightarrow> take (length pat) (drop i xs) \<noteq> pat"
proof (induction xs arbitrary: i)
  case (Cons x xs)
  then show ?case by (cases i) (auto split: if_splits)
qed simp

lemma std_search_append:
  "std_search xs pat < length xs \<Longrightarrow> std_search (xs @ ys) pat = std_search xs pat"
proof (induction xs)
  case (Cons x xs)
  show ?case
  proof (cases "take (length pat) (x # xs) = pat")
    case True
    then have "length pat \<le> length (x # xs)" by (metis length_take min.cobounded1)
    then have "take (length pat) ((x # xs) @ ys) = take (length pat) (x # xs)"
      by (subst take_append) simp
    with True show ?thesis by simp
  next
    case False
    with Cons.prems have hit: "std_search xs pat < length xs" by simp
    then have "length pat \<le> length xs" using std_search_hit_len [of xs pat] by linarith
    then have "take (length pat) ((x # xs) @ ys) = take (length pat) (x # xs)"
      by (subst take_append) simp
    with False Cons.IH [OF hit] show ?thesis by simp
  qed
qed simp

lemma std_find_le: "std_find xs c \<le> length xs"
  by (induction xs) auto

lemma std_find_less_iff: "std_find xs c < length xs \<longleftrightarrow> c \<in> set xs"
  by (induction xs) auto

lemma std_find_eq_length: "std_find xs c = length xs \<longleftrightarrow> c \<notin> set xs"
  using std_find_less_iff [of xs c] std_find_le [of xs c] by linarith

lemma std_find_nth: "c \<in> set xs \<Longrightarrow> xs ! std_find xs c = c"
  by (induction xs) auto

lemma std_find_append: "c \<notin> set xs \<Longrightarrow> std_find (xs @ c # ys) c = length xs"
  by (induction xs) auto

lemma std_find_takes: "c \<notin> set (take (std_find xs c) xs)"
  by (induction xs) auto

end
