(* ===== verification/Byte_Queue.thy ===== *)
theory Byte_Queue
  imports Prelude
begin

text \<open>
  The contract a byte buffer offers the parsers and connections built on it: a FIFO queue
  of cells with an invariant, an abstraction to a list, and the room left for more cells.
  A client that only appends and retrieves is described by a list of operations; inside
  the locale every such client is shown to see exactly the list specification.
\<close>

datatype 'a qop = Enq "'a list" | Deq nat

text \<open>Running a list of operations; the cells taken out are collected in order.\<close>

fun run_ops :: "('a list \<Rightarrow> 'b \<Rightarrow> 'b res) \<Rightarrow> (nat \<Rightarrow> 'b \<Rightarrow> ('a list \<times> 'b) res) \<Rightarrow>
    'a qop list \<Rightarrow> 'b \<Rightarrow> ('a list \<times> 'b) res" where
  "run_ops enq deq [] b = Inr ([], b)"
| "run_ops enq deq (Enq xs # ops) b = rbind (enq xs b) (run_ops enq deq ops)"
| "run_ops enq deq (Deq n # ops) b =
     rbind (deq n b) (\<lambda>(xs, b'). rbind (run_ops enq deq ops b') (\<lambda>(ys, b'').
       Inr (xs @ ys, b'')))"

text \<open>The specification on lists; \<open>None\<close> when an operation asks for too many cells.\<close>

fun spec_ops :: "'a qop list \<Rightarrow> 'a list \<Rightarrow> ('a list \<times> 'a list) option" where
  "spec_ops [] q = Some ([], q)"
| "spec_ops (Enq xs # ops) q = spec_ops ops (q @ xs)"
| "spec_ops (Deq n # ops) q =
     (if n \<le> length q
      then map_option (\<lambda>(ys, r). (take n q @ ys, r)) (spec_ops ops (drop n q))
      else None)"

fun enq_cells :: "'a qop list \<Rightarrow> 'a list" where
  "enq_cells [] = []"
| "enq_cells (Enq xs # ops) = xs @ enq_cells ops"
| "enq_cells (Deq n # ops) = enq_cells ops"

lemma spec_ops_fifo: "spec_ops ops q = Some (out, r) \<Longrightarrow> out @ r = q @ enq_cells ops"
proof (induction ops q arbitrary: out r rule: spec_ops.induct)
  case (3 n ops q)
  then obtain ys where n: "n \<le> length q" and out: "out = take n q @ ys"
    and "spec_ops ops (drop n q) = Some (ys, r)"
    by (auto split: if_splits)
  with 3 have "ys @ r = drop n q @ enq_cells ops" by blast
  then have "take n q @ ys @ r = (take n q @ drop n q) @ enq_cells ops" by simp
  with out show ?case by simp
qed auto

locale byte_queue =
  fixes invar :: "'b \<Rightarrow> bool"
    and view :: "'b \<Rightarrow> 'a list"
    and room :: "nat \<Rightarrow> 'b \<Rightarrow> bool"
    and enq :: "'a list \<Rightarrow> 'b \<Rightarrow> 'b res"
    and deq :: "nat \<Rightarrow> 'b \<Rightarrow> ('a list \<times> 'b) res"
  assumes enq_law: "invar b \<Longrightarrow> room (length xs + n) b \<Longrightarrow>
      \<exists>b'. enq xs b = Inr b' \<and> invar b' \<and> room n b' \<and> view b' = view b @ xs"
    and deq_law: "invar b \<Longrightarrow> room m b \<Longrightarrow> n \<le> length (view b) \<Longrightarrow>
      \<exists>b'. deq n b = Inr (take n (view b), b') \<and> invar b' \<and> room m b' \<and>
           view b' = drop n (view b)"
begin

lemma run_refines_spec:
  "invar b \<Longrightarrow> room (length (enq_cells ops)) b \<Longrightarrow> spec_ops ops (view b) = Some (out, r) \<Longrightarrow>
   \<exists>b'. run_ops enq deq ops b = Inr (out, b') \<and> invar b' \<and> view b' = r"
proof (induction ops arbitrary: b out r)
  case (Cons op ops)
  show ?case
  proof (cases op)
    case (Enq xs)
    with Cons.prems obtain b' where b': "enq xs b = Inr b'" "invar b'"
        "room (length (enq_cells ops)) b'" "view b' = view b @ xs"
      using enq_law [of b xs "length (enq_cells ops)"] by auto
    with Enq Cons.prems(3) Cons.IH [of b'] show ?thesis by simp
  next
    case (Deq n)
    with Cons.prems(3) obtain ys where n: "n \<le> length (view b)"
      and out: "out = take n (view b) @ ys"
      and rest: "spec_ops ops (drop n (view b)) = Some (ys, r)"
      by (auto split: if_splits)
    with Deq Cons.prems obtain b' where b': "deq n b = Inr (take n (view b), b')" "invar b'"
        "room (length (enq_cells ops)) b'" "view b' = drop n (view b)"
      using deq_law [of b "length (enq_cells ops)" n] by auto
    with rest Cons.IH [of b'] Deq out show ?thesis by auto
  qed
qed simp

lemma run_fifo:
  assumes "invar b" and "room (length (enq_cells ops)) b"
    and "spec_ops ops (view b) = Some (out, r)"
  shows "\<exists>b'. run_ops enq deq ops b = Inr (out, b') \<and> invar b' \<and>
           out @ view b' = view b @ enq_cells ops"
  using run_refines_spec [OF assms] spec_ops_fifo [OF assms(3)] by auto

end

end
