(* ===== verification/Buffer.thy ===== *)
theory Buffer
  imports Byte_Queue
begin

text \<open>
  \<open>yvent/Buffer.h\<close> and \<open>yvent/Buffer.cpp\<close>: the byte buffer every connection reads into and
  writes from.  A buffer is a vector of bytes with a reader and a writer index; pointers
  into it (\<open>peek()\<close>, \<open>beginWrite()\<close>, the result of \<open>findCRLF\<close>) are offsets.  Every access
  of the vector is bounds-checked and every \<open>assert\<close> is a branch, so that the lemmas below
  show memory safety together with the functional behaviour: a buffer is a queue of the
  bytes between its two indices.
\<close>

record buffer =
  buf_data :: "char list"
  readerIndex :: nat
  writerIndex :: nat

definition kCheapPrepend :: nat where
  "kCheapPrepend = 8"

definition kInitialSize :: nat where
  "kInitialSize = 1024"

definition kCRLF :: string where
  "kCRLF = [CHR 0x0D, CHR 0x0A]"

text \<open>The constructor: its parameter is not used, the vector has the default size.\<close>

definition new_buffer :: "nat \<Rightarrow> buffer" where
  "new_buffer initialSize =
     \<lparr> buf_data = replicate (kCheapPrepend + kInitialSize) (CHR 0x00),
       readerIndex = kCheapPrepend,
       writerIndex = kCheapPrepend \<rparr>"

definition buf_swap :: "buffer \<Rightarrow> buffer \<Rightarrow> buffer \<times> buffer" where
  "buf_swap a b =
     (a\<lparr>buf_data := buf_data b, readerIndex := readerIndex b, writerIndex := writerIndex b\<rparr>,
      b\<lparr>buf_data := buf_data a, readerIndex := readerIndex a, writerIndex := writerIndex a\<rparr>)"

definition writableBytes :: "buffer \<Rightarrow> nat" where
  "writableBytes b = sz_sub (length (buf_data b)) (writerIndex b)"

definition readableBytes :: "buffer \<Rightarrow> nat" where
  "readableBytes b = sz_sub (writerIndex b) (readerIndex b)"

definition prependableBytes :: "buffer \<Rightarrow> nat" where
  "prependableBytes b = readerIndex b"

definition peek :: "buffer \<Rightarrow> nat" where
  "peek b = readerIndex b"

definition beginWrite :: "buffer \<Rightarrow> nat" where
  "beginWrite b = writerIndex b"

definition retrieveAll :: "buffer \<Rightarrow> buffer" where
  "retrieveAll b = b\<lparr>readerIndex := kCheapPrepend, writerIndex := kCheapPrepend\<rparr>"

definition retrieve :: "nat \<Rightarrow> buffer \<Rightarrow> buffer res" where
  "retrieve len b =
     rbind (assert (len \<le> readableBytes b)) (\<lambda>_.
       Inr (if len < readableBytes b
            then b\<lparr>readerIndex := sz_add (readerIndex b) len\<rparr>
            else retrieveAll b))"

text \<open>\<open>peekInt32\<close> reads four bytes in the host's order, which is little endian.\<close>

definition le32 :: "char list \<Rightarrow> 32 word" where
  "le32 bs = word_of_nat (foldr (\<lambda>c acc. of_char c + 256 * acc) bs 0)"

definition peekInt32 :: "buffer \<Rightarrow> 32 word res" where
  "peekInt32 b = rbind (mem_read (peek b) 4 (buf_data b)) (\<lambda>bs. Inr (le32 bs))"

definition retrieve32 :: "buffer \<Rightarrow> (32 word \<times> buffer) res" where
  "retrieve32 b =
     rbind (assert (4 \<le> readableBytes b)) (\<lambda>_.
     rbind (peekInt32 b) (\<lambda>ret.
     rbind (retrieve 4 b) (\<lambda>b'. Inr (ret, b'))))"

definition hasWritten :: "nat \<Rightarrow> buffer \<Rightarrow> buffer res" where
  "hasWritten len b =
     rbind (assert (len \<le> writableBytes b)) (\<lambda>_.
       Inr (b\<lparr>writerIndex := sz_add (writerIndex b) len\<rparr>))"

text \<open>
  \<open>buffer_.resize(n)\<close> cuts the vector or fills it up with zero bytes, and throws
  \<open>std::length_error\<close> above \<open>max_size()\<close>.
\<close>

definition vec_resize :: "nat \<Rightarrow> char list \<Rightarrow> char list res" where
  "vec_resize n xs =
     (if n \<le> kMaxSize then Inr (take n xs @ replicate (n - length xs) (CHR 0x00))
      else Inl LengthError)"

definition makeSpace :: "nat \<Rightarrow> buffer \<Rightarrow> buffer res" where
  "makeSpace len b =
     (if sz_add (writableBytes b) (prependableBytes b) < sz_add len kCheapPrepend
      then rbind (vec_resize (sz_add (writerIndex b) len) (buf_data b)) (\<lambda>d.
             Inr (b\<lparr>buf_data := d\<rparr>))
      else
        rbind (assert (kCheapPrepend < readerIndex b)) (\<lambda>_.
        let readable = readableBytes b in
        rbind (mem_read (readerIndex b) readable (buf_data b)) (\<lambda>xs.
        rbind (mem_write kCheapPrepend xs (buf_data b)) (\<lambda>d.
        let b' = b\<lparr>buf_data := d, readerIndex := kCheapPrepend,
                   writerIndex := sz_add kCheapPrepend readable\<rparr> in
        rbind (assert (readable = readableBytes b')) (\<lambda>_. Inr b')))))"

definition ensureWritableBytes :: "nat \<Rightarrow> buffer \<Rightarrow> buffer res" where
  "ensureWritableBytes len b =
     rbind (if writableBytes b < len then makeSpace len b else Inr b) (\<lambda>b'.
     rbind (assert (len \<le> writableBytes b')) (\<lambda>_. Inr b'))"

definition append_buf :: "char list \<Rightarrow> buffer \<Rightarrow> buffer res" where
  "append_buf xs b =
     rbind (ensureWritableBytes (length xs) b) (\<lambda>b1.
     rbind (mem_write (beginWrite b1) xs (buf_data b1)) (\<lambda>d.
     hasWritten (length xs) (b1\<lparr>buf_data := d\<rparr>)))"

definition prepend :: "char list \<Rightarrow> buffer \<Rightarrow> buffer res" where
  "prepend xs b =
     rbind (assert (length xs \<le> prependableBytes b)) (\<lambda>_.
     let r = sz_sub (readerIndex b) (length xs) in
     rbind (mem_write r xs (buf_data b)) (\<lambda>d.
     Inr (b\<lparr>buf_data := d, readerIndex := r\<rparr>)))"

text \<open>\<open>findCRLF\<close> from a pointer \<open>start\<close>; \<open>NULL\<close> is \<open>None\<close>.\<close>

definition search_from :: "nat \<Rightarrow> buffer \<Rightarrow> nat option res" where
  "search_from start b =
     rbind (mem_read start (sz_sub (beginWrite b) start) (buf_data b)) (\<lambda>xs.
     let crlf = start + std_search xs kCRLF in
     Inr (if crlf = beginWrite b then None else Some crlf))"

definition findCRLF :: "buffer \<Rightarrow> nat option res" where
  "findCRLF b = search_from (peek b) b"

definition findCRLF_from :: "nat \<Rightarrow> buffer \<Rightarrow> nat option res" where
  "findCRLF_from start b =
     rbind (assert (peek b \<le> start)) (\<lambda>_.
     rbind (assert (start \<le> beginWrite b)) (\<lambda>_. search_from start b))"

definition retrieveAsString :: "nat \<Rightarrow> buffer \<Rightarrow> (string \<times> buffer) res" where
  "retrieveAsString len b =
     rbind (assert (len \<le> readableBytes b)) (\<lambda>_.
     rbind (mem_read (peek b) len (buf_data b)) (\<lambda>result.
     rbind (retrieve len b) (\<lambda>b'. Inr (result, b'))))"

definition retrieveAllAsString :: "buffer \<Rightarrow> (string \<times> buffer) res" where
  "retrieveAllAsString b = retrieveAsString (readableBytes b) b"

definition retrieveUntil :: "nat \<Rightarrow> buffer \<Rightarrow> buffer res" where
  "retrieveUntil end_ptr b =
     rbind (assert (peek b \<le> end_ptr)) (\<lambda>_.
     rbind (assert (end_ptr \<le> beginWrite b)) (\<lambda>_.
     retrieve (sz_sub end_ptr (peek b)) b))"

text \<open>
  \<open>readFd\<close> scatters one \<open>readv\<close> over the writable bytes and a 65536-byte array on the stack.
  The system call is the argument \<open>readv\<close>: from the lengths of the regions it is given to
  an errno or the bytes it delivers, which fill the regions in order.  The result is the
  returned count, the value stored in \<open>*savedErrno\<close> if any, and the buffer.
\<close>

datatype readv_result = ReadvErr int | ReadvData "char list"

definition kExtraBuf :: nat where
  "kExtraBuf = 65536"

definition readFd_iov :: "buffer \<Rightarrow> nat list" where
  "readFd_iov b =
     (if writableBytes b < kExtraBuf then [writableBytes b, kExtraBuf] else [writableBytes b])"

definition readFd ::
  "(nat list \<Rightarrow> readv_result) \<Rightarrow> buffer \<Rightarrow> (int \<times> int option \<times> buffer) res" where
  "readFd readv b =
     (let writable = writableBytes b in
      case readv (readFd_iov b) of
        ReadvErr err \<Rightarrow> Inr (-1, Some err, b)
      | ReadvData bs \<Rightarrow>
          let n = length bs; extrabuf = drop writable bs in
          rbind (mem_write (beginWrite b) (take writable bs) (buf_data b)) (\<lambda>d.
          let b1 = b\<lparr>buf_data := d\<rparr> in
          if n \<le> writable
          then Inr (int n, None, b1\<lparr>writerIndex := sz_add (writerIndex b1) n\<rparr>)
          else rbind (append_buf (take (sz_sub n writable) extrabuf)
                        (b1\<lparr>writerIndex := length (buf_data b1)\<rparr>)) (\<lambda>b2.
               Inr (int n, None, b2))))"

subsection \<open>Invariant and abstraction\<close>

definition buffer_ok :: "buffer \<Rightarrow> bool" where
  "buffer_ok b \<longleftrightarrow>
     readerIndex b \<le> writerIndex b \<and> kCheapPrepend \<le> writerIndex b \<and>
     writerIndex b \<le> length (buf_data b) \<and> length (buf_data b) \<le> kMaxSize"

definition readable :: "buffer \<Rightarrow> char list" where
  "readable b = take (writerIndex b - readerIndex b) (drop (readerIndex b) (buf_data b))"

text \<open>Room for \<open>n\<close> more bytes behind the writer index below the largest vector.\<close>

definition has_room :: "nat \<Rightarrow> buffer \<Rightarrow> bool" where
  "has_room n b \<longleftrightarrow> writerIndex b + n \<le> kMaxSize"

text \<open>\<open>readv\<close> returns at most as many bytes as the regions hold (\<open>readv(2)\<close>).\<close>

definition readv_bounded :: "(nat list \<Rightarrow> readv_result) \<Rightarrow> bool" where
  "readv_bounded readv \<longleftrightarrow>
     (\<forall>lens bs. readv lens = ReadvData bs \<longrightarrow> length bs \<le> sum_list lens)"

subsection \<open>The observers\<close>

lemma buffer_okD:
  assumes "buffer_ok b"
  shows "readerIndex b \<le> writerIndex b" and "kCheapPrepend \<le> writerIndex b"
    and "writerIndex b \<le> length (buf_data b)" and "length (buf_data b) \<le> kMaxSize"
    and "readerIndex b \<le> kMaxSize" and "writerIndex b \<le> kMaxSize"
  using assms by (auto simp: buffer_ok_def)

lemma kCheapPrepend_small [simp]: "kCheapPrepend \<le> kMaxSize"
  by (simp add: kCheapPrepend_def kMaxSize_def)

lemma writableBytes_ok [sz_simps]:
  "buffer_ok b \<Longrightarrow> writableBytes b = length (buf_data b) - writerIndex b"
  by (simp add: writableBytes_def sz_simps buffer_okD)

lemma readableBytes_ok [sz_simps]:
  "buffer_ok b \<Longrightarrow> readableBytes b = writerIndex b - readerIndex b"
  by (simp add: readableBytes_def sz_simps buffer_okD)

lemma length_readable:
  "buffer_ok b \<Longrightarrow> length (readable b) = writerIndex b - readerIndex b"
  by (auto simp: readable_def dest: buffer_okD)

lemma readable_bounds:
  assumes "buffer_ok b" and "n \<le> length (readable b)"
  shows "readerIndex b + n \<le> writerIndex b" and "readerIndex b + n \<le> length (buf_data b)"
    and "readerIndex b + n \<le> kMaxSize" and "n \<le> kMaxSize"
  using assms(2) buffer_okD [OF assms(1)] by (simp_all add: length_readable [OF assms(1)])

lemma readableBytes_length: "buffer_ok b \<Longrightarrow> readableBytes b = length (readable b)"
  by (simp add: length_readable readableBytes_ok)

lemma take_readable:
  "n \<le> writerIndex b - readerIndex b \<Longrightarrow>
   take n (drop (readerIndex b) (buf_data b)) = take n (readable b)"
  by (simp add: readable_def min_def)

lemma mem_read_readable [mem_simps]:
  "buffer_ok b \<Longrightarrow> n \<le> length (readable b) \<Longrightarrow>
   mem_read (readerIndex b) n (buf_data b) = Inr (take n (readable b))"
  by (simp add: mem_read_def take_readable readable_bounds flip: length_readable)

lemma new_buffer_ok: "buffer_ok (new_buffer n)"
  by (simp add: buffer_ok_def new_buffer_def kCheapPrepend_def kInitialSize_def kMaxSize_def)

lemma new_buffer_empty: "readable (new_buffer n) = []"
  by (simp add: readable_def new_buffer_def)

lemma new_buffer_room: "has_room k (new_buffer n) \<longleftrightarrow> k + kCheapPrepend \<le> kMaxSize"
  by (auto simp: has_room_def new_buffer_def)

subsection \<open>Taking bytes out\<close>

lemma retrieveAll_ok: "buffer_ok b \<Longrightarrow> buffer_ok (retrieveAll b)"
  by (auto simp: buffer_ok_def retrieveAll_def)

lemma retrieveAll_readable: "readable (retrieveAll b) = []"
  by (simp add: readable_def retrieveAll_def)

lemma retrieve_correct:
  assumes ok: "buffer_ok b" and len: "len \<le> length (readable b)"
  obtains b' where "retrieve len b = Inr b'" and "buffer_ok b'"
    and "readable b' = drop len (readable b)" and "writerIndex b' \<le> writerIndex b"
proof (cases "len < length (readable b)")
  case True
  let ?b = "b\<lparr>readerIndex := readerIndex b + len\<rparr>"
  have "sz_add (readerIndex b) len = readerIndex b + len"
    using ok len by (simp add: sz_add_small readable_bounds buffer_okD)
  with True ok len have "retrieve len b = Inr ?b"
    by (simp add: retrieve_def readableBytes_length)
  moreover have "buffer_ok ?b"
    using ok readable_bounds(1) [OF ok len] by (simp add: buffer_ok_def)
  moreover have "readable ?b = drop len (readable b)"
    by (simp add: readable_def drop_take add.commute)
  ultimately show ?thesis by (rule that) simp
next
  case False
  with ok len have "retrieve len b = Inr (retrieveAll b)"
    by (simp add: retrieve_def readableBytes_length)
  moreover have "readable (retrieveAll b) = drop len (readable b)"
    using False by (simp add: retrieveAll_readable)
  moreover have "writerIndex (retrieveAll b) \<le> writerIndex b"
    using ok by (simp add: retrieveAll_def buffer_okD)
  ultimately show ?thesis using that retrieveAll_ok [OF ok] by blast
qed

lemma retrieve_too_much:
  "buffer_ok b \<Longrightarrow> length (readable b) < len \<Longrightarrow> retrieve len b = Inl AssertFail"
  by (simp add: retrieve_def readableBytes_length)

lemma retrieveAsString_correct:
  assumes ok: "buffer_ok b" and len: "len \<le> length (readable b)"
  obtains b' where "retrieveAsString len b = Inr (take len (readable b), b')"
    and "buffer_ok b'" and "readable b' = drop len (readable b)"
    and "writerIndex b' \<le> writerIndex b"
proof -
  from retrieve_correct [OF ok len] obtain b' where
    b': "retrieve len b = Inr b'" "buffer_ok b'" "readable b' = drop len (readable b)"
      "writerIndex b' \<le> writerIndex b" .
  with ok len show ?thesis
    by (intro that [of b'])
      (simp_all add: retrieveAsString_def readableBytes_length peek_def mem_simps)
qed

lemma retrieveUntil_correct:
  assumes ok: "buffer_ok b" and len: "len \<le> length (readable b)"
  shows "retrieveUntil (peek b + len) b = retrieve len b"
proof -
  have "peek b + len \<le> beginWrite b" and "peek b + len \<le> kMaxSize"
    using readable_bounds [OF ok len] by (simp_all add: peek_def beginWrite_def)
  then show ?thesis
    by (simp add: retrieveUntil_def sz_simps)
qed

subsection \<open>Putting bytes in\<close>

text \<open>What \<open>makeSpace\<close> and \<open>ensureWritableBytes\<close> give: the same bytes, and room behind them.\<close>

definition space_made :: "nat \<Rightarrow> buffer \<Rightarrow> buffer \<Rightarrow> bool" where
  "space_made len b b' \<longleftrightarrow>
     buffer_ok b' \<and> readable b' = readable b \<and> writerIndex b' \<le> writerIndex b \<and>
     min (readerIndex b) kCheapPrepend \<le> readerIndex b' \<and>
     writerIndex b' + len \<le> length (buf_data b')"

lemma makeSpace_grow:
  assumes ok: "buffer_ok b" and len: "len \<le> kMaxSize"
    and small: "length (buf_data b) - writerIndex b + readerIndex b < len + kCheapPrepend"
    and full: "length (buf_data b) - writerIndex b < len"
  shows "if has_room len b
         then \<exists>b'. makeSpace len b = Inr b' \<and> space_made len b b'
         else makeSpace len b = Inl LengthError"
proof -
  note bounds = buffer_okD [OF ok]
  have branch: "sz_add (writableBytes b) (prependableBytes b) < sz_add len kCheapPrepend"
    using small bounds len by (simp add: sz_simps prependableBytes_def ok)
  show ?thesis
  proof (cases "has_room len b")
    case True
    let ?d = "buf_data b @ replicate (writerIndex b + len - length (buf_data b)) (CHR 0x00)"
    have "makeSpace len b = Inr (b\<lparr>buf_data := ?d\<rparr>)"
      using branch True full bounds len
      by (simp add: makeSpace_def vec_resize_def has_room_def sz_simps)
    moreover have "space_made len b (b\<lparr>buf_data := ?d\<rparr>)"
      using True bounds full
      by (auto simp: space_made_def buffer_ok_def has_room_def readable_def)
    ultimately show ?thesis using True by auto
  next
    case False
    with branch bounds len show ?thesis
      by (simp add: makeSpace_def vec_resize_def has_room_def sz_simps)
  qed
qed

lemma makeSpace_compact:
  assumes ok: "buffer_ok b" and len: "len \<le> kMaxSize"
    and big: "len + kCheapPrepend \<le> length (buf_data b) - writerIndex b + readerIndex b"
    and full: "length (buf_data b) - writerIndex b < len"
  shows "\<exists>b'. makeSpace len b = Inr b' \<and> space_made len b b'"
proof -
  note bounds = buffer_okD [OF ok]
  let ?xs = "readable b" and ?d = "buf_data b"
  let ?d' = "take kCheapPrepend ?d @ ?xs @ drop (kCheapPrepend + length ?xs) ?d"
  let ?b' = "b\<lparr>buf_data := ?d', readerIndex := kCheapPrepend,
              writerIndex := kCheapPrepend + length ?xs\<rparr>"
  have branch: "\<not> sz_add (writableBytes b) (prependableBytes b) < sz_add len kCheapPrepend"
    using big bounds len by (simp add: sz_simps prependableBytes_def ok)
  have front: "kCheapPrepend < readerIndex b"
    using big full by linarith
  have fits: "kCheapPrepend + length ?xs \<le> length ?d"
    and lenx: "length ?xs = writerIndex b - readerIndex b"
    using front bounds by (simp_all add: length_readable ok)
  have low: "kCheapPrepend + length ?xs \<le> writerIndex b"
    and enough: "kCheapPrepend + length ?xs + len \<le> length ?d"
    using big front bounds lenx by linarith+
  have sum: "sz_add kCheapPrepend (length ?xs) = kCheapPrepend + length ?xs"
    using fits bounds by (intro sz_add_small) auto
  have ok': "buffer_ok ?b'"
    using fits bounds by (simp add: buffer_ok_def)
  have rd: "readable ?b' = ?xs"
    using fits by (subst readable_def) simp
  have "makeSpace len b = Inr ?b'"
    using branch front fits readableBytes_length [OF ok'] rd
    by (simp add: makeSpace_def readableBytes_length ok mem_simps sum Let_def)
  moreover have "space_made len b ?b'"
    using ok' rd fits low enough by (simp add: space_made_def)
  ultimately show ?thesis by blast
qed

lemma ensureWritableBytes_correct:
  assumes ok: "buffer_ok b" and len: "len \<le> kMaxSize"
  shows "(\<exists>b'. ensureWritableBytes len b = Inr b' \<and> space_made len b b')
       \<or> (ensureWritableBytes len b = Inl LengthError \<and> \<not> has_room len b)"
proof (cases "length (buf_data b) - writerIndex b < len")
  case False
  with ok have "space_made len b b" and "ensureWritableBytes len b = Inr b"
    by (auto simp: space_made_def ensureWritableBytes_def sz_simps buffer_ok_def)
  then show ?thesis by blast
next
  case True
  have enough: "len \<le> writableBytes b'" if "space_made len b b'" for b'
    using that by (auto simp: space_made_def sz_simps)
  have "(\<exists>b'. makeSpace len b = Inr b' \<and> space_made len b b')
      \<or> (makeSpace len b = Inl LengthError \<and> \<not> has_room len b)"
    using makeSpace_grow [OF ok len _ True] makeSpace_compact [OF ok len _ True]
    by (cases "has_room len b") (auto simp: not_less [symmetric])
  with True ok enough show ?thesis
    by (auto simp: ensureWritableBytes_def sz_simps)
qed

text \<open>Cells written behind the writer index, and the index moved past them.\<close>

lemma fill_correct:
  assumes ok: "buffer_ok b" and fits: "writerIndex b + length xs \<le> length (buf_data b)"
  defines "b' \<equiv> b\<lparr>buf_data := take (writerIndex b) (buf_data b) @ xs
                     @ drop (writerIndex b + length xs) (buf_data b),
                   writerIndex := writerIndex b + length xs\<rparr>"
  shows "buffer_ok b'" and "readable b' = readable b @ xs"
proof -
  show "buffer_ok b'"
    using ok fits by (auto simp: b'_def buffer_ok_def)
  show "readable b' = readable b @ xs"
    using blit_split [of "readerIndex b" "writerIndex b" xs "buf_data b"]
      buffer_okD [OF ok] fits
    by (simp add: readable_def b'_def)
qed

lemma append_space:
  assumes sp: "space_made (length xs) b b1"
  shows "\<exists>b'. rbind (mem_write (beginWrite b1) xs (buf_data b1))
                (\<lambda>d. hasWritten (length xs) (b1\<lparr>buf_data := d\<rparr>)) = Inr b' \<and>
             buffer_ok b' \<and> readable b' = readable b @ xs \<and>
             min (readerIndex b) kCheapPrepend \<le> readerIndex b' \<and>
             writerIndex b' \<le> writerIndex b + length xs"
proof -
  from sp have ok: "buffer_ok b1" and rd: "readable b1 = readable b"
    and r: "min (readerIndex b) kCheapPrepend \<le> readerIndex b1"
    and w: "writerIndex b1 \<le> writerIndex b"
    and fits: "writerIndex b1 + length xs \<le> length (buf_data b1)"
    by (auto simp: space_made_def)
  let ?d = "take (writerIndex b1) (buf_data b1) @ xs
            @ drop (writerIndex b1 + length xs) (buf_data b1)"
  let ?b2 = "b1\<lparr>buf_data := ?d\<rparr>"
  have ok2: "buffer_ok ?b2"
    using ok fits by (auto simp: buffer_ok_def)
  have sum: "sz_add (writerIndex b1) (length xs) = writerIndex b1 + length xs"
    using fits buffer_okD [OF ok] by (intro sz_add_small) auto
  have "mem_write (beginWrite b1) xs (buf_data b1) = Inr ?d"
    using fits by (simp add: beginWrite_def mem_simps)
  moreover have "hasWritten (length xs) ?b2
      = Inr (?b2\<lparr>writerIndex := writerIndex b1 + length xs\<rparr>)"
    using fits by (simp add: hasWritten_def writableBytes_ok [OF ok2] sum)
  ultimately show ?thesis using fill_correct [OF ok fits] rd r w by auto
qed

lemma append_buf_cases:
  assumes ok: "buffer_ok b" and len: "length xs \<le> kMaxSize"
  shows "(\<exists>b'. append_buf xs b = Inr b' \<and> buffer_ok b' \<and> readable b' = readable b @ xs \<and>
               min (readerIndex b) kCheapPrepend \<le> readerIndex b' \<and>
               writerIndex b' \<le> writerIndex b + length xs)
       \<or> (append_buf xs b = Inl LengthError \<and> \<not> has_room (length xs) b)"
  using ensureWritableBytes_correct [OF ok len]
proof
  assume "\<exists>b'. ensureWritableBytes (length xs) b = Inr b' \<and> space_made (length xs) b b'"
  then obtain b1 where "ensureWritableBytes (length xs) b = Inr b1"
    and "space_made (length xs) b b1" by blast
  with append_space [OF this(2)] show ?thesis by (simp add: append_buf_def)
qed (simp add: append_buf_def)

lemma append_buf_correct:
  assumes "buffer_ok b" and "has_room (length xs) b"
  obtains b' where "append_buf xs b = Inr b'" and "buffer_ok b'"
    and "readable b' = readable b @ xs" and "writerIndex b' \<le> writerIndex b + length xs"
    and "min (readerIndex b) kCheapPrepend \<le> readerIndex b'"
  using append_buf_cases [of b xs] assms by (auto simp: has_room_def)

lemma prepend_correct:
  assumes ok: "buffer_ok b" and len: "length xs \<le> readerIndex b"
  obtains b' where "prepend xs b = Inr b'" and "buffer_ok b'"
    and "readable b' = xs @ readable b" and "readerIndex b' = readerIndex b - length xs"
    and "writerIndex b' = writerIndex b"
proof -
  note bounds = buffer_okD [OF ok]
  let ?r = "readerIndex b - length xs" and ?d = "buf_data b"
  let ?b' = "b\<lparr>buf_data := take ?r ?d @ xs @ drop (readerIndex b) ?d, readerIndex := ?r\<rparr>"
  have "prepend xs b = Inr ?b'"
    using len bounds
    by (simp add: prepend_def prependableBytes_def sz_sub_exact mem_write_def Let_def)
  moreover have "buffer_ok ?b'"
    using ok len by (auto simp: buffer_ok_def)
  moreover have "readable ?b' = xs @ readable b"
    using len bounds by (simp add: readable_def)
  ultimately show ?thesis by (rule that) simp_all
qed

lemma findCRLF_correct:
  assumes ok: "buffer_ok b"
  shows "findCRLF b = Inr (let k = std_search (readable b) kCRLF in
           if k = length (readable b) then None else Some (peek b + k))"
proof -
  have "sz_sub (writerIndex b) (readerIndex b) = length (readable b)"
    using ok by (simp add: sz_simps buffer_okD length_readable)
  moreover have "readerIndex b + k = writerIndex b \<longleftrightarrow> k = length (readable b)" for k
    using buffer_okD(1) [OF ok] length_readable [OF ok] by linarith
  ultimately show ?thesis
    using ok by (simp add: findCRLF_def search_from_def peek_def beginWrite_def mem_simps
        Let_def)
qed

lemma peekInt32_correct:
  assumes ok: "buffer_ok b" and len: "4 \<le> length (readable b)"
  shows "peekInt32 b = Inr (le32 (take 4 (readable b)))"
  using assms by (simp add: peekInt32_def peek_def mem_simps)

lemma readFd_data:
  assumes ok: "buffer_ok b" and room: "length (buf_data b) + kExtraBuf \<le> kMaxSize"
    and rv: "readv (readFd_iov b) = ReadvData bs"
    and len: "length bs \<le> sum_list (readFd_iov b)"
  obtains b' where "readFd readv b = Inr (int (length bs), None, b')"
    and "buffer_ok b'" and "readable b' = readable b @ bs"
proof (cases "length bs \<le> writableBytes b")
  case True
  then have fits: "writerIndex b + length bs \<le> length (buf_data b)"
    using ok buffer_okD(3) [OF ok] by (simp add: sz_simps)
  then have "readFd readv b = Inr (int (length bs), None,
      b\<lparr>buf_data := take (writerIndex b) (buf_data b) @ bs
                     @ drop (writerIndex b + length bs) (buf_data b),
        writerIndex := writerIndex b + length bs\<rparr>)"
    using True rv buffer_okD [OF ok]
    by (simp add: readFd_def Let_def mem_simps beginWrite_def sz_add_small)
  then show ?thesis using fill_correct [OF ok fits] by (rule that)
next
  case False
  let ?w = "writableBytes b" and ?xs = "take (writableBytes b) bs"
  let ?d = "take (writerIndex b) (buf_data b) @ ?xs"
  let ?b1 = "b\<lparr>buf_data := ?d, writerIndex := length (buf_data b)\<rparr>"
  have w: "?w = length (buf_data b) - writerIndex b" and wl: "writerIndex b \<le> length (buf_data b)"
    using ok by (simp_all add: sz_simps buffer_okD)
  have lx: "length ?xs = ?w" using False by simp
  have small: "length bs \<le> ?w + kExtraBuf"
    using len False by (auto simp: readFd_iov_def split: if_splits)
  have ok1: "buffer_ok ?b1" and rd1: "readable ?b1 = readable b @ ?xs"
    using fill_correct [OF ok, of ?xs] w wl lx by simp_all
  have "has_room (length (drop ?w bs)) ?b1"
    using small room by (simp add: has_room_def)
  with ok1 obtain b' where b': "append_buf (drop ?w bs) ?b1 = Inr b'" "buffer_ok b'"
      "readable b' = readable ?b1 @ drop ?w bs"
    by (rule append_buf_correct)
  have n: "sz_sub (length bs) ?w = length bs - ?w"
    using False small room w by (intro sz_sub_exact) auto
  have "readFd readv b = Inr (int (length bs), None, b')"
    using False rv b'(1) w wl lx n
    by (simp add: readFd_def Let_def mem_write_def beginWrite_def)
  then show ?thesis using b' rd1 by (intro that [of b']) simp_all
qed

subsection \<open>The buffer as a queue\<close>

interpretation buf: byte_queue buffer_ok readable has_room append_buf retrieveAsString
proof
  fix b :: buffer and xs :: "char list" and n :: nat
  assume ok: "buffer_ok b" and room: "has_room (length xs + n) b"
  then have "has_room (length xs) b" by (simp add: has_room_def)
  with ok obtain b' where "append_buf xs b = Inr b'" "buffer_ok b'"
      "readable b' = readable b @ xs" "writerIndex b' \<le> writerIndex b + length xs"
    by (rule append_buf_correct)
  then show "\<exists>b'. append_buf xs b = Inr b' \<and> buffer_ok b' \<and> has_room n b' \<and>
      readable b' = readable b @ xs"
    using room by (auto simp: has_room_def)
next
  fix b :: buffer and m n :: nat
  assume ok: "buffer_ok b" and room: "has_room m b" and len: "n \<le> length (readable b)"
  from retrieveAsString_correct [OF ok len] obtain b' where
    "retrieveAsString n b = Inr (take n (readable b), b')" "buffer_ok b'"
    "readable b' = drop n (readable b)" "writerIndex b' \<le> writerIndex b" .
  then show "\<exists>b'. retrieveAsString n b = Inr (take n (readable b), b') \<and> buffer_ok b' \<and>
      has_room m b' \<and> readable b' = drop n (readable b)"
    using room by (auto simp: has_room_def)
qed

lemma append_new:
  assumes "length xs + k + kCheapPrepend \<le> kMaxSize"
  obtains b where "append_buf xs (new_buffer n) = Inr b" and "buffer_ok b"
    and "readable b = xs" and "has_room k b"
  using buf.enq_law [OF new_buffer_ok, of xs k n] assms
  by (auto simp: new_buffer_empty new_buffer_room)

subsection \<open>Properties\<close>

text \<open>C5. A buffer is a FIFO queue of bytes, over every sequence of appends and retrievals
  from a new buffer: as long as no retrieval asks for more than is there and the total
  stays below the largest vector, no assert fails, no access leaves the vector, the bytes
  taken out followed by the bytes left are exactly the bytes put in, and the invariant of
  the indices holds at the end.\<close>

theorem buffer_fifo:
  assumes "length (enq_cells ops) + kCheapPrepend \<le> kMaxSize"
    and "spec_ops ops [] = Some (out, r)"
  shows "\<exists>b. run_ops append_buf retrieveAsString ops (new_buffer n) = Inr (out, b) \<and>
             buffer_ok b \<and> readable b = r \<and> out @ readable b = enq_cells ops"
proof -
  have room: "has_room (length (enq_cells ops)) (new_buffer n)"
    using assms(1) by (simp add: new_buffer_room)
  then show ?thesis
    using buf.run_refines_spec [OF new_buffer_ok room] buf.run_fifo [OF new_buffer_ok room]
      assms(2) by (fastforce simp: new_buffer_empty)
qed

theorem buffer_fifo_witness:
  "\<exists>b. run_ops append_buf retrieveAsString [Enq ''abc'', Deq 2, Enq ''de''] (new_buffer 1)
         = Inr (''ab'', b) \<and> buffer_ok b \<and> readable b = ''cde'' \<and>
       ''ab'' @ readable b = ''abcde''"
  using buffer_fifo [of "[Enq ''abc'', Deq 2, Enq ''de'']" "''ab''" "''cde''" 1]
  by (simp add: kMaxSize_def kCheapPrepend_def)

text \<open>Retrieving bytes, on every branch: \<open>retrieveAsString\<close> returns the oldest \<open>len\<close>
  unread bytes and removes exactly those, and fails its assert precisely when fewer are
  there; \<open>retrieve\<close> and \<open>retrieveUntil\<close> remove the same bytes.\<close>

lemma retrieve_branches:
  assumes "buffer_ok b"
  shows "case retrieveAsString len b of
           Inr (s, b') \<Rightarrow> len \<le> length (readable b) \<and> s = take len (readable b) \<and>
             buffer_ok b' \<and> readable b' = drop len (readable b) \<and>
             retrieve len b = Inr b' \<and> retrieveUntil (peek b + len) b = Inr b'
         | Inl e \<Rightarrow> e = AssertFail \<and> length (readable b) < len \<and> retrieve len b = Inl e"
proof (cases "len \<le> length (readable b)")
  case True
  from retrieve_correct [OF assms True] obtain b' where b': "retrieve len b = Inr b'"
    "buffer_ok b'" "readable b' = drop len (readable b)" .
  have "retrieveAsString len b = Inr (take len (readable b), b')"
    using True b'(1) assms
    by (simp add: retrieveAsString_def readableBytes_length peek_def mem_simps)
  with True b' retrieveUntil_correct [OF assms True] show ?thesis by simp
next
  case False
  with assms show ?thesis
    by (simp add: retrieveAsString_def readableBytes_length retrieve_too_much)
qed

text \<open>Prepending is undone by retrieving: bytes that fit in front of the reader index
  become the first unread bytes, and taking them out again gives the buffer's earlier
  content; bytes that do not fit fail the assert.\<close>

lemma prepend_retrieve:
  assumes "buffer_ok b"
  shows "case prepend xs b of
           Inr b' \<Rightarrow> length xs \<le> readerIndex b \<and> buffer_ok b' \<and> readable b' = xs @ readable b \<and>
             (\<exists>b''. retrieveAsString (length xs) b' = Inr (xs, b'') \<and> buffer_ok b'' \<and>
                    readable b'' = readable b)
         | Inl e \<Rightarrow> e = AssertFail \<and> readerIndex b < length xs"
proof (cases "length xs \<le> readerIndex b")
  case True
  from prepend_correct [OF assms True] obtain b' where b': "prepend xs b = Inr b'"
    "buffer_ok b'" "readable b' = xs @ readable b" .
  then have "length xs \<le> length (readable b')" by simp
  from retrieveAsString_correct [OF b'(2) this] b' True show ?thesis by auto
qed (simp add: prepend_def prependableBytes_def)

text \<open>\<open>readFd\<close> appends exactly the bytes that one \<open>readv\<close> delivers, whether or not they
  spill into the 65536-byte array on the stack, and reports their number; on an error it
  changes nothing and stores the errno.  It relies on \<open>readv\<close> not delivering more than
  the regions it is given can hold.\<close>

lemma readFd_appends:
  assumes "readv_bounded readv" and "buffer_ok b"
    and "length (buf_data b) + kExtraBuf \<le> kMaxSize"
  shows "case readv (readFd_iov b) of
           ReadvErr err \<Rightarrow> readFd readv b = Inr (-1, Some err, b)
         | ReadvData bs \<Rightarrow> \<exists>b'. readFd readv b = Inr (int (length bs), None, b') \<and>
             buffer_ok b' \<and> readable b' = readable b @ bs"
proof (cases "readv (readFd_iov b)")
  case (ReadvErr err)
  then show ?thesis by (simp add: readFd_def Let_def)
next
  case (ReadvData bs)
  moreover from this assms(1) have "length bs \<le> sum_list (readFd_iov b)"
    by (simp add: readv_bounded_def)
  ultimately show ?thesis
    using readFd_data [OF assms(2,3), of readv bs] by auto
qed

end
