(* ===== verification/BufferSafety.thy ===== *)
theory BufferSafety
  imports Buffer
begin

text \<open>
  The whole interface of \<open>Buffer\<close> as a list of calls: whatever a client calls, in any order and
  with any arguments, the indices stay in order and no call reads or writes outside the
  vector, with one exception: \<open>ensureWritableBytes\<close> of a length that wraps \<open>writerIndex_ + len\<close>.  A
  call can only fail an \<open>assert\<close> or, at the largest vector, throw \<open>std::length_error\<close>.
\<close>

datatype buf_op =
    Append string | Prepend string | EnsureWritable nat | HasWritten nat
  | Retrieve nat | RetrieveAll | RetrieveUntil nat | Retrieve32 | RetrieveString nat | RetrieveAllString
  | FindCRLF | FindCRLFFrom nat | ReadFd "nat list \<Rightarrow> readv_result" | Swap buffer

definition buf_call :: "buf_op \<Rightarrow> buffer \<Rightarrow> buffer res" where
  "buf_call op b =
     (case op of
        Append xs \<Rightarrow> append_buf xs b
      | Prepend xs \<Rightarrow> prepend xs b
      | EnsureWritable len \<Rightarrow> ensureWritableBytes len b
      | HasWritten len \<Rightarrow> hasWritten len b
      | Retrieve len \<Rightarrow> retrieve len b
      | RetrieveAll \<Rightarrow> Inr (retrieveAll b)
      | RetrieveUntil p \<Rightarrow> retrieveUntil p b
      | Retrieve32 \<Rightarrow> rbind (retrieve32 b) (\<lambda>(v, b'). Inr b')
      | RetrieveString len \<Rightarrow> rbind (retrieveAsString len b) (\<lambda>(s, b'). Inr b')
      | RetrieveAllString \<Rightarrow> rbind (retrieveAllAsString b) (\<lambda>(s, b'). Inr b')
      | FindCRLF \<Rightarrow> rbind (findCRLF b) (\<lambda>_. Inr b)
      | FindCRLFFrom start \<Rightarrow> rbind (findCRLF_from start b) (\<lambda>_. Inr b)
      | ReadFd readv \<Rightarrow> rbind (readFd readv b) (\<lambda>(n, err, b'). Inr b')
      | Swap other \<Rightarrow> Inr (fst (buf_swap b other)))"

fun buf_calls :: "buf_op list \<Rightarrow> buffer \<Rightarrow> buffer res" where
  "buf_calls [] b = Inr b"
| "buf_calls (op # ops) b = rbind (buf_call op b) (buf_calls ops)"

text \<open>Arguments that exist: a length is a \<open>size_t\<close>, no object is larger than \<open>PTRDIFF_MAX\<close>, \<open>readv\<close> fills
  at most the regions it is given, and the other buffer of a \<open>swap\<close> is itself one.\<close>

fun op_ok :: "buf_op \<Rightarrow> bool" where
  "op_ok (Append xs) = (length xs \<le> kMaxSize)"
| "op_ok (EnsureWritable len) = (len < size_mod)"
| "op_ok (HasWritten len) = (len < size_mod)"
| "op_ok (ReadFd readv) = readv_bounded readv"
| "op_ok (Swap other) = buffer_ok other"
| "op_ok op = True"

text \<open>The outcome of a call that keeps the buffer well-formed and stays inside the vector.\<close>

definition safe :: "buffer res \<Rightarrow> bool" where
  "safe r \<longleftrightarrow> (case r of Inl e \<Rightarrow> e = AssertFail \<or> e = LengthError | Inr b \<Rightarrow> buffer_ok b)"

lemma safe_simps [simp]: "safe (Inr b) = buffer_ok b" "safe (Inl e) \<longleftrightarrow> e = AssertFail \<or> e = LengthError"
  by (simp_all add: safe_def)

lemma safe_retrieve:
  assumes "buffer_ok b"
  shows "safe (retrieve len b)"
proof (cases "len \<le> length (readable b)")
  case True
  from retrieve_correct [OF assms this] show ?thesis by (metis safe_simps(1))
qed (simp add: retrieve_too_much assms)

lemma safe_retrieveString:
  assumes "buffer_ok b"
  shows "safe (rbind (retrieveAsString len b) (\<lambda>(s, b'). Inr b'))"
proof (cases "len \<le> length (readable b)")
  case True
  from retrieveAsString_correct [OF assms this] show ?thesis
    by (metis case_prod_conv rbind_Inr safe_simps(1))
qed (simp add: retrieveAsString_def readableBytes_length assms)

lemma safe_retrieveUntil:
  assumes "buffer_ok b"
  shows "safe (retrieveUntil p b)"
  using safe_retrieve [OF assms, of "sz_sub p (peek b)"] by (auto simp: retrieveUntil_def check_def)

lemma safe_retrieve32:
  assumes "buffer_ok b"
  shows "safe (rbind (retrieve32 b) (\<lambda>(v, b'). Inr b'))"
proof (cases "4 \<le> length (readable b)")
  case True
  then show ?thesis
    using safe_retrieve [OF assms, of 4]
    by (cases "retrieve 4 b") (auto simp: retrieve32_def readableBytes_length assms peekInt32_correct)
qed (simp add: retrieve32_def readableBytes_length assms)

lemma safe_prepend:
  assumes "buffer_ok b"
  shows "safe (prepend xs b)"
proof (cases "length xs \<le> readerIndex b")
  case True
  from prepend_correct [OF assms this] show ?thesis by (metis safe_simps(1))
qed (simp add: prepend_def prependableBytes_def)

lemma safe_hasWritten:
  assumes "buffer_ok b"
  shows "safe (hasWritten len b)"
  using assms buffer_okD [OF assms(1)]
  by (auto simp: hasWritten_def check_def writableBytes_ok sz_add_small buffer_ok_def)

lemma safe_search:
  assumes "buffer_ok b" and "peek b \<le> start" and "start \<le> beginWrite b"
  shows "safe (rbind (search_from start b) (\<lambda>_. Inr b))"
  using assms buffer_okD [OF assms(1)]
  by (simp add: search_from_def beginWrite_def mem_read_def sz_sub_exact Let_def)

lemma safe_append:
  assumes "buffer_ok b" and "length xs \<le> kMaxSize"
  shows "safe (append_buf xs b)"
  using append_buf_cases [OF assms] by auto

lemma safe_readFd:
  assumes ok: "buffer_ok b" and rv: "readv_bounded readv"
  shows "safe (rbind (readFd readv b) (\<lambda>(n, err, b'). Inr b'))"
proof (cases "readv (readFd_iov b)")
  case (ReadvErr err)
  then show ?thesis using ok by (simp add: readFd_def)
next
  case (ReadvData bs)
  note bounds = buffer_okD [OF ok]
  let ?w = "writableBytes b"
  have w: "?w = length (buf_data b) - writerIndex b" by (rule writableBytes_ok [OF ok])
  have len: "length bs \<le> sum_list (readFd_iov b)"
    using rv ReadvData by (simp add: readv_bounded_def)
  then have small: "length bs - ?w \<le> kMaxSize"
    by (simp add: readFd_iov_def kExtraBuf_def kMaxSize_def split: if_splits)
  let ?d = "take (writerIndex b) (buf_data b) @ take ?w bs @ drop (writerIndex b + length (take ?w bs)) (buf_data b)"
  let ?b1 = "b\<lparr>buf_data := ?d\<rparr>"
  have wr: "mem_write (beginWrite b) (take ?w bs) (buf_data b) = Inr ?d"
    using bounds w by (simp add: mem_write_def beginWrite_def)
  have d: "length ?d = length (buf_data b)" using bounds w by simp
  show ?thesis
  proof (cases "length bs \<le> ?w")
    case True
    have "buffer_ok (?b1\<lparr>writerIndex := sz_add (writerIndex b) (length bs)\<rparr>)"
      using bounds w True d by (simp add: buffer_ok_def sz_add_small)
    then show ?thesis using ReadvData wr True by (simp add: readFd_def Let_def)
  next
    case False
    have "buffer_ok (?b1\<lparr>writerIndex := length ?d\<rparr>)" using bounds d by (simp add: buffer_ok_def)
    then have "safe (append_buf (take (sz_sub (length bs) ?w) (drop ?w bs)) (?b1\<lparr>writerIndex := length ?d\<rparr>))"
      by (rule safe_append) (use small in simp)
    then show ?thesis
      using ReadvData wr False
      by (cases "append_buf (take (sz_sub (length bs) ?w) (drop ?w bs)) (?b1\<lparr>writerIndex := length ?d\<rparr>)")
        (simp_all add: readFd_def Let_def)
  qed
qed

lemma swap_ok: "buffer_ok other \<Longrightarrow> buffer_ok (fst (buf_swap b other))"
  by (simp add: buf_swap_def buffer_ok_def)

text \<open>\<open>ensureWritableBytes\<close> beyond the largest vector fails, unless the new size wraps.\<close>

definition wraps :: "nat \<Rightarrow> buffer \<Rightarrow> bool" where
  "wraps len b \<longleftrightarrow> size_mod \<le> writerIndex b + len \<and>
     (\<exists>b'. ensureWritableBytes len b = Inr b' \<and> length (buf_data b') < writerIndex b')"

lemma grow_huge:
  assumes ok: "buffer_ok b" and len: "kMaxSize < len" "len < size_mod"
    and branch: "sz_add (writableBytes b) (prependableBytes b) < sz_add len kCheapPrepend"
  shows "ensureWritableBytes len b = Inl LengthError \<or> wraps len b"
proof -
  note bounds = buffer_okD [OF ok]
  let ?n = "sz_add (writerIndex b) len"
  have full: "writableBytes b < len" using bounds len(1) by (simp add: writableBytes_ok ok)
  show ?thesis
  proof (cases "?n \<le> kMaxSize")
    case False
    then show ?thesis using full branch by (simp add: ensureWritableBytes_def makeSpace_def vec_resize_def)
  next
    case True
    have wrap: "size_mod \<le> writerIndex b + len"
      using True len(1) by (cases "writerIndex b + len < size_mod") (simp_all add: sz_add_exact)
    have sum: "writerIndex b + len < 2 * size_mod" using bounds len(2) by (simp add: kMaxSize_def size_mod_def)
    then have n: "?n = writerIndex b + len - size_mod" using wrap by (simp add: sz_add_def le_mod_geq)
    then have small: "?n < writerIndex b" using len(2) wrap by linarith
    let ?b = "b\<lparr>buf_data := take ?n (buf_data b)\<rparr>"
    have d: "length (buf_data ?b) = ?n" using small bounds by simp
    have "?n + size_mod - writerIndex b = len" using n wrap bounds by linarith
    then have "writableBytes ?b = len" using d len(2) by (simp add: writableBytes_def sz_sub_def)
    moreover have "makeSpace len b = Inr ?b" using branch True small bounds by (simp add: makeSpace_def vec_resize_def)
    ultimately have "ensureWritableBytes len b = Inr ?b" using full by (simp add: ensureWritableBytes_def)
    then show ?thesis using wrap d small by (auto simp: wraps_def)
  qed
qed

lemma compact_huge:
  assumes ok: "buffer_ok b" and len: "kMaxSize < len"
    and branch: "\<not> sz_add (writableBytes b) (prependableBytes b) < sz_add len kCheapPrepend"
  shows "ensureWritableBytes len b = Inl AssertFail"
proof -
  note bounds = buffer_okD [OF ok]
  have full: "writableBytes b < len" using bounds len by (simp add: writableBytes_ok ok)
  show ?thesis
  proof (cases "kCheapPrepend < readerIndex b")
    case False
    then show ?thesis using full branch by (simp add: ensureWritableBytes_def makeSpace_def)
  next
    case front: True
    let ?xs = "readable b" and ?d = "buf_data b"
    let ?d' = "take kCheapPrepend ?d @ ?xs @ drop (kCheapPrepend + length ?xs) ?d"
    let ?b' = "b\<lparr>buf_data := ?d', readerIndex := kCheapPrepend, writerIndex := kCheapPrepend + length ?xs\<rparr>"
    have fits: "kCheapPrepend + length ?xs \<le> length ?d"
      using front bounds by (simp add: length_readable ok)
    have sum: "sz_add kCheapPrepend (length ?xs) = kCheapPrepend + length ?xs"
      using fits bounds by (intro sz_add_small) auto
    have ok': "buffer_ok ?b'" using fits bounds by (simp add: buffer_ok_def)
    have "readable ?b' = ?xs" using fits by (subst readable_def) simp
    then have "makeSpace len b = Inr ?b'"
      using branch front fits readableBytes_length [OF ok']
      by (simp add: makeSpace_def readableBytes_length ok mem_simps sum Let_def)
    moreover have "writableBytes ?b' < len"
      using writableBytes_ok [OF ok'] buffer_okD(4) [OF ok'] len by linarith
    ultimately show ?thesis using full by (simp add: ensureWritableBytes_def)
  qed
qed

lemma safe_ensureWritable:
  assumes ok: "buffer_ok b" and len: "len < size_mod"
  shows "safe (ensureWritableBytes len b) \<or> wraps len b"
proof (cases "len \<le> kMaxSize")
  case True
  from ensureWritableBytes_correct [OF ok True] show ?thesis by (auto simp: space_made_def)
next
  case False
  then show ?thesis
    using grow_huge [OF ok _ len] compact_huge [OF ok, of len]
    by (cases "sz_add (writableBytes b) (prependableBytes b) < sz_add len kCheapPrepend") auto
qed

lemma buf_call_safe:
  "buffer_ok b \<Longrightarrow> op_ok op \<Longrightarrow> safe (buf_call op b) \<or> (\<exists>len. op = EnsureWritable len \<and> wraps len b)"
proof (cases op)
  case (EnsureWritable len)
  assume "buffer_ok b" "op_ok op"
  then show ?thesis
    using safe_ensureWritable [of b len] EnsureWritable by (simp add: buf_call_def)
next
  case (FindCRLFFrom start)
  assume "buffer_ok b"
  then show ?thesis
    using safe_search [of b start] FindCRLFFrom by (auto simp: buf_call_def findCRLF_from_def check_def)
next
  case FindCRLF
  assume "buffer_ok b"
  then show ?thesis
    using safe_search [of b "peek b"] FindCRLF buffer_okD(1) [of b]
    by (simp add: buf_call_def findCRLF_def peek_def beginWrite_def)
qed (simp_all add: buf_call_def safe_append safe_prepend safe_hasWritten safe_retrieve retrieveAll_ok
    safe_retrieveUntil safe_retrieve32 safe_retrieveString retrieveAllAsString_def safe_readFd swap_ok)

subsection \<open>Properties\<close>

text \<open>C16. Every buffer a program can make is well-formed and no call of the interface leaves the
  vector, unless an \<open>ensureWritableBytes\<close> wraps: over any list of calls with any \<open>size_t\<close> arguments,
  starting from a new buffer, either all return and the reader index is at most the writer index,
  which is at most the size, or a call fails its assert or throws \<open>std::length_error\<close>, or some call
  \<open>ensureWritableBytes(len)\<close> on a well-formed buffer, with \<open>writerIndex_ + len\<close> at least \<open>2 ^ 64\<close>,
  returns with a vector that ends below the writer index.  The last case needs a \<open>len\<close> above
  \<open>2 ^ 63\<close>; \<open>append\<close> and \<open>readFd\<close>, whose lengths are those of objects, never get there.\<close>

theorem buffer_type:
  assumes "\<forall>op \<in> set ops. op_ok op"
  shows "(case buf_calls ops (new_buffer n) of
            Inr b \<Rightarrow> buffer_ok b | Inl e \<Rightarrow> e = AssertFail \<or> e = LengthError) \<or>
    (\<exists>before len after b b'. ops = before @ EnsureWritable len # after \<and>
       buf_calls before (new_buffer n) = Inr b \<and> buffer_ok b \<and> 2 ^ 64 \<le> writerIndex b + len \<and> 2 ^ 63 < len \<and>
       ensureWritableBytes len b = Inr b' \<and> length (buf_data b') < writerIndex b')"
proof -
  have "safe (buf_calls ops b) \<or>
      (\<exists>before len after b'. ops = before @ EnsureWritable len # after \<and> buf_calls before b = Inr b' \<and> buffer_ok b' \<and> wraps len b')"
    if "buffer_ok b" for b
    using that assms
  proof (induction ops arbitrary: b)
    case (Cons op ops)
    consider (wrapping) len where "op = EnsureWritable len" "wraps len b" | (fails) e where "buf_call op b = Inl e" "safe (Inl e)"
      | (returns) b1 where "buf_call op b = Inr b1" "buffer_ok b1"
      using buf_call_safe [of b op] Cons.prems by (cases "buf_call op b") auto
    then show ?case
    proof cases
      case wrapping
      then have "op # ops = [] @ EnsureWritable len # ops \<and> buf_calls [] b = Inr b" by simp
      with wrapping Cons.prems(1) show ?thesis by blast
    next
      case returns
      from Cons.IH [OF returns(2)] Cons.prems(2) consider "safe (buf_calls ops b1)"
        | before len after b' where "ops = before @ EnsureWritable len # after" "buf_calls before b1 = Inr b'"
          "buffer_ok b'" "wraps len b'" by auto
      then show ?thesis
      proof cases
        case 1
        then show ?thesis using returns by simp
      next
        case (2 before len after b')
        then have "op # ops = (op # before) @ EnsureWritable len # after" "buf_calls (op # before) b = Inr b'"
          using returns by simp_all
        with 2(3,4) show ?thesis by blast
      qed
    qed simp
  qed simp
  from this [OF new_buffer_ok] show ?thesis
  proof
    assume "\<exists>before len after b'. ops = before @ EnsureWritable len # after \<and>
        buf_calls before (new_buffer n) = Inr b' \<and> buffer_ok b' \<and> wraps len b'"
    then obtain before len after b b' where *: "ops = before @ EnsureWritable len # after"
      "buf_calls before (new_buffer n) = Inr b" "buffer_ok b" "size_mod \<le> writerIndex b + len"
      "ensureWritableBytes len b = Inr b'" "length (buf_data b') < writerIndex b'"
      unfolding wraps_def by blast
    moreover have "2 ^ 63 < len" using *(4) buffer_okD(6) [OF *(3)] by (simp add: size_mod_def kMaxSize_def)
    ultimately show ?thesis unfolding size_mod_def by blast
  qed (simp add: safe_def)
qed

text \<open>The exception occurs: a buffer with three bytes is left with a vector of two.\<close>

lemma ensureWritable_wraps:
  "\<exists>b b'. append_buf ''abc'' (new_buffer 8) = Inr b \<and> ensureWritableBytes (2 ^ 64 - 9) b = Inr b' \<and>
     writerIndex b' = 11 \<and> length (buf_data b') = 2"
  by (simp add: append_buf_def new_buffer_def ensureWritableBytes_def makeSpace_def vec_resize_def mem_write_def
      hasWritten_def writableBytes_def prependableBytes_def beginWrite_def sz_add_def sz_sub_def size_mod_def
      kCheapPrepend_def kMaxSize_def kInitialSize_def)

theorem buffer_type_witness:
  "case buf_calls [Append ''abc'', Prepend ''x'', Retrieve 9] (new_buffer 0) of
     Inr b \<Rightarrow> buffer_ok b | Inl e \<Rightarrow> e = AssertFail \<or> e = LengthError"
  using buffer_type [of "[Append ''abc'', Prepend ''x'', Retrieve 9]" 0]
  by (auto simp: kMaxSize_def Cons_eq_append_conv)

end
