(* ===== verification/Containers.thy ===== *)
theory Containers
  imports Prelude "HOL-Library.Char_ord" "HOL-Library.List_Lexorder"
    "HOL-Library.Product_Lexorder"
begin

text \<open>
  The ordered containers of the standard library that the sources use.  A
  \<open>std::set\<close> is its list of elements in increasing order, a \<open>std::map\<close> its list of
  entries in increasing order of the keys; both orders are what a loop over the container
  sees.  Strings compare lexicographically by unsigned bytes, pairs lexicographically.
  The locales say what a client may rely on; they are interpreted on these lists.
\<close>

subsection \<open>Sets\<close>

fun sset_insert :: "'a::linorder \<Rightarrow> 'a list \<Rightarrow> 'a list" where
  "sset_insert x [] = [x]"
| "sset_insert x (y # ys) =
     (if x < y then x # y # ys else if x = y then y # ys else y # sset_insert x ys)"

fun sset_erase :: "'a::linorder \<Rightarrow> 'a list \<Rightarrow> 'a list" where
  "sset_erase x [] = []"
| "sset_erase x (y # ys) = (if x = y then ys else y # sset_erase x ys)"

text \<open>The elements before \<open>lower_bound(x)\<close>, and those from it on.\<close>

definition sset_below :: "'a::linorder \<Rightarrow> 'a list \<Rightarrow> 'a list" where
  "sset_below x xs = takeWhile (\<lambda>y. y < x) xs"

definition sset_from :: "'a::linorder \<Rightarrow> 'a list \<Rightarrow> 'a list" where
  "sset_from x xs = dropWhile (\<lambda>y. y < x) xs"

abbreviation sset_ok :: "'a::linorder list \<Rightarrow> bool" where
  "sset_ok \<equiv> sorted_wrt (<)"

lemma set_sset_insert [simp]: "set (sset_insert x xs) = insert x (set xs)"
  by (induction xs) auto

lemma sset_insert_ok: "sset_ok xs \<Longrightarrow> sset_ok (sset_insert x xs)"
  by (induction xs) auto

lemma set_sset_erase [simp]: "sset_ok xs \<Longrightarrow> set (sset_erase x xs) = set xs - {x}"
  by (induction xs) auto

lemma set_sset_erase_sub: "set (sset_erase x xs) \<subseteq> set xs"
  by (induction xs) auto

lemma sset_erase_ok: "sset_ok xs \<Longrightarrow> sset_ok (sset_erase x xs)"
proof (induction xs)
  case (Cons y ys)
  then show ?case using set_sset_erase_sub [of x ys] by auto
qed simp

lemma set_sset_below: "sset_ok xs \<Longrightarrow> set (sset_below x xs) = {y \<in> set xs. y < x}"
proof (induction xs)
  case (Cons y ys)
  have "z < x \<Longrightarrow> y < x" if "z \<in> set ys" for z
    using Cons.prems that by (meson list.set_intros(2) order.strict_trans sorted_wrt.simps(2))
  then have "\<not> y < x \<Longrightarrow> \<forall>z \<in> set ys. \<not> z < x" by blast
  moreover have "set (sset_below x ys) = {z \<in> set ys.  z < x}" using Cons by simp
  ultimately show ?case by (cases "y < x") (simp_all add: sset_below_def, blast+)
qed (simp add: sset_below_def)

lemma set_sset_from: "sset_ok xs \<Longrightarrow> set (sset_from x xs) = {y \<in> set xs. \<not> y < x}"
proof (induction xs)
  case (Cons y ys)
  have "z < x \<Longrightarrow> y < x" if "z \<in> set ys" for z
    using Cons.prems that by (meson list.set_intros(2) order.strict_trans sorted_wrt.simps(2))
  then have "\<not> y < x \<Longrightarrow> \<forall>z \<in> set ys. \<not> z < x" by blast
  moreover have "set (sset_from x ys) = {z \<in> set ys. \<not> z < x}" using Cons by simp
  ultimately show ?case by (cases "y < x") (simp_all add: sset_from_def, blast+)
qed (simp add: sset_from_def)

lemma sset_split: "sset_below x xs @ sset_from x xs = xs"
  by (simp add: sset_below_def sset_from_def)

lemma sset_parts_ok:
  assumes "sset_ok xs"
  shows "sset_ok (sset_below x xs)" and "sset_ok (sset_from x xs)"
  using assms sset_split [of x xs] by (metis sorted_wrt_append)+

lemma sset_ok_distinct: "sset_ok xs \<Longrightarrow> distinct xs"
  by (induction xs) auto

lemma sset_hd_least: "sset_ok xs \<Longrightarrow> x \<in> set xs \<Longrightarrow> hd xs \<le> x"
  by (cases xs) (auto simp: less_imp_le)

locale ordered_set =
  fixes ok :: "'s \<Rightarrow> bool" and elems :: "'s \<Rightarrow> 'a::linorder set"
    and ins :: "'a \<Rightarrow> 's \<Rightarrow> 's" and era :: "'a \<Rightarrow> 's \<Rightarrow> 's"
    and below :: "'a \<Rightarrow> 's \<Rightarrow> 's" and from_on :: "'a \<Rightarrow> 's \<Rightarrow> 's"
  assumes ins_law: "ok s \<Longrightarrow> ok (ins x s) \<and> elems (ins x s) = insert x (elems s)"
    and era_law: "ok s \<Longrightarrow> ok (era x s) \<and> elems (era x s) = elems s - {x}"
    and below_law: "ok s \<Longrightarrow> ok (below x s) \<and> elems (below x s) = {y \<in> elems s. y < x}"
    and from_law: "ok s \<Longrightarrow> ok (from_on x s) \<and> elems (from_on x s) = {y \<in> elems s. \<not> y < x}"
begin

lemma split_parts:
  assumes "ok s"
  shows "elems (below x s) \<union> elems (from_on x s) = elems s"
    and "elems (below x s) \<inter> elems (from_on x s) = {}"
  using below_law [OF assms, of x] from_law [OF assms, of x] by auto

lemma era_ins: "ok s \<Longrightarrow> x \<notin> elems s \<Longrightarrow> elems (era x (ins x s)) = elems s"
  using ins_law [of s x] era_law [of "ins x s" x] by auto

end

interpretation sset: ordered_set sset_ok set sset_insert sset_erase sset_below sset_from
  by unfold_locales
    (auto simp: sset_insert_ok sset_erase_ok sset_parts_ok set_sset_below set_sset_from)

subsection \<open>Maps\<close>

fun smap_update :: "'k::linorder \<Rightarrow> 'v \<Rightarrow> ('k \<times> 'v) list \<Rightarrow> ('k \<times> 'v) list" where
  "smap_update k v [] = [(k, v)]"
| "smap_update k v ((l, w) # m) =
     (if k < l then (k, v) # (l, w) # m else if k = l then (k, v) # m
      else (l, w) # smap_update k v m)"

fun smap_erase :: "'k::linorder \<Rightarrow> ('k \<times> 'v) list \<Rightarrow> ('k \<times> 'v) list" where
  "smap_erase k [] = []"
| "smap_erase k ((l, w) # m) = (if k = l then m else (l, w) # smap_erase k m)"

abbreviation smap_ok :: "('k::linorder \<times> 'v) list \<Rightarrow> bool" where
  "smap_ok m \<equiv> sorted_wrt (<) (map fst m)"

lemma keys_smap_update [simp]: "fst ` set (smap_update k v m) = insert k (fst ` set m)"
  by (induction k v m rule: smap_update.induct) auto

lemma smap_update_ok: "smap_ok m \<Longrightarrow> smap_ok (smap_update k v m)"
proof (induction k v m rule: smap_update.induct)
  case (2 k v l w m)
  have "x = k \<or> x \<in> fst ` set m" if "x \<in> fst ` set (smap_update k v m)" for x
    using that by simp
  with 2 show ?case by (fastforce simp flip: image_image)
qed simp

lemma find_smap_update: "map_of (smap_update k v m) = (map_of m)(k \<mapsto> v)"
  by (induction k v m rule: smap_update.induct) auto

lemma keys_smap_erase_sub: "fst ` set (smap_erase k m) \<subseteq> fst ` set m"
  by (induction k m rule: smap_erase.induct) auto

lemma smap_erase_ok: "smap_ok m \<Longrightarrow> smap_ok (smap_erase k m)"
proof (induction k m rule: smap_erase.induct)
  case (2 k l w m)
  then show ?case using keys_smap_erase_sub [of k m] by (fastforce simp: image_subset_iff)
qed simp

lemma smap_ok_notin: "smap_ok ((k, v) # m) \<Longrightarrow> map_of m k = None"
  by (auto simp: map_of_eq_None_iff)

lemma find_smap_erase: "smap_ok m \<Longrightarrow> map_of (smap_erase k m) = (map_of m)(k := None)"
proof (induction k m rule: smap_erase.induct)
  case (2 k l w m)
  then show ?case using smap_ok_notin [of l w m] by (auto simp: fun_eq_iff)
qed simp

locale ordered_map =
  fixes mok :: "'m \<Rightarrow> bool" and find :: "'m \<Rightarrow> 'k \<Rightarrow> 'v option"
    and upd :: "'k \<Rightarrow> 'v \<Rightarrow> 'm \<Rightarrow> 'm" and del :: "'k \<Rightarrow> 'm \<Rightarrow> 'm"
  assumes upd_law: "mok m \<Longrightarrow> mok (upd k v m) \<and> find (upd k v m) = (find m)(k \<mapsto> v)"
    and del_law: "mok m \<Longrightarrow> mok (del k m) \<and> find (del k m) = (find m)(k := None)"
begin

lemma upd_all_law:
  "mok m \<Longrightarrow> mok (fold (\<lambda>(k, v). upd k v) kvs m) \<and>
     find (fold (\<lambda>(k, v). upd k v) kvs m) = find m ++ map_of (rev kvs)"
proof (induction kvs arbitrary: m)
  case (Cons kv kvs)
  obtain k v where kv: "kv = (k, v)" by (cases kv)
  have "mok (upd k v m)" and "find (upd k v m) = (find m)(k \<mapsto> v)"
    using Cons.prems upd_law by auto
  then show ?case using Cons.IH by (auto simp: kv fun_eq_iff map_add_def split: option.splits)
qed simp

lemma del_fresh: "mok m \<Longrightarrow> find m k = None \<Longrightarrow> find (del k (upd k v m)) = find m"
  using upd_law [of m k v] del_law [of "upd k v m" k] by (auto simp: fun_eq_iff)

end

interpretation smap: ordered_map smap_ok map_of smap_update smap_erase
  by unfold_locales (simp_all add: smap_update_ok find_smap_update smap_erase_ok find_smap_erase)

end
