(* ===== verification/HttpRequest.thy ===== *)
theory HttpRequest
  imports Containers
begin

text \<open>
  \<open>yvent/http/HttpRequest.h\<close> and \<open>HttpRequest.cpp\<close>: the parsed request.  The functions that
  take a pair of pointers get the memory they point into and two offsets.  \<open>setPath\<close> decodes
  percent escapes; its loop is kept as written, including the read of the character at
  \<open>end\<close> that a cut-off escape causes.  The lemmas give its specification on lists
  (\<open>pct_decode\<close>), and that decoding inverts percent-encoding.
\<close>

datatype Method = Invalid | Get | Post | Head | Put | Delete

datatype Version = Unknown | Http10 | Http11

record http_request =
  rq_method :: Method
  rq_version :: Version
  rq_path :: string
  rq_query :: string
  rq_headers :: "(string \<times> string) list"

definition new_request :: http_request where
  "new_request = \<lparr> rq_method = Invalid, rq_version = Unknown, rq_path = [], rq_query = [],
                   rq_headers = [] \<rparr>"

definition setVersion :: "Version \<Rightarrow> http_request \<Rightarrow> http_request" where
  "setVersion v r = r\<lparr>rq_version := v\<rparr>"

definition mem_at :: "nat \<Rightarrow> char list \<Rightarrow> char res" where
  "mem_at p xs = (if p < length xs then Inr (xs ! p) else Inl OutOfBounds)"

definition method_of :: "string \<Rightarrow> Method" where
  "method_of m =
     (if m = ''GET'' then Get else if m = ''POST'' then Post else if m = ''HEAD'' then Head
      else if m = ''PUT'' then Put else if m = ''DELETE'' then Delete else Invalid)"

definition setMethod ::
  "char list \<Rightarrow> nat \<Rightarrow> nat \<Rightarrow> http_request \<Rightarrow> (bool \<times> http_request) res" where
  "setMethod mem start end_ptr r =
     rbind (assert (rq_method r = Invalid)) (\<lambda>_.
     rbind (mem_read start (end_ptr - start) mem) (\<lambda>m.
     let r' = r\<lparr>rq_method := method_of m\<rparr> in Inr (rq_method r' \<noteq> Invalid, r')))"

definition methodString :: "http_request \<Rightarrow> string" where
  "methodString r =
     (case rq_method r of Get \<Rightarrow> ''GET'' | Post \<Rightarrow> ''POST'' | Head \<Rightarrow> ''HEAD'' | Put \<Rightarrow> ''PUT''
      | Delete \<Rightarrow> ''DELETE'' | Invalid \<Rightarrow> ''UNKNOWN'')"

text \<open>
  Characters are signed: \<open>char_int\<close> is the value of a \<open>char\<close> promoted to \<open>int\<close>.
  \<open>isdigit\<close> and \<open>isspace\<close> are those of the C locale.
\<close>

definition char_int :: "char \<Rightarrow> int" where
  "char_int c = (if of_char c < (128::int) then of_char c else of_char c - 256)"

definition isdigit :: "char \<Rightarrow> bool" where
  "isdigit c \<longleftrightarrow> 48 \<le> char_int c \<and> char_int c \<le> 57"

definition isspace :: "char \<Rightarrow> bool" where
  "isspace c \<longleftrightarrow> char_int c = 32 \<or> (9 \<le> char_int c \<and> char_int c \<le> 13)"

text \<open>The value of a hexadecimal digit, \<open>None\<close> where the code breaks out of the switch.\<close>

definition hex_digit :: "char \<Rightarrow> int option" where
  "hex_digit c =
     (if isdigit c then Some (char_int c - 48)
      else let h = char_int c OR 0x20 in
        if 97 \<le> h \<and> h \<le> 102 then Some (h - 97 + 10) else None)"

datatype path_state = kStart | kPercent

function setPath_loop ::
  "char list \<Rightarrow> nat \<Rightarrow> nat \<Rightarrow> path_state \<Rightarrow> string \<Rightarrow> string res" where
  "setPath_loop mem p end_ptr state path =
     (if p < end_ptr then
        rbind (mem_at p mem) (\<lambda>c.
        case state of
          kStart \<Rightarrow>
            if c = CHR ''%'' then setPath_loop mem (p + 1) end_ptr kPercent path
            else setPath_loop mem (p + 1) end_ptr kStart (path @ [c])
        | kPercent \<Rightarrow>
            (case hex_digit c of
               None \<Rightarrow> setPath_loop mem (p + 1) end_ptr kPercent path
             | Some hex1 \<Rightarrow>
                 rbind (mem_at (p + 1) mem) (\<lambda>c2.
                 case hex_digit c2 of
                   None \<Rightarrow> setPath_loop mem (p + 2) end_ptr kPercent path
                 | Some hex2 \<Rightarrow>
                     setPath_loop mem (p + 2) end_ptr kStart
                       (path @ [char_of (push_bit 4 hex1 + hex2)]))))
      else Inr path)"
  by pat_completeness auto
termination
  by (relation "measure (\<lambda>(mem, p, end_ptr, state, path). end_ptr - p)") auto

declare setPath_loop.simps [simp del]

definition setPath :: "char list \<Rightarrow> nat \<Rightarrow> nat \<Rightarrow> http_request \<Rightarrow> http_request res" where
  "setPath mem start end_ptr r =
     rbind (setPath_loop mem start end_ptr kStart (rq_path r)) (\<lambda>path.
     Inr (r\<lparr>rq_path := path\<rparr>))"

definition setQuery :: "char list \<Rightarrow> nat \<Rightarrow> nat \<Rightarrow> http_request \<Rightarrow> http_request res" where
  "setQuery mem start end_ptr r =
     rbind (mem_read start (end_ptr - start) mem) (\<lambda>q. Inr (r\<lparr>rq_query := q\<rparr>))"

text \<open>
  \<open>addHeader\<close>: the key up to the colon, the value without the white space around it.  The
  two loops drop leading and trailing white space of the range \<open>[colon + 1, end)\<close>.
\<close>

definition trim_space :: "string \<Rightarrow> string" where
  "trim_space v = rev (dropWhile isspace (rev (dropWhile isspace v)))"

definition addHeader ::
  "char list \<Rightarrow> nat \<Rightarrow> nat \<Rightarrow> nat \<Rightarrow> http_request \<Rightarrow> http_request res" where
  "addHeader mem start colon end_ptr r =
     rbind (mem_read start (colon - start) mem) (\<lambda>key.
     rbind (mem_read (colon + 1) (end_ptr - (colon + 1)) mem) (\<lambda>v.
     Inr (r\<lparr>rq_headers := smap_update key (trim_space v) (rq_headers r)\<rparr>)))"

definition getHeader :: "string \<Rightarrow> http_request \<Rightarrow> string" where
  "getHeader key r = (case map_of (rq_headers r) key of Some v \<Rightarrow> v | None \<Rightarrow> [])"

definition request_swap ::
  "http_request \<Rightarrow> http_request \<Rightarrow> http_request \<times> http_request" where
  "request_swap a b =
     (a\<lparr>rq_method := rq_method b, rq_version := rq_version b, rq_path := rq_path b,
        rq_query := rq_query b, rq_headers := rq_headers b\<rparr>,
      b\<lparr>rq_method := rq_method a, rq_version := rq_version a, rq_path := rq_path a,
        rq_query := rq_query a, rq_headers := rq_headers a\<rparr>)"

subsection \<open>Percent decoding on lists\<close>

fun pct_decode :: "path_state \<Rightarrow> string \<Rightarrow> string" where
  "pct_decode st [] = []"
| "pct_decode kStart (c # cs) =
     (if c = CHR ''%'' then pct_decode kPercent cs else c # pct_decode kStart cs)"
| "pct_decode kPercent [c] = []"
| "pct_decode kPercent (c # d # cs) =
     (case hex_digit c of None \<Rightarrow> pct_decode kPercent (d # cs)
      | Some h \<Rightarrow> (case hex_digit d of None \<Rightarrow> pct_decode kPercent cs
         | Some l \<Rightarrow> char_of (push_bit 4 h + l) # pct_decode kStart cs))"

text \<open>Percent-encoding of the characters that are not \<open>safe\<close>.\<close>

definition hex_char :: "nat \<Rightarrow> char" where
  "hex_char n = (if n < 10 then char_of (48 + n) else char_of (87 + n))"

definition pct_encode :: "(char \<Rightarrow> bool) \<Rightarrow> string \<Rightarrow> string" where
  "pct_encode safe s =
     concat (map (\<lambda>c. if safe c then [c]
       else [CHR ''%'', hex_char (of_char c div 16), hex_char (of_char c mod 16)]) s)"

subsection \<open>The loop decodes\<close>

lemma setPath_loop_decodes:
  assumes "hi < length mem" and "hex_digit (mem ! hi) = None"
  shows "lo \<le> hi \<Longrightarrow> setPath_loop mem lo hi st path
           = Inr (path @ pct_decode st (take (hi - lo) (drop lo mem)))"
proof (induction "hi - lo" arbitrary: lo st path rule: less_induct)
  case less
  show ?case
  proof (cases "lo < hi")
    case False
    with less.prems show ?thesis by (subst setPath_loop.simps) simp
  next
    case True
    define cs where "cs = take (hi - Suc lo) (drop (Suc lo) mem)"
    have at: "mem_at lo mem = Inr (mem ! lo)" and at2: "mem_at (Suc lo) mem = Inr (mem ! Suc lo)"
      using True assms(1) by (simp_all add: mem_at_def)
    have slice: "take (hi - lo) (drop lo mem) = mem ! lo # cs"
      using True assms(1) by (simp add: cs_def Cons_nth_drop_Suc [symmetric] Suc_diff_Suc
          flip: take_Suc_Cons)
    have IH: "setPath_loop mem (Suc lo) hi st' path' = Inr (path' @ pct_decode st' cs)" for st' path'
      using True less.hyps [of "Suc lo"] by (simp add: cs_def)
    show ?thesis
    proof (cases "lo + 1 = hi")
      case last: True
      then have "cs = []" by (simp add: cs_def)
      moreover have "hex_digit (mem ! Suc lo) = None" using last assms(2) by simp
      moreover have "setPath_loop mem (lo + 2) hi st' path' = Inr path'" for st' path'
        using last by (subst setPath_loop.simps) simp
      ultimately show ?thesis
        using True IH by (subst setPath_loop.simps)
          (auto simp: at at2 slice split: path_state.split option.split)
    next
      case False
      define ds where "ds = take (hi - Suc (Suc lo)) (drop (Suc (Suc lo)) mem)"
      have cs: "cs = mem ! Suc lo # ds"
        using True False assms(1)
        by (simp add: cs_def ds_def Cons_nth_drop_Suc [symmetric] Suc_diff_Suc
            flip: take_Suc_Cons)
      have "setPath_loop mem (lo + 2) hi st' path' = Inr (path' @ pct_decode st' ds)" for st' path'
        using True False less.hyps [of "lo + 2"] by (simp add: ds_def)
      then show ?thesis
        using True IH by (subst setPath_loop.simps)
          (auto simp: at at2 slice cs split: path_state.split option.split)
    qed
  qed
qed

lemma setPath_decodes:
  assumes "end_ptr < length mem" and "hex_digit (mem ! end_ptr) = None" and "start \<le> end_ptr"
  shows "setPath mem start end_ptr r =
     Inr (r\<lparr>rq_path := rq_path r @ pct_decode kStart (take (end_ptr - start) (drop start mem))\<rparr>)"
  using setPath_loop_decodes [OF assms(1,2,3)] by (simp add: setPath_def)

subsection \<open>Decoding inverts encoding\<close>

lemma char_int_char_of: "k < 128 \<Longrightarrow> char_int (char_of k) = int k"
  for k :: nat
proof -
  assume "k < 128"
  moreover have "of_char (char_of k :: char) = int (of_char (char_of k :: char))"
    by (simp only: of_nat_of_char)
  then have "of_char (char_of k :: char) = int (k mod 256)"
    by (simp only: of_char_of)
  ultimately show ?thesis by (simp add: char_int_def)
qed

lemma hex_digit_hex_char: "n < 16 \<Longrightarrow> hex_digit (hex_char n) = Some (int n)"
proof -
  assume n: "n < 16"
  show ?thesis
  proof (cases "n < 10")
    case True
    then show ?thesis by (simp add: hex_digit_def hex_char_def isdigit_def char_int_char_of)
  next
    case False
    with n have "n = 10 \<or> n = 11 \<or> n = 12 \<or> n = 13 \<or> n = 14 \<or> n = 15" by linarith
    moreover have "char_int (hex_char n) = 87 + int n"
      using False n by (simp add: hex_char_def char_int_char_of)
    ultimately show ?thesis by (auto simp: hex_digit_def isdigit_def)
  qed
qed

lemma char_of_digits: "char_of (push_bit 4 (of_char c div 16) + of_char c mod 16 :: int) = c"
proof -
  have "push_bit 4 (of_char c div 16) + of_char c mod 16 = (of_char c :: int)"
    by (simp add: push_bit_eq_mult)
  then show ?thesis by simp
qed

lemma pct_decode_encode:
  assumes "\<not> safe (CHR ''%'')"
  shows "pct_decode kStart (pct_encode safe s) = s"
proof (induction s)
  case (Cons c s)
  have lt: "of_char c div 16 < (16::nat)"
    by (rule less_mult_imp_div_less) simp
  have "char_of (push_bit 4 (int (of_char c div 16)) + int (of_char c mod 16)) = c"
    using char_of_digits [of c] by (simp add: zdiv_int zmod_int of_nat_of_char)
  with Cons assms lt show ?case
    by (auto simp: pct_encode_def hex_digit_hex_char)
qed (simp add: pct_encode_def)

lemma pct_decode_plain: "CHR ''%'' \<notin> set s \<Longrightarrow> pct_decode kStart s = s"
  by (induction s) auto

end
