(* ===== verification/HttpContext.thy ===== *)
theory HttpContext
  imports Buffer HttpRequest
begin

text \<open>
  \<open>yvent/http/HttpContext.h\<close> and \<open>HttpContext.cpp\<close>: the incremental request parser.
  \<open>parseRequestLine\<close> and \<open>parseRequest\<close> work on the memory of the input buffer, as the
  code does.  The loop of \<open>parseRequest\<close> is a partial function: in the states \<open>Body\<close> and
  \<open>AllDone\<close> the \<open>switch\<close> leaves \<open>hasMore\<close> true and the loop never ends, so the result is
  \<open>None\<close> there.  \<open>parse_spec\<close> is the same parser on the list of unread bytes; the
  refinement lemma relates the two, and the streaming and printing lemmas are proved on it.
\<close>

datatype HttpRequestParseState = RequestLine | Headers | Body | AllDone

record http_context =
  ctx_state :: HttpRequestParseState
  ctx_request :: http_request

definition new_context :: http_context where
  "new_context = \<lparr> ctx_state = RequestLine, ctx_request = new_request \<rparr>"

definition parseDone :: "http_context \<Rightarrow> bool" where
  "parseDone ctx \<longleftrightarrow> ctx_state ctx = AllDone"

definition ctx_reset :: "http_context \<Rightarrow> http_context" where
  "ctx_reset ctx =
     (let dummy = new_request in
      ctx\<lparr>ctx_state := RequestLine, ctx_request := fst (request_swap (ctx_request ctx) dummy)\<rparr>)"

text \<open>\<open>std::find(first, last, c)\<close> on memory.\<close>

definition find_char :: "char list \<Rightarrow> nat \<Rightarrow> nat \<Rightarrow> char \<Rightarrow> nat res" where
  "find_char mem first last_ptr c =
     rbind (mem_read first (last_ptr - first) mem) (\<lambda>xs. Inr (first + std_find xs c))"

text \<open>The version field: eight characters \<open>HTTP/1.\<close> and \<open>0\<close> or \<open>1\<close>.\<close>

definition parse_version ::
  "char list \<Rightarrow> nat \<Rightarrow> nat \<Rightarrow> http_request \<Rightarrow> (bool \<times> http_request) res" where
  "parse_version mem start end_ptr r =
     (if end_ptr - start = 8 then
        rbind (mem_read start 7 mem) (\<lambda>v.
        if v = ''HTTP/1.'' then
          rbind (mem_at (end_ptr - 1) mem) (\<lambda>c.
          if c = CHR ''0'' then Inr (True, setVersion Http10 r)
          else if c = CHR ''1'' then Inr (True, setVersion Http11 r)
          else Inr (False, r))
        else Inr (False, r))
      else Inr (False, r))"

text \<open>The target between the two spaces: the path, and the query from the question mark on.\<close>

definition parse_target ::
  "char list \<Rightarrow> nat \<Rightarrow> nat \<Rightarrow> http_request \<Rightarrow> http_request res" where
  "parse_target mem start space r =
     rbind (find_char mem start space (CHR ''?'')) (\<lambda>question.
     if question \<noteq> space
     then rbind (setPath mem start question r) (setQuery mem question space)
     else setPath mem start space r)"

definition parseRequestLine ::
  "char list \<Rightarrow> nat \<Rightarrow> nat \<Rightarrow> http_request \<Rightarrow> (bool \<times> http_request) res" where
  "parseRequestLine mem begin_ptr end_ptr r =
     rbind (find_char mem begin_ptr end_ptr (CHR '' '')) (\<lambda>space.
     if space = end_ptr then Inr (False, r)
     else rbind (setMethod mem begin_ptr space r) (\<lambda>(ok, r1).
     if \<not> ok then Inr (False, r1)
     else
       let start = space + 1 in
       rbind (find_char mem start end_ptr (CHR '' '')) (\<lambda>space2.
       if space2 = end_ptr then Inr (False, r1)
       else
         rbind (parse_target mem start space2 r1) (\<lambda>r2.
         parse_version mem (space2 + 1) end_ptr r2))))"

partial_function (option) parseRequest ::
  "http_context \<Rightarrow> buffer \<Rightarrow> (bool \<times> http_context \<times> buffer) res option" where
  "parseRequest ctx b =
     (case ctx_state ctx of
        RequestLine \<Rightarrow>
          (case findCRLF b of Inl e \<Rightarrow> Some (Inl e)
           | Inr None \<Rightarrow> Some (Inr (True, ctx, b))
           | Inr (Some crlf) \<Rightarrow>
               (case parseRequestLine (buf_data b) (peek b) crlf (ctx_request ctx) of
                  Inl e \<Rightarrow> Some (Inl e)
                | Inr (ok, r) \<Rightarrow>
                    (if ok then
                       (case retrieveUntil (crlf + 2) b of Inl e \<Rightarrow> Some (Inl e)
                        | Inr b' \<Rightarrow>
                            parseRequest (ctx\<lparr>ctx_request := r, ctx_state := Headers\<rparr>) b')
                     else Some (Inr (False, ctx\<lparr>ctx_request := r\<rparr>, b)))))
      | Headers \<Rightarrow>
          (case findCRLF b of Inl e \<Rightarrow> Some (Inl e)
           | Inr None \<Rightarrow> Some (Inr (True, ctx, b))
           | Inr (Some crlf) \<Rightarrow>
               (case find_char (buf_data b) (peek b) crlf (CHR '':'') of
                  Inl e \<Rightarrow> Some (Inl e)
                | Inr colon \<Rightarrow>
                    (if colon \<noteq> crlf then
                       (case addHeader (buf_data b) (peek b) colon crlf (ctx_request ctx) of
                          Inl e \<Rightarrow> Some (Inl e)
                        | Inr r \<Rightarrow>
                            (case retrieveUntil (crlf + 2) b of Inl e \<Rightarrow> Some (Inl e)
                             | Inr b' \<Rightarrow> parseRequest (ctx\<lparr>ctx_request := r\<rparr>) b'))
                     else
                       (case retrieveUntil (crlf + 2) b of Inl e \<Rightarrow> Some (Inl e)
                        | Inr b' \<Rightarrow> Some (Inr (True, ctx\<lparr>ctx_state := AllDone\<rparr>, b'))))))
      | Body \<Rightarrow> parseRequest ctx b
      | AllDone \<Rightarrow> parseRequest ctx b)"

subsection \<open>The parser on the unread bytes\<close>

definition next_line :: "char list \<Rightarrow> (char list \<times> char list) option" where
  "next_line q =
     (let k = std_search q kCRLF in
      if k = length q then None else Some (take k q, drop (k + 2) q))"

text \<open>The request line as a list: method, target, version.\<close>

definition split_char :: "char \<Rightarrow> string \<Rightarrow> (string \<times> string) option" where
  "split_char c xs =
     (let k = std_find xs c in if k = length xs then None else Some (take k xs, drop (k + 1) xs))"

definition version_of :: "string \<Rightarrow> Version" where
  "version_of v = (if v = ''HTTP/1.0'' then Http10 else if v = ''HTTP/1.1'' then Http11 else Unknown)"

definition set_target :: "string \<Rightarrow> http_request \<Rightarrow> http_request" where
  "set_target t r =
     (let k = std_find t (CHR ''?'');
          r1 = r\<lparr>rq_path := rq_path r @ pct_decode kStart (take k t)\<rparr>
      in if k = length t then r1 else r1\<lparr>rq_query := drop k t\<rparr>)"

definition line_spec :: "string \<Rightarrow> http_request \<Rightarrow> (bool \<times> http_request) res" where
  "line_spec l r =
     (case split_char (CHR '' '') l of
        None \<Rightarrow> Inr (False, r)
      | Some (m, rest) \<Rightarrow>
          if rq_method r \<noteq> Invalid then Inl AssertFail
          else let r1 = r\<lparr>rq_method := method_of m\<rparr> in
            if method_of m = Invalid then Inr (False, r1)
            else case split_char (CHR '' '') rest of
                None \<Rightarrow> Inr (False, r1)
              | Some (t, v) \<Rightarrow>
                  let r2 = set_target t r1 in
                  if version_of v = Unknown then Inr (False, r2)
                  else Inr (True, setVersion (version_of v) r2))"

definition header_spec :: "string \<Rightarrow> http_request \<Rightarrow> http_request option" where
  "header_spec l r =
     map_option (\<lambda>(k, v). r\<lparr>rq_headers := smap_update k (trim_space v) (rq_headers r)\<rparr>)
       (split_char (CHR '':'') l)"

lemma next_line_shorter [simp]: "next_line q = Some (l, r) \<Longrightarrow> length r < length q"
  using std_search_le [of q kCRLF] by (auto simp: next_line_def Let_def split: if_splits)

function headers_spec ::
  "http_request \<Rightarrow> char list \<Rightarrow> bool \<times> http_request \<times> char list" where
  "headers_spec r q =
     (case next_line q of
        None \<Rightarrow> (False, r, q)
      | Some (l, q') \<Rightarrow>
          (case header_spec l r of
             None \<Rightarrow> (True, r, q')
           | Some r' \<Rightarrow> headers_spec r' q'))"
  by pat_completeness auto
termination
  by (relation "measure (\<lambda>(r, q). length q)") auto

declare headers_spec.simps [simp del]

definition headers_result :: "http_context \<Rightarrow> char list \<Rightarrow> bool \<times> http_context \<times> char list" where
  "headers_result ctx q =
     (case headers_spec (ctx_request ctx) q of (done, r, q') \<Rightarrow>
        (True, ctx\<lparr>ctx_request := r, ctx_state := (if done then AllDone else Headers)\<rparr>, q'))"

definition parse_spec ::
  "http_context \<Rightarrow> char list \<Rightarrow> (bool \<times> http_context \<times> char list) res" where
  "parse_spec ctx q =
     (if ctx_state ctx = Headers then Inr (headers_result ctx q)
      else case next_line q of
          None \<Rightarrow> Inr (True, ctx, q)
        | Some (l, q') \<Rightarrow>
            rbind (line_spec l (ctx_request ctx)) (\<lambda>(ok, r).
            if ok then Inr (headers_result (ctx\<lparr>ctx_request := r, ctx_state := Headers\<rparr>) q')
            else Inr (False, ctx\<lparr>ctx_request := r\<rparr>, q)))"

subsection \<open>The request line\<close>

lemma find_char_segment:
  "a \<le> b \<Longrightarrow> b \<le> length mem \<Longrightarrow> find_char mem a b c = Inr (a + std_find (segment a b mem) c)"
  by (simp add: find_char_def mem_read_segment)

lemma version_of_split:
  assumes "length v = 8"
  shows "version_of v = (if take 7 v = ''HTTP/1.''
           then if v ! 7 = CHR ''0'' then Http10 else if v ! 7 = CHR ''1'' then Http11 else Unknown
           else Unknown)"
proof -
  obtain w c where v: "v = w @ [c]" and w: "length w = 7"
    using assms by (cases v rule: rev_cases) auto
  then show ?thesis by (auto simp: version_of_def nth_append)
qed

lemma version_of_length: "length v \<noteq> 8 \<Longrightarrow> version_of v = Unknown"
  by (auto simp: version_of_def)

lemma parse_version_segment:
  assumes "a \<le> b" and "b \<le> length mem"
  shows "parse_version mem a b r = Inr (version_of (segment a b mem) \<noteq> Unknown,
     if version_of (segment a b mem) \<noteq> Unknown then setVersion (version_of (segment a b mem)) r else r)"
proof (cases "b - a = 8")
  case True
  have "b - 1 = a + 7" using True by simp
  have at: "mem_at (b - Suc 0) mem = Inr (segment a b mem ! 7)"
    using True assms segment_nth [of a 7 b mem] \<open>b - 1 = a + 7\<close> by (simp add: mem_at_def)
  have rd: "mem_read a 7 mem = Inr (take 7 (segment a b mem))"
    using True assms mem_read_segment [of a "a + 7" mem] by (simp add: take_segment)
  show ?thesis
    using True assms version_of_split [of "segment a b mem"]
    by (auto simp: parse_version_def at rd)
next
  case False
  then show ?thesis using assms version_of_length [of "segment a b mem"]
    by (simp add: parse_version_def)
qed

lemma hex_digit_delims:
  "hex_digit (CHR '' '') = None" "hex_digit (CHR ''?'') = None"
  by code_simp+

lemma setMethod_segment:
  "a \<le> b \<Longrightarrow> b \<le> length mem \<Longrightarrow> rq_method r = Invalid \<Longrightarrow>
   setMethod mem a b r = Inr (method_of (segment a b mem) \<noteq> Invalid,
     r\<lparr>rq_method := method_of (segment a b mem)\<rparr>)"
  by (simp add: setMethod_def mem_read_segment)

lemma set_target_segment:
  assumes "a \<le> b" and "b < length mem" and "mem ! b = CHR '' ''"
  shows "parse_target mem a b r = Inr (set_target (segment a b mem) r)"
proof -
  let ?t = "segment a b mem" and ?k = "std_find (segment a b mem) (CHR ''?'')"
  have len: "length ?t = b - a" and k: "?k \<le> b - a"
    using assms std_find_le [of ?t "CHR ''?''"] by simp_all
  show ?thesis
  proof (cases "?k = length ?t")
    case True
    with assms len show ?thesis
      by (simp add: parse_target_def find_char_segment setPath_decodes hex_digit_delims set_target_def
          segment_def [symmetric] Let_def)
  next
    case False
    then have "CHR ''?'' \<in> set ?t" by (simp add: std_find_eq_length)
    then have "mem ! (a + ?k) = CHR ''?''"
      using False k len assms segment_nth [of a ?k b mem] std_find_nth [of "CHR ''?''" ?t] by auto
    then have "setPath mem a (a + ?k) r
        = Inr (r\<lparr>rq_path := rq_path r @ pct_decode kStart (take ?k ?t)\<rparr>)"
      using False k len assms
      by (subst setPath_decodes) (auto simp: hex_digit_delims segment_def)
    moreover have "a + ?k \<noteq> b" using False len assms(1) by linarith
    ultimately show ?thesis
      using False k len assms by (simp add: parse_target_def find_char_segment set_target_def Let_def setQuery_def mem_read_segment
          drop_segment)
  qed
qed

text \<open>What \<open>std::find\<close> of a space gives, in terms of \<open>split_char\<close>.\<close>

lemma split_char_segment:
  assumes "a \<le> e" and "e \<le> length mem"
  shows "split_char c (segment a e mem) =
     (if a + std_find (segment a e mem) c = e then None
      else Some (segment a (a + std_find (segment a e mem) c) mem,
                 segment (a + std_find (segment a e mem) c + 1) e mem))"
proof -
  have "std_find (segment a e mem) c \<le> e - a"
    using std_find_le [of "segment a e mem" c] assms by simp
  with assms show ?thesis
    by (auto simp: split_char_def Let_def take_segment drop_segment)
qed

lemma find_char_nth:
  assumes "a \<le> e" and "e \<le> length mem" and "a + std_find (segment a e mem) c \<noteq> e"
  shows "a + std_find (segment a e mem) c < e" and "mem ! (a + std_find (segment a e mem) c) = c"
proof -
  have len: "length (segment a e mem) = e - a" using assms by simp
  show less: "a + std_find (segment a e mem) c < e"
    using std_find_le [of "segment a e mem" c] len assms by linarith
  then have "c \<in> set (segment a e mem)"
    using len std_find_less_iff [of "segment a e mem" c] by linarith
  with less assms show "mem ! (a + std_find (segment a e mem) c) = c"
    using segment_nth [of a "std_find (segment a e mem) c" e mem] std_find_nth by fastforce
qed

lemma parseRequestLine_refines:
  assumes a: "a \<le> e" and e: "e < length mem"
  shows "parseRequestLine mem a e r = line_spec (segment a e mem) r"
proof -
  define sp where "sp = a + std_find (segment a e mem) (CHR '' '')"
  note split1 = split_char_segment [OF a less_imp_le [OF e], of "CHR '' ''", folded sp_def]
  have find1: "find_char mem a e (CHR '' '') = Inr sp"
    using assms by (simp add: find_char_segment sp_def)
  show ?thesis
  proof (cases "sp = e \<or> rq_method r \<noteq> Invalid \<or> method_of (segment a sp mem) = Invalid")
    case True
    have "a \<le> sp" and "sp \<le> e"
      using std_find_le [of "segment a e mem" "CHR '' ''"] assms by (auto simp: sp_def)
    with True assms show ?thesis
      by (auto simp: parseRequestLine_def line_spec_def find1 split1 mem_read_segment
          setMethod_def)
  next
    case False
    then have sp: "sp < e" using find_char_nth [OF a less_imp_le [OF e]] by (auto simp: sp_def)
    define sp2 where "sp2 = sp + 1 + std_find (segment (sp + 1) e mem) (CHR '' '')"
    have a1: "sp + 1 \<le> e" using sp by simp
    note split2 = split_char_segment [OF a1 less_imp_le [OF e], of "CHR '' ''", folded sp2_def]
    have find2: "find_char mem (sp + 1) e (CHR '' '') = Inr sp2"
      using a1 e by (simp add: find_char_segment sp2_def)
    have sm: "setMethod mem a sp r = Inr (True, r\<lparr>rq_method := method_of (segment a sp mem)\<rparr>)"
      using False sp e by (subst setMethod_segment) (auto simp: sp_def)
    show ?thesis
    proof (cases "sp2 = e")
      case True
      with False find1 find2 split1 split2 sm show ?thesis
        by (simp add: parseRequestLine_def line_spec_def Let_def)
    next
      case sp2: False
      then have lt: "sp2 < e" and blank: "mem ! sp2 = CHR '' ''" and ge: "sp + 1 \<le> sp2"
        using find_char_nth [OF a1 less_imp_le [OF e]] by (auto simp: sp2_def)
      show ?thesis
        using False sp2 lt e find1 find2 split1 split2 sm
          set_target_segment [OF ge less_trans [OF lt e] blank]
          parse_version_segment [of "sp2 + 1" e mem]
        by (simp add: parseRequestLine_def line_spec_def Let_def)
    qed
  qed
qed

subsection \<open>Lines of the buffer\<close>

lemma next_line_None: "next_line q = None \<longleftrightarrow> std_search q kCRLF = length q"
  by (simp add: next_line_def Let_def)

lemma next_line_Some:
  assumes "next_line q = Some (l, r)"
  shows "std_search q kCRLF = length l" and "length l + 2 \<le> length q"
    and "l = take (length l) q" and "r = drop (length l + 2) q"
proof -
  let ?k = "std_search q kCRLF"
  from assms have k: "?k \<noteq> length q" and l: "l = take ?k q" and r: "r = drop (?k + 2) q"
    by (auto simp: next_line_def Let_def split: if_splits)
  from k have "?k < length q" using std_search_le [of q kCRLF] by linarith
  then have "?k + 2 \<le> length q"
    using std_search_hit_len [of q kCRLF] by (simp add: kCRLF_def)
  with l show "?k = length l" and "length l + 2 \<le> length q" by simp_all
  with l r show "l = take (length l) q" and "r = drop (length l + 2) q" by simp_all
qed

lemma findCRLF_None: "buffer_ok b \<Longrightarrow> next_line (readable b) = None \<Longrightarrow> findCRLF b = Inr None"
  by (simp add: findCRLF_correct next_line_None Let_def)

lemma findCRLF_Some:
  assumes ok: "buffer_ok b" and nl: "next_line (readable b) = Some (l, q)"
  obtains b' where "findCRLF b = Inr (Some (peek b + length l))"
    and "segment (peek b) (peek b + length l) (buf_data b) = l"
    and "peek b + length l < length (buf_data b)"
    and "retrieveUntil (peek b + length l + 2) b = Inr b'"
    and "buffer_ok b'" and "readable b' = q" and "writerIndex b' \<le> writerIndex b"
proof -
  note line = next_line_Some [OF nl]
  note bounds = readable_bounds [OF ok line(2)]
  from retrieve_correct [OF ok line(2)] obtain b' where b': "retrieve (length l + 2) b = Inr b'"
      "buffer_ok b'" "readable b' = drop (length l + 2) (readable b)"
      "writerIndex b' \<le> writerIndex b" .
  have "findCRLF b = Inr (Some (peek b + length l))"
    using ok line by (simp add: findCRLF_correct)
  moreover have "segment (peek b) (peek b + length l) (buf_data b) = l"
    using line(2) length_readable [OF ok] take_readable [of "length l" b]
    by (subst line(3)) (simp add: segment_def peek_def)
  moreover have "peek b + length l < length (buf_data b)"
    using bounds by (simp add: peek_def)
  moreover have "retrieveUntil (peek b + length l + 2) b = Inr b'"
    using retrieveUntil_correct [OF ok line(2)] b'(1) by (simp add: add.assoc)
  ultimately show ?thesis using that b' line(4) by auto
qed

lemma addHeader_segment:
  assumes "a \<le> e" and "e \<le> length mem" and "a + std_find (segment a e mem) (CHR '':'') \<noteq> e"
  shows "Some (addHeader mem a (a + std_find (segment a e mem) (CHR '':'')) e r)
       = map_option Inr (header_spec (segment a e mem) r)"
proof -
  let ?c = "a + std_find (segment a e mem) (CHR '':'')"
  have c: "a \<le> ?c" "?c + 1 \<le> e" using find_char_nth(1) [OF assms] by simp_all
  then show ?thesis
    using assms mem_read_segment [of a ?c mem] mem_read_segment [of "?c + 1" e mem]
    by (simp add: addHeader_def header_spec_def split_char_segment)
qed

subsection \<open>The loop refines the specification\<close>

lemma parse_headers_line:
  assumes ok: "buffer_ok b" and st: "ctx_state ctx = Headers"
    and nl: "next_line (readable b) = Some (l, q)"
  obtains b' where "buffer_ok b'" and "readable b' = q" and "writerIndex b' \<le> writerIndex b"
    and "parseRequest ctx b =
           (case header_spec l (ctx_request ctx) of
              None \<Rightarrow> Some (Inr (True, ctx\<lparr>ctx_state := AllDone\<rparr>, b'))
            | Some r' \<Rightarrow> parseRequest (ctx\<lparr>ctx_request := r'\<rparr>) b')"
proof -
  from findCRLF_Some [OF ok nl] obtain b' where
    crlf: "findCRLF b = Inr (Some (peek b + length l))" and
    seg: "segment (peek b) (peek b + length l) (buf_data b) = l" and
    inside: "peek b + length l < length (buf_data b)" and
    ru: "retrieveUntil (peek b + length l + 2) b = Inr b'" and
    b': "buffer_ok b'" "readable b' = q" "writerIndex b' \<le> writerIndex b" .
  have find: "find_char (buf_data b) (peek b) (peek b + length l) (CHR '':'')
      = Inr (peek b + std_find l (CHR '':''))"
    using find_char_segment [of "peek b" "peek b + length l" "buf_data b"] inside seg by simp
  have colon: "header_spec l (ctx_request ctx) = None \<longleftrightarrow> std_find l (CHR '':'') = length l"
    by (simp add: header_spec_def split_char_def Let_def)
  have add: "addHeader (buf_data b) (peek b) (peek b + std_find l (CHR '':''))
      (peek b + length l) (ctx_request ctx) = Inr r'"
    if "header_spec l (ctx_request ctx) = Some r'" for r'
    using addHeader_segment [of "peek b" "peek b + length l" "buf_data b" "ctx_request ctx"]
      inside seg colon that by simp
  have "parseRequest ctx b = (case header_spec l (ctx_request ctx) of
              None \<Rightarrow> Some (Inr (True, ctx\<lparr>ctx_state := AllDone\<rparr>, b'))
            | Some r' \<Rightarrow> parseRequest (ctx\<lparr>ctx_request := r'\<rparr>) b')"
    using st crlf find colon add ru
    by (subst parseRequest.simps) (auto split: option.split)
  with b' show ?thesis by (rule that)
qed

lemma parse_headers_refines:
  assumes "buffer_ok b" and "ctx_state ctx = Headers"
    and "headers_result ctx (readable b) = (ok, ctx', q)"
  shows "\<exists>b'. parseRequest ctx b = Some (Inr (ok, ctx', b')) \<and> buffer_ok b' \<and>
           readable b' = q \<and> writerIndex b' \<le> writerIndex b"
  using assms
proof (induction "length (readable b)" arbitrary: b ctx rule: less_induct)
  case less
  note ok = less.prems(1) and st = less.prems(2)
  show ?case
  proof (cases "next_line (readable b)")
    case None
    with less.prems findCRLF_None [OF ok None] show ?thesis
      by (subst parseRequest.simps)
        (auto simp: headers_result_def headers_spec.simps [of _ "readable b"])
  next
    case (Some lq)
    obtain l q1 where nl: "next_line (readable b) = Some (l, q1)" using Some by (cases lq) auto
    from parse_headers_line [OF ok st nl] obtain b' where
      b': "buffer_ok b'" "readable b' = q1" "writerIndex b' \<le> writerIndex b" and
      step: "parseRequest ctx b = (case header_spec l (ctx_request ctx) of
              None \<Rightarrow> Some (Inr (True, ctx\<lparr>ctx_state := AllDone\<rparr>, b'))
            | Some r' \<Rightarrow> parseRequest (ctx\<lparr>ctx_request := r'\<rparr>) b')" .
    show ?thesis
    proof (cases "header_spec l (ctx_request ctx)")
      case None
      with less.prems nl b' step show ?thesis
        by (auto simp: headers_result_def headers_spec.simps [of _ "readable b"])
    next
      case (Some r')
      with less.prems nl b' step less.hyps [of b' "ctx\<lparr>ctx_request := r'\<rparr>"] show ?thesis
        by (auto simp: headers_result_def headers_spec.simps [of _ "readable b"]
            split: prod.splits)
    qed
  qed
qed

lemma parseRequest_refines:
  assumes ok: "buffer_ok b" and st: "ctx_state ctx \<in> {RequestLine, Headers}"
  shows "case parse_spec ctx (readable b) of
           Inl e \<Rightarrow> parseRequest ctx b = Some (Inl e)
         | Inr (res, ctx', q) \<Rightarrow>
             (\<exists>b'. parseRequest ctx b = Some (Inr (res, ctx', b')) \<and> buffer_ok b' \<and>
                readable b' = q \<and> writerIndex b' \<le> writerIndex b)"
proof (cases "ctx_state ctx = Headers")
  case True
  with parse_headers_refines [OF ok True] show ?thesis
    by (auto simp: parse_spec_def split: prod.splits)
next
  case False
  with st have rl: "ctx_state ctx = RequestLine" by simp
  show ?thesis
  proof (cases "next_line (readable b)")
    case None
    with rl ok findCRLF_None [OF ok None] show ?thesis
      by (subst parseRequest.simps) (simp add: parse_spec_def)
  next
    case (Some lq)
    obtain l q1 where nl: "next_line (readable b) = Some (l, q1)" using Some by (cases lq) auto
    from findCRLF_Some [OF ok nl] obtain b' where
      crlf: "findCRLF b = Inr (Some (peek b + length l))" and
      seg: "segment (peek b) (peek b + length l) (buf_data b) = l" and
      inside: "peek b + length l < length (buf_data b)" and
      ru: "retrieveUntil (peek b + length l + 2) b = Inr b'" and
      b': "buffer_ok b'" "readable b' = q1" "writerIndex b' \<le> writerIndex b" .
    have line: "parseRequestLine (buf_data b) (peek b) (peek b + length l) (ctx_request ctx)
        = line_spec l (ctx_request ctx)"
      using parseRequestLine_refines [OF _ inside] seg by simp
    have step: "parseRequest ctx b = (case line_spec l (ctx_request ctx) of
         Inl e \<Rightarrow> Some (Inl e)
       | Inr (okl, r) \<Rightarrow> if okl then parseRequest (ctx\<lparr>ctx_request := r, ctx_state := Headers\<rparr>) b'
           else Some (Inr (False, ctx\<lparr>ctx_request := r\<rparr>, b)))"
      using rl crlf line ru by (subst parseRequest.simps) (simp split: sum.split prod.split)
    show ?thesis
      using nl rl ok b' step
        parse_headers_refines [OF b'(1), of "ctx\<lparr>ctx_request := _, ctx_state := Headers\<rparr>"]
      by (auto simp: parse_spec_def split: sum.split prod.split) (metis le_trans)
  qed
qed

text \<open>Outside the two parsing states the loop never ends.\<close>

lemma parseRequest_returns_states:
  assumes ret: "parseRequest ctx b = Some y"
  shows "ctx_state ctx \<in> {RequestLine, Headers}"
proof (rule parseRequest.raw_induct
    [where P = "\<lambda>ctx b y. ctx_state ctx \<in> {RequestLine, Headers}", OF _ ret])
qed (auto split: HttpRequestParseState.splits, fastforce+)

lemma parseRequest_stuck:
  "ctx_state ctx \<in> {Body, AllDone} \<Longrightarrow> parseRequest ctx b = None"
  using parseRequest_returns_states [of ctx b] by (cases "parseRequest ctx b") auto

subsection \<open>Streaming: the parser does not depend on how the bytes arrive\<close>

lemma next_line_append: "next_line q = Some (l, r) \<Longrightarrow> next_line (q @ x) = Some (l, r @ x)"
proof -
  assume nl: "next_line q = Some (l, r)"
  note line = next_line_Some [OF nl]
  have "std_search (q @ x) kCRLF = length l"
    using line(1,2) std_search_append [of q kCRLF x] by simp
  with line show ?thesis by (simp add: next_line_def Let_def)
qed

lemma headers_spec_append:
  "headers_spec r q = (done, r', q') \<Longrightarrow>
   headers_spec r (q @ x) = (if done then (True, r', q' @ x) else headers_spec r' (q' @ x))"
proof (induction r q rule: headers_spec.induct)
  case (1 r q)
  show ?case
  proof (cases "next_line q")
    case None
    with "1.prems" show ?thesis by (auto simp: headers_spec.simps [of r q])
  next
    case (Some lq)
    obtain l q1 where nl: "next_line q = Some (l, q1)" using Some by (cases lq) auto
    show ?thesis
    proof (cases "header_spec l r")
      case None
      with "1.prems" nl next_line_append [OF nl, of x] show ?thesis
        by (simp add: headers_spec.simps [of r q] headers_spec.simps [of _ "q @ x"])
    next
      case (Some r1)
      with "1.prems" "1.IH" nl next_line_append [OF nl, of x] show ?thesis
        by (simp add: headers_spec.simps [of r q] headers_spec.simps [of _ "q @ x"])
    qed
  qed
qed

lemma headers_result_append:
  assumes "headers_result ctx q = (ok, ctx', q')" and "ctx_state ctx = Headers"
  shows "ok" and "headers_result ctx (q @ x) =
           (if ctx_state ctx' = AllDone then (True, ctx', q' @ x)
            else headers_result ctx' (q' @ x))"
    and "ctx_state ctx' \<in> {Headers, AllDone}"
  using assms headers_spec_append [of "ctx_request ctx" q _ _ _ x]
  by (auto simp: headers_result_def split: prod.splits if_splits)

lemma parse_spec_append:
  assumes "parse_spec ctx q = Inr (ok, ctx', q')" and "ctx_state ctx \<in> {RequestLine, Headers}"
  shows "parse_spec ctx (q @ x) =
           (if ok \<and> ctx_state ctx' \<noteq> AllDone then parse_spec ctx' (q' @ x)
            else Inr (ok, ctx', q' @ x))"
proof (cases "ctx_state ctx = Headers")
  case True
  with assms(1) headers_result_append(1,3) [of ctx q ok ctx' q']
    headers_result_append(2) [of ctx q ok ctx' q' x] show ?thesis
    by (auto simp: parse_spec_def)
next
  case False
  with assms(2) have rl: "ctx_state ctx = RequestLine" by simp
  show ?thesis
  proof (cases "next_line q")
    case None
    with assms rl show ?thesis by (auto simp: parse_spec_def)
  next
    case (Some lq)
    obtain l q1 where nl: "next_line q = Some (l, q1)" using Some by (cases lq) auto
    from assms(1) rl nl obtain okl r where line: "line_spec l (ctx_request ctx) = Inr (okl, r)"
      by (auto simp: parse_spec_def res_simps)
    show ?thesis
    proof (cases okl)
      case True
      let ?ctx = "ctx\<lparr>ctx_request := r, ctx_state := Headers\<rparr>"
      have "headers_result ?ctx q1 = (ok, ctx', q')"
        using assms(1) rl nl line True by (simp add: parse_spec_def)
      with headers_result_append(1,3) [of ?ctx q1 ok ctx' q']
        headers_result_append(2) [of ?ctx q1 ok ctx' q' x] rl nl line True
        next_line_append [OF nl, of x]
      show ?thesis by (auto simp: parse_spec_def)
    next
      case False
      with assms(1) rl nl line next_line_append [OF nl, of x] show ?thesis
        by (auto simp: parse_spec_def)
    qed
  qed
qed

lemma parse_spec_states:
  "parse_spec ctx q = Inr (ok, ctx', q') \<Longrightarrow> ctx_state ctx \<in> {RequestLine, Headers} \<Longrightarrow>
   ctx_state ctx' \<in> {RequestLine, Headers, AllDone}"
  using headers_result_append(3)
  by (auto simp: parse_spec_def res_simps split: if_splits option.splits) fastforce+

subsection \<open>Properties\<close>

text \<open>The outcome of a run of the parser up to the layout of the buffer.\<close>

definition outcome ::
  "(bool \<times> http_context \<times> buffer) res option \<Rightarrow> (bool \<times> http_context \<times> char list) res option" where
  "outcome = map_option (map_sum id (\<lambda>(ok, ctx, b). (ok, ctx, readable b)))"

lemma outcome_parseRequest:
  "buffer_ok b \<Longrightarrow> ctx_state ctx \<in> {RequestLine, Headers} \<Longrightarrow>
   outcome (parseRequest ctx b) = Some (parse_spec ctx (readable b))"
  using parseRequest_refines [of b ctx] by (auto simp: outcome_def split: sum.splits)

lemma line_spec_total:
  "rq_method r = Invalid \<Longrightarrow> \<exists>ok r'. line_spec l r = Inr (ok, r')"
  by (auto simp: line_spec_def Let_def split: option.split)

lemma parse_spec_total:
  "ctx_state ctx = Headers \<or> rq_method (ctx_request ctx) = Invalid \<Longrightarrow>
   \<exists>ok ctx' q'. parse_spec ctx q = Inr (ok, ctx', q')"
proof -
  assume start: "ctx_state ctx = Headers \<or> rq_method (ctx_request ctx) = Invalid"
  have "parse_spec ctx q \<noteq> Inl e" for e
    using start line_spec_total [of "ctx_request ctx"]
    by (auto simp: parse_spec_def res_simps split: option.split if_splits) (metis Inl_Inr_False)
  then show ?thesis by (cases "parse_spec ctx q") auto
qed

text \<open>A request line that was refused after its method was read is refused for ever.\<close>

lemma line_spec_refused:
  assumes "line_spec l r = Inr (False, r')" and "rq_method r' \<noteq> Invalid"
    and "rq_method r = Invalid"
  shows "line_spec l r' = Inl AssertFail"
  using assms by (auto simp: line_spec_def Let_def split: option.splits if_splits)

lemma parse_spec_refused:
  assumes "parse_spec ctx q = Inr (False, ctx', q')" and "ctx_state ctx = RequestLine"
    and "rq_method (ctx_request ctx) = Invalid" and "rq_method (ctx_request ctx') \<noteq> Invalid"
  shows "parse_spec ctx' (q' @ x) = Inl AssertFail" and "ctx_state ctx' = RequestLine"
proof -
  from assms(1,2) obtain l r where nl: "next_line q = Some (l, r)"
    and line: "line_spec l (ctx_request ctx) = Inr (False, ctx_request ctx')"
    and ctx': "ctx_state ctx' = RequestLine" and "q' = q"
    using headers_result_append(1)
    by (auto simp: parse_spec_def res_simps split: option.splits if_splits) fastforce+
  with line_spec_refused [OF line assms(4,3)] next_line_append [OF nl, of x]
  show "parse_spec ctx' (q' @ x) = Inl AssertFail" and "ctx_state ctx' = RequestLine"
    by (auto simp: parse_spec_def)
qed

text \<open>C22. The parser ends on every input, without a failing assert and without an access
  outside the buffer, whenever it starts on the request line of a fresh request or in the
  headers, and its result (accepted or not, the state and the request reached, the bytes
  left unread) is that of the specification \<open>parse_spec\<close> on the unread bytes.\<close>

theorem parseRequest_total:
  assumes "buffer_ok b"
    and "ctx_state ctx = Headers \<or> ctx_state ctx = RequestLine \<and> rq_method (ctx_request ctx) = Invalid"
  shows "\<exists>ok ctx' b'. parseRequest ctx b = Some (Inr (ok, ctx', b')) \<and> buffer_ok b' \<and>
           parse_spec ctx (readable b) = Inr (ok, ctx', readable b')"
proof -
  obtain ok ctx' q' where spec: "parse_spec ctx (readable b) = Inr (ok, ctx', q')"
    using parse_spec_total [of ctx] assms(2) by blast
  have "ctx_state ctx \<in> {RequestLine, Headers}" using assms(2) by auto
  from parseRequest_refines [OF assms(1) this] spec show ?thesis by auto
qed

theorem parseRequest_total_witness:
  "\<exists>ok ctx' b'. parseRequest new_context (new_buffer 0) = Some (Inr (ok, ctx', b')) \<and>
     buffer_ok b' \<and> parse_spec new_context (readable (new_buffer 0)) = Inr (ok, ctx', readable b')"
  by (rule parseRequest_total) (simp_all add: new_buffer_ok new_context_def new_request_def)

text \<open>C23. The parser does not depend on how the bytes arrive: parsing what is there, waiting
  for more bytes and parsing again has the same outcome (acceptance, state, request, unread
  bytes) as parsing once after all the bytes have arrived, as long as the first run
  neither refused the request nor completed it.\<close>

theorem parseRequest_streaming:
  assumes "buffer_ok b" and "ctx_state ctx \<in> {RequestLine, Headers}"
    and "parseRequest ctx b = Some (Inr (True, ctx', b'))" and "\<not> parseDone ctx'"
    and "append_buf xs b' = Inr b1" and "append_buf xs b = Inr b2" and "length xs \<le> kMaxSize"
  shows "outcome (parseRequest ctx' b1) = outcome (parseRequest ctx b2)"
proof -
  have spec: "parse_spec ctx (readable b) = Inr (True, ctx', readable b')" and ok': "buffer_ok b'"
    using parseRequest_refines [OF assms(1,2)] assms(3) by (auto split: sum.splits prod.splits)
  have st': "ctx_state ctx' \<in> {RequestLine, Headers}"
    using parse_spec_states [OF spec assms(2)] assms(4) by (auto simp: parseDone_def)
  have b1: "buffer_ok b1" "readable b1 = readable b' @ xs"
    using append_buf_cases [OF ok' assms(7)] assms(5) by auto
  have b2: "buffer_ok b2" "readable b2 = readable b @ xs"
    using append_buf_cases [OF assms(1,7)] assms(6) by auto
  have "parse_spec ctx (readable b @ xs) = parse_spec ctx' (readable b' @ xs)"
    using parse_spec_append [OF spec assms(2), of xs] assms(4) by (simp add: parseDone_def)
  then show ?thesis
    using outcome_parseRequest [OF b1(1) st'] outcome_parseRequest [OF b2(1) assms(2)] b1 b2
    by simp
qed

definition half_request :: string where
  "half_request = ''GET / HTTP/1.1'' @ kCRLF @ ''Ho''"

theorem parseRequest_streaming_witness:
  "\<exists>b ctx' b' b1 b2. append_buf half_request (new_buffer 0) = Inr b \<and>
     parseRequest new_context b = Some (Inr (True, ctx', b')) \<and> ctx_state ctx' = Headers \<and>
     append_buf ''st: h'' b' = Inr b1 \<and> append_buf ''st: h'' b = Inr b2 \<and>
     outcome (parseRequest ctx' b1) = outcome (parseRequest new_context b2)"
proof -
  let ?x = "''st: h''"
  have "length half_request + length ?x + kCheapPrepend \<le> kMaxSize"
    by (simp add: kCheapPrepend_def kMaxSize_def half_request_def kCRLF_def)
  then obtain b where b: "append_buf half_request (new_buffer 0) = Inr b"
      "buffer_ok b" "readable b = half_request" "has_room (length ?x) b"
    by (rule append_new)
  have "case parse_spec new_context half_request of
      Inr (ok, ctx', q) \<Rightarrow> ok \<and> ctx_state ctx' = Headers | Inl e \<Rightarrow> False"
    by code_simp
  then obtain ctx' b' where run: "parseRequest new_context b = Some (Inr (True, ctx', b'))"
      "buffer_ok b'" "ctx_state ctx' = Headers" "writerIndex b' \<le> writerIndex b"
    using parseRequest_refines [OF b(2), of new_context] b(3)
    by (auto simp: new_context_def split: sum.splits)
  have "has_room (length ?x) b'" using b(4) run(4) by (simp add: has_room_def)
  with run(2) obtain b1 where b1: "append_buf ?x b' = Inr b1" by (rule append_buf_correct)
  from b(2,4) obtain b2 where b2: "append_buf ?x b = Inr b2" by (rule append_buf_correct)
  have "outcome (parseRequest ctx' b1) = outcome (parseRequest new_context b2)"
    using run(3) by (intro parseRequest_streaming [OF b(2) _ run(1) _ b1 b2])
      (simp_all add: new_context_def parseDone_def kMaxSize_def)
  with b(1) run b1 b2 show ?thesis by blast
qed

text \<open>In the states \<open>Body\<close> and \<open>AllDone\<close> the loop of \<open>parseRequest\<close> never ends: the
  \<open>switch\<close> has nothing to do there and \<open>hasMore\<close> stays true, so a caller has to reset the
  context after every completed request.\<close>

lemma parseRequest_diverges:
  "parseRequest (ctx\<lparr>ctx_state := Body\<rparr>) b = None \<and> parseRequest (ctx\<lparr>ctx_state := AllDone\<rparr>) b = None"
  by (simp add: parseRequest_stuck)

text \<open>C38. After a request line has been refused (a bad version, a missing target) although
  its method is known, any further call of \<open>parseRequest\<close> on the same context fails the
  assert of \<open>setMethod\<close>, whatever bytes follow: the bad line is still in the buffer and the
  method is still set.\<close>

theorem parseRequest_refused_asserts:
  assumes "buffer_ok b" and "ctx_state ctx = RequestLine" and "rq_method (ctx_request ctx) = Invalid"
    and "parseRequest ctx b = Some (Inr (False, ctx', b'))"
    and "rq_method (ctx_request ctx') \<noteq> Invalid"
    and "append_buf xs b' = Inr b1" and "length xs \<le> kMaxSize"
  shows "parseRequest ctx' b1 = Some (Inl AssertFail)"
proof -
  have spec: "parse_spec ctx (readable b) = Inr (False, ctx', readable b')" and ok': "buffer_ok b'"
    using parseRequest_refines [OF assms(1), of ctx] assms(2,4)
    by (auto split: sum.splits prod.splits)
  have b1: "buffer_ok b1" "readable b1 = readable b' @ xs"
    using append_buf_cases [OF ok' assms(7)] assms(6) by auto
  note stuck = parse_spec_refused [OF spec assms(2,3,5)]
  have "parse_spec ctx' (readable b1) = Inl AssertFail" using stuck(1) b1(2) by simp
  with parseRequest_refines [OF b1(1), of ctx'] stuck(2) show ?thesis by simp
qed

definition bad_version_line :: string where
  "bad_version_line = ''GET / HTTP/2.0'' @ kCRLF"

theorem parseRequest_refused_asserts_witness:
  "\<exists>b ctx' b' b1. append_buf bad_version_line (new_buffer 0) = Inr b \<and>
      parseRequest new_context b = Some (Inr (False, ctx', b')) \<and>
      append_buf ''x'' b' = Inr b1 \<and> parseRequest ctx' b1 = Some (Inl AssertFail)"
proof -
  have "length bad_version_line + 1 + kCheapPrepend \<le> kMaxSize"
    by (simp add: kCheapPrepend_def kMaxSize_def bad_version_line_def kCRLF_def)
  then obtain b where b: "append_buf bad_version_line (new_buffer 0) = Inr b"
      "buffer_ok b" "readable b = bad_version_line" "has_room 1 b"
    by (rule append_new)
  have "case parse_spec new_context bad_version_line of
      Inr (ok, ctx', q) \<Rightarrow> \<not> ok \<and> rq_method (ctx_request ctx') = Get | Inl e \<Rightarrow> False"
    by code_simp
  then obtain ctx' b' where run: "parseRequest new_context b = Some (Inr (False, ctx', b'))"
      "buffer_ok b'" "rq_method (ctx_request ctx') = Get" "writerIndex b' \<le> writerIndex b"
    using parseRequest_refines [OF b(2), of new_context] b(3)
    by (auto simp: new_context_def split: sum.splits)
  have "has_room (length ''x'') b'" using b(4) run(4) by (simp add: has_room_def)
  with run(2) obtain b1 where b1: "append_buf ''x'' b' = Inr b1" by (rule append_buf_correct)
  have "parseRequest ctx' b1 = Some (Inl AssertFail)"
    using run(1,3) b1 by (intro parseRequest_refused_asserts [OF b(2) _ _ run(1) _ b1])
      (simp_all add: new_context_def new_request_def kMaxSize_def)
  with b run b1 show ?thesis by blast
qed

end
