(* ===== verification/HttpPrint.thy ===== *)
theory HttpPrint
  imports HttpContext
begin

text \<open>
  Requests in the wire format a client writes: request line, header lines, empty line.
  The lemmas show that the parser of \<open>HttpContext\<close> reads such bytes back to the fields they
  were printed from, and leaves whatever follows the request unread.
\<close>

definition version_string :: "Version \<Rightarrow> string" where
  "version_string v =
     (case v of Http10 \<Rightarrow> ''HTTP/1.0'' | Http11 \<Rightarrow> ''HTTP/1.1'' | Unknown \<Rightarrow> ''HTTP/?'')"

definition method_name :: "Method \<Rightarrow> string" where
  "method_name m = methodString (new_request\<lparr>rq_method := m\<rparr>)"

definition print_line :: "(char \<Rightarrow> bool) \<Rightarrow> Method \<Rightarrow> string \<Rightarrow> string \<Rightarrow> Version \<Rightarrow> string" where
  "print_line safe m path query v =
     method_name m @ '' '' @ pct_encode safe path @ query @ '' '' @ version_string v"

definition print_headers :: "(string \<times> string) list \<Rightarrow> string" where
  "print_headers hs = concat (map (\<lambda>(k, v). k @ '': '' @ v @ kCRLF) hs)"

definition print_request ::
  "(char \<Rightarrow> bool) \<Rightarrow> Method \<Rightarrow> string \<Rightarrow> string \<Rightarrow> Version \<Rightarrow> (string \<times> string) list \<Rightarrow> string" where
  "print_request safe m path query v hs =
     print_line safe m path query v @ kCRLF @ print_headers hs @ kCRLF"

text \<open>What may appear unescaped in a path; a query; a header field.\<close>

definition url_safe :: "(char \<Rightarrow> bool) \<Rightarrow> bool" where
  "url_safe safe \<longleftrightarrow>
     \<not> safe (CHR ''%'') \<and> \<not> safe (CHR '' '') \<and> \<not> safe (CHR ''?'') \<and> \<not> safe (CHR 0x0D)"

definition query_ok :: "string \<Rightarrow> bool" where
  "query_ok q \<longleftrightarrow> (q = [] \<or> hd q = CHR ''?'') \<and> CHR '' '' \<notin> set q \<and> CHR 0x0D \<notin> set q"

definition trimmed :: "string \<Rightarrow> bool" where
  "trimmed v \<longleftrightarrow> v = [] \<or> (\<not> isspace (hd v) \<and> \<not> isspace (last v))"

definition header_ok :: "string \<times> string \<Rightarrow> bool" where
  "header_ok kv \<longleftrightarrow> CHR '':'' \<notin> set (fst kv) \<and> CHR 0x0D \<notin> set (fst kv) \<and>
     CHR 0x0D \<notin> set (snd kv) \<and> trimmed (snd kv)"

definition parsed_request ::
  "Method \<Rightarrow> string \<Rightarrow> string \<Rightarrow> Version \<Rightarrow> (string \<times> string) list \<Rightarrow> http_request" where
  "parsed_request m path query v hs =
     \<lparr> rq_method = m, rq_version = v, rq_path = path, rq_query = query,
       rq_headers = fold (\<lambda>(k, w). smap_update k w) hs [] \<rparr>"

subsection \<open>Pieces\<close>

lemma std_search_crlf: "CHR 0x0D \<notin> set l \<Longrightarrow> std_search (l @ kCRLF @ r) kCRLF = length l"
  by (induction l) (auto simp: kCRLF_def)

lemma next_line_crlf: "CHR 0x0D \<notin> set l \<Longrightarrow> next_line (l @ kCRLF @ r) = Some (l, r)"
  by (simp add: next_line_def Let_def std_search_crlf) (simp add: kCRLF_def)

lemma split_char_append: "c \<notin> set a \<Longrightarrow> split_char c (a @ c # b) = Some (a, b)"
  by (simp add: split_char_def std_find_append)

lemma trim_space_trimmed:
  assumes "trimmed v"
  shows "trim_space (CHR '' '' # v) = v"
proof -
  have blank: "isspace (CHR '' '')" by code_simp
  show ?thesis
  proof (cases "v = []")
    case False
    then obtain w c where v: "v = w @ [c]" by (cases v rule: rev_cases) auto
    from False assms have "dropWhile isspace v = v" by (cases v) (auto simp: trimmed_def)
    with assms blank show ?thesis by (simp add: trim_space_def trimmed_def v)
  qed (simp add: trim_space_def blank)
qed

lemma method_name_props:
  assumes "m \<noteq> Invalid"
  shows "method_of (method_name m) = m" and "CHR '' '' \<notin> set (method_name m)"
    and "CHR 0x0D \<notin> set (method_name m)"
  using assms by (cases m; simp add: method_name_def methodString_def method_of_def)+

lemma version_string_props:
  assumes "v \<noteq> Unknown"
  shows "version_of (version_string v) = v" and "CHR 0x0D \<notin> set (version_string v)"
  using assms by (cases v; simp add: version_string_def version_of_def)+

lemma hex_char_delims:
  assumes "n < 16"
  shows "hex_char n \<notin> {CHR '' '', CHR ''?'', CHR 0x0D}"
proof -
  have "hex_digit (CHR '' '') = None" "hex_digit (CHR ''?'') = None" "hex_digit (CHR 0x0D) = None"
    by (simp_all add: hex_digit_def isdigit_def char_int_def)
  with hex_digit_hex_char [OF assms] show ?thesis by auto
qed

lemma pct_encode_delims:
  assumes "url_safe safe" and "d \<in> {CHR '' '', CHR ''?'', CHR 0x0D}"
  shows "d \<notin> set (pct_encode safe s)"
proof -
  have "of_char c div 16 < (16::nat)" "of_char c mod 16 < (16::nat)" for c
    by (rule less_mult_imp_div_less, simp_all)
  then have "hex_char (of_char c div 16) \<noteq> d" "hex_char (of_char c mod 16) \<noteq> d" for c
    using hex_char_delims assms(2) by metis+
  moreover have "d \<noteq> CHR ''%''" and "\<not> safe d"
    using assms by (auto simp: url_safe_def)
  ultimately show ?thesis by (force simp: pct_encode_def split: if_splits)
qed

lemma set_target_printed:
  assumes "url_safe safe" and "query_ok query"
  shows "set_target (pct_encode safe path @ query) r
       = r\<lparr>rq_path := rq_path r @ path, rq_query := (if query = [] then rq_query r else query)\<rparr>"
proof -
  let ?p = "pct_encode safe path"
  have no: "CHR ''?'' \<notin> set ?p" using pct_encode_delims [OF assms(1)] by simp
  have dec: "pct_decode kStart ?p = path"
    using assms(1) by (intro pct_decode_encode) (simp add: url_safe_def)
  show ?thesis
  proof (cases query)
    case Nil
    have "std_find ?p (CHR ''?'') = length ?p" using no by (simp add: std_find_eq_length)
    with Nil dec show ?thesis by (simp add: set_target_def)
  next
    case (Cons c cs)
    with assms(2) have "query = CHR ''?'' # cs" by (simp add: query_ok_def)
    moreover from this no have "std_find (?p @ query) (CHR ''?'') = length ?p"
      by (simp add: std_find_append)
    ultimately show ?thesis using dec by (simp add: set_target_def)
  qed
qed

subsection \<open>Reading back\<close>

lemma line_spec_printed:
  assumes "m \<noteq> Invalid" and "v \<noteq> Unknown" and "url_safe safe" and "query_ok query"
  shows "line_spec (print_line safe m path query v) new_request =
           Inr (True, parsed_request m path query v [])"
proof -
  have "CHR '' '' \<notin> set (pct_encode safe path @ query)"
    using pct_encode_delims [OF assms(3)] assms(4) by (simp add: query_ok_def)
  from split_char_append [OF this]
  have t: "split_char (CHR '' '') (pct_encode safe path @ query @ CHR '' '' # version_string v)
      = Some (pct_encode safe path @ query, version_string v)" by simp
  have m: "split_char (CHR '' '') (print_line safe m path query v)
      = Some (method_name m, pct_encode safe path @ query @ CHR '' '' # version_string v)"
    using split_char_append [OF method_name_props(2) [OF assms(1)]] by (simp add: print_line_def)
  show ?thesis
    using assms by (simp add: line_spec_def m t Let_def method_name_props version_string_props
        set_target_printed new_request_def setVersion_def parsed_request_def)
qed

lemma print_line_no_cr:
  assumes "m \<noteq> Invalid" and "v \<noteq> Unknown" and "url_safe safe" and "query_ok query"
  shows "CHR 0x0D \<notin> set (print_line safe m path query v)"
  using assms pct_encode_delims [OF assms(3)]
  by (simp add: print_line_def method_name_props version_string_props query_ok_def)

lemma headers_spec_printed:
  "\<forall>kv \<in> set hs. header_ok kv \<Longrightarrow>
   headers_spec r (print_headers hs @ kCRLF @ rest) =
     (True, r\<lparr>rq_headers := fold (\<lambda>(k, w). smap_update k w) hs (rq_headers r)\<rparr>, rest)"
proof (induction hs arbitrary: r)
  case Nil
  have "next_line (kCRLF @ rest) = Some ([], rest)" using next_line_crlf [of "[]"] by simp
  moreover have "header_spec [] r = None" by (simp add: header_spec_def split_char_def)
  ultimately show ?case by (subst headers_spec.simps) (simp add: print_headers_def)
next
  case (Cons kv hs)
  obtain k v where kv: "kv = (k, v)" by (cases kv)
  let ?l = "k @ '': '' @ v" and ?q = "print_headers hs @ kCRLF @ rest"
  have ok: "CHR '':'' \<notin> set k" "CHR 0x0D \<notin> set ?l" "trimmed v"
    using Cons.prems by (auto simp: kv header_ok_def)
  have nl: "next_line (?l @ kCRLF @ ?q) = Some (?l, ?q)"
    by (rule next_line_crlf [OF ok(2)])
  have hd: "header_spec ?l r = Some (r\<lparr>rq_headers := smap_update k v (rq_headers r)\<rparr>)"
    using split_char_append [OF ok(1), of "CHR '' '' # v"]
    by (simp add: header_spec_def trim_space_trimmed [OF ok(3)])
  have "print_headers (kv # hs) @ kCRLF @ rest = ?l @ kCRLF @ ?q"
    by (simp add: print_headers_def kv)
  then have "headers_spec r (print_headers (kv # hs) @ kCRLF @ rest)
      = headers_spec (r\<lparr>rq_headers := smap_update k v (rq_headers r)\<rparr>) ?q"
    by (simp only: headers_spec.simps [of r] nl hd option.case prod.case)
  with Cons show ?case by (simp add: kv)
qed

lemma parse_spec_printed:
  assumes "m \<noteq> Invalid" and "v \<noteq> Unknown" and "url_safe safe" and "query_ok query"
    and "\<forall>kv \<in> set hs. header_ok kv"
  shows "parse_spec new_context (print_request safe m path query v hs @ rest) =
     Inr (True, \<lparr>ctx_state = AllDone, ctx_request = parsed_request m path query v hs\<rparr>, rest)"
proof -
  let ?l = "print_line safe m path query v" and ?q = "print_headers hs @ kCRLF @ rest"
  have "next_line (?l @ kCRLF @ ?q) = Some (?l, ?q)"
    using print_line_no_cr [OF assms(1-4)] by (rule next_line_crlf)
  then show ?thesis
    using assms headers_spec_printed [OF assms(5), of _ rest]
    by (simp add: parse_spec_def new_context_def print_request_def line_spec_printed
        headers_result_def parsed_request_def)
qed

subsection \<open>Properties\<close>

text \<open>C24. The parser reads requests back: the bytes of a request with any method, path
  (percent-encoded by any encoder that escapes the percent sign, blanks, question marks and
  carriage returns), query, version and header fields are parsed in one run to exactly
  these fields, later fields of the same name replacing earlier ones, and the bytes behind
  the request stay unread.\<close>

theorem request_roundtrip:
  assumes "m \<noteq> Invalid" and "v \<noteq> Unknown" and "url_safe safe" and "query_ok query"
    and "\<forall>kv \<in> set hs. header_ok kv"
    and "buffer_ok b" and "readable b = print_request safe m path query v hs @ rest"
  shows "\<exists>b'. parseRequest new_context b = Some (Inr (True,
             \<lparr>ctx_state = AllDone, ctx_request = parsed_request m path query v hs\<rparr>, b')) \<and>
           buffer_ok b' \<and> readable b' = rest"
  using parseRequest_refines [OF assms(6), of new_context] parse_spec_printed [OF assms(1-5)]
  by (auto simp: assms(7) new_context_def)

theorem request_roundtrip_witness:
  "\<exists>b b'. append_buf (print_request (\<lambda>c. c = CHR ''/'') Get ''/a b'' ''?q'' Http11 [(''H'', ''v'')] @ ''GET'')
         (new_buffer 0) = Inr b \<and>
      parseRequest new_context b = Some (Inr (True,
        \<lparr>ctx_state = AllDone, ctx_request = parsed_request Get ''/a b'' ''?q'' Http11 [(''H'', ''v'')]\<rparr>, b')) \<and>
      readable b' = ''GET''"
proof -
  let ?q = "print_request (\<lambda>c. c = CHR ''/'') Get ''/a b'' ''?q'' Http11 [(''H'', ''v'')] @ ''GET''"
  have "length ?q < 100" by code_simp
  then have "length ?q + 0 + kCheapPrepend \<le> kMaxSize"
    by (simp add: kCheapPrepend_def kMaxSize_def)
  then obtain b where b: "append_buf ?q (new_buffer 0) = Inr b" "buffer_ok b" "readable b = ?q"
    by (rule append_new)
  have "header_ok (''H'', ''v'')" and "query_ok ''?q''" by code_simp+
  with request_roundtrip [OF _ _ _ _ _ b(2,3)] b(1) show ?thesis by (auto simp: url_safe_def)
qed

text \<open>A header field that was added is found, under its own name only: after the
  parser's header fields have been stored, \<open>getHeader\<close> gives the value of the last field
  of that name, and the empty string for a name that does not occur.\<close>

lemma getHeader_parsed:
  "getHeader k (parsed_request m path query v hs)
     = (case map_of (rev hs) k of Some w \<Rightarrow> w | None \<Rightarrow> [])"
  using smap.upd_all_law [of "[]" hs] by (simp add: getHeader_def parsed_request_def)

end
