(* ===== verification/Format.thy ===== *)
theory Format
  imports Prelude
begin

text \<open>
  The numeric part of \<open>snprintf\<close> that the sources use: decimal numbers and the cut at the end
  of the target array.
\<close>

text \<open>Decimal digits, and \<open>%d\<close> / \<open>%zd\<close>: a \<open>size_t\<close> printed as a signed number.\<close>

fun dec_nat :: "nat \<Rightarrow> string" where
  "dec_nat n = (if n < 10 then [char_of (48 + n)]
                else dec_nat (n div 10) @ [char_of (48 + n mod 10)])"

declare dec_nat.simps [simp del]

definition fmt_int :: "int \<Rightarrow> string" where
  "fmt_int i = (if i < 0 then CHR ''-'' # dec_nat (nat (- i)) else dec_nat (nat i))"

definition fmt_size :: "nat \<Rightarrow> string" where
  "fmt_size n = fmt_int (if n < 2 ^ 63 then int n else int n - 2 ^ 64)"

definition snprintf :: "nat \<Rightarrow> string \<Rightarrow> string" where
  "snprintf n s = take (n - 1) s"

subsection \<open>Lengths\<close>

lemma dec_nat_length: "n < 10 ^ k \<Longrightarrow> 0 < k \<Longrightarrow> length (dec_nat n) \<le> k"
proof (induction k arbitrary: n)
  case (Suc k)
  show ?case
  proof (cases "n < 10")
    case True
    then show ?thesis by (subst dec_nat.simps) simp
  next
    case False
    then have "0 < k" using Suc.prems(1) by (cases k) auto
    moreover have "n div 10 < 10 ^ k"
      using Suc.prems(1) by (intro less_mult_imp_div_less) (simp add: mult.commute)
    ultimately show ?thesis using False Suc.IH [of "n div 10"] by (subst dec_nat.simps) simp
  qed
qed simp

lemma dec_nat_length_ge: "10 ^ k \<le> n \<Longrightarrow> k < length (dec_nat n)"
proof (induction k arbitrary: n)
  case 0
  then show ?case by (subst dec_nat.simps) simp
next
  case (Suc k)
  then have "10 ^ k \<le> n div 10" by (simp add: less_eq_div_iff_mult_less_eq mult.commute)
  moreover have "\<not> n < 10"
    using Suc.prems one_le_power [of "10::nat" k] unfolding power_Suc by linarith
  ultimately show ?case using Suc.IH [of "n div 10"] by (subst dec_nat.simps) simp
qed

lemma fmt_size_small: "n < 2 ^ 63 \<Longrightarrow> fmt_size n = dec_nat n"
  by (simp add: fmt_size_def fmt_int_def)

subsection \<open>Reading back\<close>

definition undec :: "string \<Rightarrow> nat" where
  "undec s = foldl (\<lambda>n c. 10 * n + (of_char c - 48)) 0 s"

lemma of_char_digit: "k < 10 \<Longrightarrow> of_char (char_of (48 + k) :: char) = 48 + (k::nat)"
  by (simp add: of_char_of)

lemma undec_dec_nat: "undec (dec_nat n) = n"
proof (induction n rule: dec_nat.induct)
  case (1 n)
  show ?case
  proof (cases "n < 10")
    case True
    then show ?thesis by (subst dec_nat.simps) (simp add: undec_def of_char_digit)
  next
    case False
    with 1 show ?thesis
      by (subst dec_nat.simps) (simp add: undec_def of_char_digit del: of_char_of)
  qed
qed

lemma dec_nat_inj: "dec_nat a = dec_nat b \<Longrightarrow> a = b"
  by (metis undec_dec_nat)

lemma dec_nat_digits: "c \<in> set (dec_nat n) \<Longrightarrow> of_char c \<in> {48..<58::nat}"
proof (induction n rule: dec_nat.induct)
  case (1 n)
  show ?case
  proof (cases "n < 10")
    case True
    with 1 show ?thesis by (subst (asm) (2) dec_nat.simps) (auto simp: of_char_digit simp del: of_char_of)
  next
    case False
    with 1 show ?thesis
      by (subst (asm) (2) dec_nat.simps) (auto simp: of_char_digit simp del: of_char_of)
  qed
qed

end
