(* ===== verification/HttpResponse.thy ===== *)
theory HttpResponse
  imports Buffer Containers Format
begin

text \<open>
  \<open>yvent/http/HttpResponse.h\<close> and \<open>HttpResponse.cpp\<close>: the response object and its
  serialisation.  \<open>appendToBuffer\<close> makes the same sequence of \<open>append\<close> calls as the code; the
  two \<open>snprintf\<close> calls into the 32-byte array cut their text after 31 characters.
\<close>

datatype HttpStatusCode =
  kUnknown | k200Ok | k301MovedPermanently | k400BadRequest | k404NotFound

definition status_value :: "HttpStatusCode \<Rightarrow> nat" where
  "status_value c =
     (case c of kUnknown \<Rightarrow> 0 | k200Ok \<Rightarrow> 200 | k301MovedPermanently \<Rightarrow> 301
      | k400BadRequest \<Rightarrow> 400 | k404NotFound \<Rightarrow> 404)"

record http_response =
  rs_statusCode :: HttpStatusCode
  rs_headers :: "(string \<times> string) list"
  rs_statusMessage :: string
  rs_closeConnection :: bool
  rs_body :: string
  rs_bodyLen :: nat

definition new_response :: "bool \<Rightarrow> http_response" where
  "new_response close =
     \<lparr> rs_statusCode = kUnknown, rs_headers = [], rs_statusMessage = [],
       rs_closeConnection = close, rs_body = [], rs_bodyLen = 0 \<rparr>"

definition setStatusCode :: "HttpStatusCode \<Rightarrow> http_response \<Rightarrow> http_response" where
  "setStatusCode code r = r\<lparr>rs_statusCode := code\<rparr>"

definition setStatusMessage :: "string \<Rightarrow> http_response \<Rightarrow> http_response" where
  "setStatusMessage message r = r\<lparr>rs_statusMessage := message\<rparr>"

definition setCloseConnection :: "bool \<Rightarrow> http_response \<Rightarrow> http_response" where
  "setCloseConnection on r = r\<lparr>rs_closeConnection := on\<rparr>"

definition response_addHeader :: "string \<Rightarrow> string \<Rightarrow> http_response \<Rightarrow> http_response" where
  "response_addHeader key v r = r\<lparr>rs_headers := smap_update key v (rs_headers r)\<rparr>"

definition setContentType :: "string \<Rightarrow> http_response \<Rightarrow> http_response" where
  "setContentType contentType r = response_addHeader ''Content-Type'' contentType r"

definition setBody :: "string \<Rightarrow> http_response \<Rightarrow> http_response" where
  "setBody body r = r\<lparr>rs_body := body\<rparr>"

definition appendBody :: "string \<Rightarrow> http_response \<Rightarrow> http_response" where
  "appendBody body r = r\<lparr>rs_body := rs_body r @ body\<rparr>"

definition setBodyLen :: "nat \<Rightarrow> http_response \<Rightarrow> http_response" where
  "setBodyLen bodyLen r = r\<lparr>rs_bodyLen := bodyLen\<rparr>"

definition status_line :: "http_response \<Rightarrow> string" where
  "status_line r =
     snprintf 32 (''HTTP/1.1 '' @ fmt_int (int (status_value (rs_statusCode r))) @ '' '')"

definition content_length :: "http_response \<Rightarrow> nat" where
  "content_length r = (if rs_bodyLen r \<noteq> 0 then rs_bodyLen r else length (rs_body r))"

definition content_length_line :: "nat \<Rightarrow> string" where
  "content_length_line n = snprintf 32 (''Content-Length: '' @ fmt_size n @ kCRLF)"

text \<open>The arguments of the successive \<open>output->append\<close> calls.\<close>

definition response_pieces :: "http_response \<Rightarrow> string list" where
  "response_pieces r =
     [status_line r, rs_statusMessage r, kCRLF]
     @ (if rs_closeConnection r then [''Connection: close'' @ kCRLF]
        else [content_length_line (content_length r), ''Connection: Keep-Alive'' @ kCRLF])
     @ concat (map (\<lambda>(k, v). [k, '': '', v, kCRLF]) (rs_headers r))
     @ [kCRLF, rs_body r]"

fun append_all :: "string list \<Rightarrow> buffer \<Rightarrow> buffer res" where
  "append_all [] b = Inr b"
| "append_all (s # ss) b = rbind (append_buf s b) (append_all ss)"

definition appendToBuffer :: "http_response \<Rightarrow> buffer \<Rightarrow> buffer res" where
  "appendToBuffer r output = append_all (response_pieces r) output"

subsection \<open>Appending\<close>

lemma append_all_correct:
  "buffer_ok b \<Longrightarrow> has_room (length (concat ss) + n) b \<Longrightarrow>
   \<exists>b'. append_all ss b = Inr b' \<and> buffer_ok b' \<and> has_room n b' \<and>
        readable b' = readable b @ concat ss"
proof (induction ss arbitrary: b)
  case (Cons s ss)
  then obtain b1 where "append_buf s b = Inr b1" "buffer_ok b1"
      "has_room (length (concat ss) + n) b1" "readable b1 = readable b @ s"
    using buf.enq_law [of b s "length (concat ss) + n"] by (auto simp: add.assoc)
  with Cons.IH [of b1] show ?case by auto
qed simp

subsection \<open>Numbers and the 32-byte array\<close>

lemma status_line_whole:
  "status_line r = ''HTTP/1.1 '' @ dec_nat (status_value (rs_statusCode r)) @ '' ''"
proof -
  have "length (dec_nat (status_value c)) \<le> 3" for c
    by (rule dec_nat_length) (cases c; simp add: status_value_def)+
  from this [of "rs_statusCode r"] show ?thesis
    by (simp add: status_line_def snprintf_def fmt_int_def)
qed

lemma content_length_line_whole:
  assumes "n < 10 ^ 13"
  shows "content_length_line n = ''Content-Length: '' @ dec_nat n @ kCRLF"
proof -
  have "length (dec_nat n) \<le> 13" using assms by (intro dec_nat_length) simp_all
  moreover have "fmt_size n = dec_nat n" using assms by (intro fmt_size_small) simp
  ultimately show ?thesis by (simp add: content_length_line_def snprintf_def kCRLF_def)
qed

lemma content_length_line_cut:
  assumes "10 ^ 13 \<le> n" and "n < 2 ^ 63"
  shows "content_length_line n
       = take 31 (''Content-Length: '' @ dec_nat n @ [CHR 0x0D])"
    and "length (content_length_line n) = 31"
proof -
  have long: "13 < length (dec_nat n)" using assms(1) by (rule dec_nat_length_ge)
  moreover have "fmt_size n = dec_nat n" using assms(2) by (rule fmt_size_small)
  moreover have "15 - length (dec_nat n) \<in> {0, 1}" using long by auto
  ultimately show "content_length_line n
       = take 31 (''Content-Length: '' @ dec_nat n @ [CHR 0x0D])"
    and "length (content_length_line n) = 31"
    by (auto simp: content_length_line_def snprintf_def kCRLF_def)
qed

subsection \<open>Properties\<close>

text \<open>The bytes of a response, written out.\<close>

definition print_response :: "http_response \<Rightarrow> string" where
  "print_response r =
     ''HTTP/1.1 '' @ dec_nat (status_value (rs_statusCode r)) @ '' '' @ rs_statusMessage r @ kCRLF
     @ (if rs_closeConnection r then ''Connection: close'' @ kCRLF
        else ''Content-Length: '' @ dec_nat (content_length r) @ kCRLF
             @ ''Connection: Keep-Alive'' @ kCRLF)
     @ concat (map (\<lambda>(k, v). k @ '': '' @ v @ kCRLF) (rs_headers r))
     @ kCRLF @ rs_body r"

lemma concat_fields:
  "concat (concat (map (\<lambda>(k, v). [k, '': '', v, kCRLF]) hs))
   = concat (map (\<lambda>(k, v). k @ '': '' @ v @ kCRLF) hs)"
  by (induction hs) auto

lemma concat_response_pieces:
  "rs_closeConnection r \<or> content_length r < 10 ^ 13 \<Longrightarrow>
   concat (response_pieces r) = print_response r"
  by (auto simp: response_pieces_def print_response_def status_line_whole
      content_length_line_whole concat_fields)

text \<open>A response is written as status line, connection fields, header fields in the
  order of their names, an empty line and the body, behind what the buffer already holds;
  a kept-alive response announces the length of its body (or the separate body length when
  one is set), below \<open>10 ^ 13\<close> bytes.\<close>

lemma appendToBuffer_bytes:
  assumes "buffer_ok b" and "has_room (length (print_response r)) b"
    and "rs_closeConnection r \<or> content_length r < 10 ^ 13"
  shows "\<exists>b'. appendToBuffer r b = Inr b' \<and> buffer_ok b' \<and>
              readable b' = readable b @ print_response r"
  using append_all_correct [OF assms(1), of "response_pieces r" 0] assms(2)
    concat_response_pieces [OF assms(3)]
  by (auto simp: appendToBuffer_def)

text \<open>From \<open>10 ^ 13\<close> bytes on the \<open>Content-Length\<close> line does not fit the 32-byte array:
  what is appended is its first 31 characters, which do not end in a line feed, so the
  line runs into the next header field.\<close>

lemma content_length_truncated:
  assumes "10 ^ 13 \<le> n" and "n < 2 ^ 63"
  shows "length (content_length_line n) = 31 \<and>
         prefix (content_length_line n) (''Content-Length: '' @ dec_nat n @ [CHR 0x0D])"
  unfolding content_length_line_cut(1) [OF assms]
  using content_length_line_cut [OF assms] take_is_prefix by metis

end
