(* ===== verification/Channel.thy ===== *)
theory Channel
  imports Prelude
begin

text \<open>
  \<open>yvent/Channel.h\<close>, \<open>Channel.cpp\<close>, \<open>Poll.h\<close>, \<open>Poll.cpp\<close>: a channel is the interest of one
  file descriptor, and the poller keeps the kernel's interest list up to date with it.  The
  system call \<open>epoll_ctl\<close> is a parameter; the locale \<open>epoll_kernel\<close> states what
  \<open>epoll_ctl(2)\<close> documents.  The callbacks of a channel are functions on an arbitrary
  state, and \<open>handleEvents\<close> reads \<open>revents_\<close> again between them, which fails once a
  callback has destroyed the channel.
\<close>

subsection \<open>Channels\<close>

definition EPOLLIN :: "32 word" where "EPOLLIN = 0x1"
definition EPOLLPRI :: "32 word" where "EPOLLPRI = 0x2"
definition EPOLLOUT :: "32 word" where "EPOLLOUT = 0x4"
definition EPOLLERR :: "32 word" where "EPOLLERR = 0x8"
definition EPOLLHUP :: "32 word" where "EPOLLHUP = 0x10"
definition EPOLLRDHUP :: "32 word" where "EPOLLRDHUP = 0x2000"

lemmas epoll_consts = EPOLLIN_def EPOLLPRI_def EPOLLOUT_def EPOLLERR_def EPOLLHUP_def
  EPOLLRDHUP_def

datatype chan_state = kNew | kAdded | kDeleted

record channel =
  ch_fd :: int
  ch_events :: "32 word"
  ch_revents :: "32 word"
  ch_state :: chan_state

definition new_channel :: "int \<Rightarrow> channel" where
  "new_channel fd = \<lparr> ch_fd = fd, ch_events = 0, ch_revents = 0, ch_state = kNew \<rparr>"

definition isNoEvent :: "channel \<Rightarrow> bool" where
  "isNoEvent c \<longleftrightarrow> ch_events c = 0"

definition isReading :: "channel \<Rightarrow> bool" where
  "isReading c \<longleftrightarrow> ch_events c AND EPOLLIN \<noteq> 0"

definition isWriting :: "channel \<Rightarrow> bool" where
  "isWriting c \<longleftrightarrow> ch_events c AND EPOLLOUT \<noteq> 0"

definition setRevent :: "32 word \<Rightarrow> channel \<Rightarrow> channel" where
  "setRevent r c = c\<lparr>ch_revents := r\<rparr>"

subsection \<open>The poller\<close>

datatype ctl_op = CtlAdd | CtlMod | CtlDel

text \<open>
  \<open>epoll_ctl(op, fd, event)\<close> on a kernel state \<open>'k\<close>: an errno or the new state.  The event
  carries the interest mask and the channel's address \<open>'p\<close>.
\<close>

type_synonym ('k, 'p) epoll_ctl = "ctl_op \<Rightarrow> int \<Rightarrow> 32 word \<times> 'p \<Rightarrow> 'k \<Rightarrow> int + 'k"

text \<open>\<open>Poll::update\<close>: the new kernel state and the errno that is logged, if any.\<close>

definition poll_update ::
  "('k, 'p) epoll_ctl \<Rightarrow> ctl_op \<Rightarrow> 'p \<Rightarrow> channel \<Rightarrow> 'k \<Rightarrow> 'k \<times> int option" where
  "poll_update ctl op self c k =
     (case ctl op (ch_fd c) (ch_events c, self) k of
        Inl err \<Rightarrow> (k, Some err)
      | Inr k' \<Rightarrow> (k', None))"

definition updateChannel ::
  "('k, 'p) epoll_ctl \<Rightarrow> bool \<Rightarrow> 'p \<Rightarrow> channel \<Rightarrow> 'k \<Rightarrow> (channel \<times> 'k \<times> int option) res" where
  "updateChannel ctl inLoop self c k =
     rbind (assert inLoop) (\<lambda>_.
     if ch_state c = kNew then
       rbind (assert (\<not> isNoEvent c)) (\<lambda>_.
       let c' = c\<lparr>ch_state := kAdded\<rparr> in Inr (c', poll_update ctl CtlAdd self c' k))
     else if isNoEvent c then
       let c' = c\<lparr>ch_state := kDeleted\<rparr> in Inr (c', poll_update ctl CtlDel self c' k)
     else Inr (c, poll_update ctl CtlMod self c k))"

definition enableRead ::
  "('k, 'p) epoll_ctl \<Rightarrow> bool \<Rightarrow> 'p \<Rightarrow> channel \<Rightarrow> 'k \<Rightarrow> (channel \<times> 'k \<times> int option) res" where
  "enableRead ctl inLoop self c k =
     updateChannel ctl inLoop self (c\<lparr>ch_events := ch_events c OR (EPOLLIN OR EPOLLPRI)\<rparr>) k"

definition enableWrite ::
  "('k, 'p) epoll_ctl \<Rightarrow> bool \<Rightarrow> 'p \<Rightarrow> channel \<Rightarrow> 'k \<Rightarrow> (channel \<times> 'k \<times> int option) res" where
  "enableWrite ctl inLoop self c k =
     updateChannel ctl inLoop self (c\<lparr>ch_events := ch_events c OR EPOLLOUT\<rparr>) k"

definition disableWrite ::
  "('k, 'p) epoll_ctl \<Rightarrow> bool \<Rightarrow> 'p \<Rightarrow> channel \<Rightarrow> 'k \<Rightarrow> (channel \<times> 'k \<times> int option) res" where
  "disableWrite ctl inLoop self c k =
     updateChannel ctl inLoop self (c\<lparr>ch_events := ch_events c AND NOT EPOLLOUT\<rparr>) k"

definition disableAll ::
  "('k, 'p) epoll_ctl \<Rightarrow> bool \<Rightarrow> 'p \<Rightarrow> channel \<Rightarrow> 'k \<Rightarrow> (channel \<times> 'k \<times> int option) res" where
  "disableAll ctl inLoop self c k =
     updateChannel ctl inLoop self (c\<lparr>ch_events := 0\<rparr>) k"

text \<open>
  \<open>Poll::poll\<close>: the answer of \<open>epoll_wait\<close> is -1 with an errno, or the ready events; each
  sets the \<open>revents\<close> of its channel and puts the channel on the active list.  The event
  vector doubles when it was full.
\<close>

datatype 'p wait_result = WaitErr int | WaitEvents "(32 word \<times> 'p) list"

definition poll_events ::
  "'p wait_result \<Rightarrow> nat \<Rightarrow> ('p \<Rightarrow> channel) \<Rightarrow> nat \<times> ('p \<Rightarrow> channel) \<times> 'p list" where
  "poll_events w maxEvents chans =
     (case w of
        WaitErr err \<Rightarrow> (maxEvents, chans, [])
      | WaitEvents evs \<Rightarrow>
          (if length evs = maxEvents \<and> evs \<noteq> [] then 2 * maxEvents else maxEvents,
           fold (\<lambda>(r, p) m. m(p := setRevent r (m p))) evs chans,
           map snd evs))"

subsection \<open>Dispatch\<close>

record 's chan_callbacks =
  cb_read :: "('s \<Rightarrow> 's res) option"
  cb_write :: "('s \<Rightarrow> 's res) option"
  cb_close :: "('s \<Rightarrow> 's res) option"
  cb_error :: "('s \<Rightarrow> 's res) option"

definition call :: "('s \<Rightarrow> 's res) option \<Rightarrow> 's \<Rightarrow> 's res" where
  "call cb s = (case cb of None \<Rightarrow> Inr s | Some f \<Rightarrow> f s)"

text \<open>
  \<open>chan s\<close> is the channel in the state \<open>s\<close>, \<open>None\<close> once it is destroyed; each test of
  \<open>revents_\<close> reads it.
\<close>

definition when_revents ::
  "('s \<Rightarrow> channel option) \<Rightarrow> (32 word \<Rightarrow> bool) \<Rightarrow> ('s \<Rightarrow> 's res) option \<Rightarrow> 's \<Rightarrow> 's res" where
  "when_revents chan cond cb s =
     (case chan s of
        None \<Rightarrow> Inl UseAfterFree
      | Some c \<Rightarrow> if cond (ch_revents c) then call cb s else Inr s)"

definition handleEvents ::
  "('s \<Rightarrow> channel option) \<Rightarrow> bool \<Rightarrow> 's chan_callbacks \<Rightarrow> 's \<Rightarrow> 's res" where
  "handleEvents chan inLoop cbs s =
     rbind (assert inLoop) (\<lambda>_.
     rbind (when_revents chan (\<lambda>r. r AND EPOLLHUP \<noteq> 0 \<and> r AND EPOLLIN = 0) (cb_close cbs) s) (\<lambda>s.
     rbind (when_revents chan (\<lambda>r. r AND EPOLLERR \<noteq> 0) (cb_error cbs) s) (\<lambda>s.
     rbind (when_revents chan (\<lambda>r. r AND (EPOLLIN OR EPOLLPRI OR EPOLLRDHUP) \<noteq> 0) (cb_read cbs) s) (\<lambda>s.
     when_revents chan (\<lambda>r. r AND EPOLLOUT \<noteq> 0) (cb_write cbs) s))))"

subsection \<open>The kernel's interest list\<close>

definition ENOENT :: int where "ENOENT = 2"
definition EEXIST :: int where "EEXIST = 17"

text \<open>
  A kernel that behaves as \<open>epoll_ctl(2)\<close> documents, with the interest list as its state;
  it is the reference instance of the locale below.
\<close>

type_synonym 'p interest_list = "int \<Rightarrow> (32 word \<times> 'p) option"

definition epoll_ref :: "('p interest_list, 'p) epoll_ctl" where
  "epoll_ref op fd ev k =
     (case (op, k fd) of
        (CtlAdd, None) \<Rightarrow> Inr (k(fd \<mapsto> ev))
      | (CtlAdd, Some _) \<Rightarrow> Inl EEXIST
      | (CtlMod, Some _) \<Rightarrow> Inr (k(fd \<mapsto> ev))
      | (CtlDel, Some _) \<Rightarrow> Inr (k(fd := None))
      | (_, None) \<Rightarrow> Inl ENOENT)"

text \<open>What the kernel knows agrees with the channel.\<close>

definition in_sync ::
  "('k \<Rightarrow> 'p interest_list) \<Rightarrow> 'p \<Rightarrow> channel \<Rightarrow> 'k \<Rightarrow> bool" where
  "in_sync interest self c k \<longleftrightarrow>
     interest k (ch_fd c) = (if ch_state c = kAdded then Some (ch_events c, self) else None)"

text \<open>The interest changes a client makes, and a run of them.\<close>

datatype chan_op = EnableRead | EnableWrite | DisableWrite | DisableAll

definition chan_do ::
  "('k, 'p) epoll_ctl \<Rightarrow> bool \<Rightarrow> 'p \<Rightarrow> chan_op \<Rightarrow> channel \<Rightarrow> 'k \<Rightarrow> (channel \<times> 'k \<times> int option) res" where
  "chan_do ctl inLoop self op =
     (case op of EnableRead \<Rightarrow> enableRead ctl inLoop self | EnableWrite \<Rightarrow> enableWrite ctl inLoop self
      | DisableWrite \<Rightarrow> disableWrite ctl inLoop self | DisableAll \<Rightarrow> disableAll ctl inLoop self)"

fun chan_run ::
  "('k, 'p) epoll_ctl \<Rightarrow> bool \<Rightarrow> 'p \<Rightarrow> chan_op list \<Rightarrow> channel \<Rightarrow> 'k \<Rightarrow> (channel \<times> 'k) res" where
  "chan_run ctl inLoop self [] c k = Inr (c, k)"
| "chan_run ctl inLoop self (op # ops) c k =
     rbind (chan_do ctl inLoop self op c k) (\<lambda>(c', k', err). chan_run ctl inLoop self ops c' k')"

text \<open>The mask after a run, computed on the mask alone.\<close>

definition mask_after :: "chan_op \<Rightarrow> 32 word \<Rightarrow> 32 word" where
  "mask_after op m =
     (case op of EnableRead \<Rightarrow> m OR (EPOLLIN OR EPOLLPRI) | EnableWrite \<Rightarrow> m OR EPOLLOUT
      | DisableWrite \<Rightarrow> m AND NOT EPOLLOUT | DisableAll \<Rightarrow> 0)"

lemma chan_do_update:
  "chan_do ctl inLoop self op c k
   = updateChannel ctl inLoop self (c\<lparr>ch_events := mask_after op (ch_events c)\<rparr>) k"
  by (cases op) (simp_all add: chan_do_def mask_after_def enableRead_def enableWrite_def
      disableWrite_def disableAll_def)

lemma updateChannel_off_loop: "updateChannel ctl False self c k = Inl AssertFail"
  by (simp add: updateChannel_def)

lemma updateChannel_state:
  "updateChannel ctl inLoop self c k = Inr (c', k', err) \<Longrightarrow>
   c' = c\<lparr>ch_state := (if isNoEvent c then kDeleted else if ch_state c = kNew then kAdded else ch_state c)\<rparr>"
  by (auto simp: updateChannel_def res_simps Let_def split: if_splits)

locale epoll_kernel =
  fixes ctl :: "('k, 'p) epoll_ctl" and interest :: "'k \<Rightarrow> 'p interest_list"
  assumes add_law: "interest k fd = None \<Longrightarrow>
      \<exists>k'. ctl CtlAdd fd ev k = Inr k' \<and> interest k' = (interest k)(fd \<mapsto> ev)"
    and add_exists: "interest k fd = Some e \<Longrightarrow> ctl CtlAdd fd ev k = Inl EEXIST"
    and mod_law: "interest k fd = Some e \<Longrightarrow>
      \<exists>k'. ctl CtlMod fd ev k = Inr k' \<and> interest k' = (interest k)(fd \<mapsto> ev)"
    and mod_missing: "interest k fd = None \<Longrightarrow> ctl CtlMod fd ev k = Inl ENOENT"
    and del_law: "interest k fd = Some e \<Longrightarrow>
      \<exists>k'. ctl CtlDel fd ev k = Inr k' \<and> interest k' = (interest k)(fd := None)"
    and del_missing: "interest k fd = None \<Longrightarrow> ctl CtlDel fd ev k = Inl ENOENT"
begin

lemma update_new:
  assumes "interest k (ch_fd c) = None" and "ch_state c = kNew" and "ch_events c \<noteq> 0"
  obtains k' where "updateChannel ctl True self c k = Inr (c\<lparr>ch_state := kAdded\<rparr>, k', None)"
    and "interest k' = (interest k)(ch_fd c \<mapsto> (ch_events c, self))"
  using add_law [OF assms(1), of "(ch_events c, self)"] assms
  by (auto simp: updateChannel_def poll_update_def isNoEvent_def Let_def)

lemma update_mod:
  assumes "interest k (ch_fd c) = Some e" and "ch_state c \<noteq> kNew" and "ch_events c \<noteq> 0"
  obtains k' where "updateChannel ctl True self c k = Inr (c, k', None)"
    and "interest k' = (interest k)(ch_fd c \<mapsto> (ch_events c, self))"
  using mod_law [OF assms(1), of "(ch_events c, self)"] assms
  by (auto simp: updateChannel_def poll_update_def isNoEvent_def Let_def)

lemma update_del:
  assumes "interest k (ch_fd c) = Some e" and "ch_state c \<noteq> kNew" and "ch_events c = 0"
  obtains k' where "updateChannel ctl True self c k = Inr (c\<lparr>ch_state := kDeleted\<rparr>, k', None)"
    and "interest k' = (interest k)(ch_fd c := None)"
  using del_law [OF assms(1), of "(ch_events c, self)"] assms
  by (auto simp: updateChannel_def poll_update_def isNoEvent_def Let_def)

lemma update_stale:
  assumes "interest k (ch_fd c) = None" and "ch_state c = kDeleted"
  shows "updateChannel ctl True self c k = Inr (c, k, Some ENOENT)"
  using assms mod_missing [OF assms(1)] del_missing [OF assms(1)]
  by (cases c) (auto simp: updateChannel_def poll_update_def isNoEvent_def Let_def)

text \<open>A registered channel that keeps some interest stays in agreement with the kernel.\<close>

lemma chan_run_registered:
  assumes "in_sync interest self c k" and "ch_state c = kAdded"
    and "\<And>i. i < length ops \<Longrightarrow> fold mask_after (take (Suc i) ops) (ch_events c) \<noteq> 0"
  shows "\<exists>k'. chan_run ctl True self ops c k
            = Inr (c\<lparr>ch_events := fold mask_after ops (ch_events c)\<rparr>, k') \<and>
           in_sync interest self (c\<lparr>ch_events := fold mask_after ops (ch_events c)\<rparr>) k' \<and>
           (\<forall>fd. fd \<noteq> ch_fd c \<longrightarrow> interest k' fd = interest k fd)"
  using assms
proof (induction ops arbitrary: c k)
  case Nil
  then show ?case by simp
next
  case (Cons op ops)
  let ?c = "c\<lparr>ch_events := mask_after op (ch_events c)\<rparr>"
  have nz: "mask_after op (ch_events c) \<noteq> 0" using Cons.prems(3) [of 0] by simp
  have "interest k (ch_fd ?c) = Some (ch_events c, self)"
    using Cons.prems(1,2) by (simp add: in_sync_def)
  then obtain k' where k': "updateChannel ctl True self ?c k = Inr (?c, k', None)"
      "interest k' = (interest k)(ch_fd ?c \<mapsto> (ch_events ?c, self))"
    by (rule update_mod) (use Cons.prems(2) nz in simp_all)
  have "in_sync interest self ?c k'" using k'(2) Cons.prems(2) by (simp add: in_sync_def)
  with Cons.IH [of ?c k'] Cons.prems(2) Cons.prems(3) [of "Suc _"] k' show ?case
    by (fastforce simp: chan_do_update)
qed

end

interpretation eref: epoll_kernel epoll_ref "\<lambda>k. k"
  by unfold_locales (auto simp: epoll_ref_def)

subsection \<open>Dispatch\<close>

definition keeps_channel :: "('s \<Rightarrow> channel option) \<Rightarrow> ('s \<Rightarrow> 's res) option \<Rightarrow> bool" where
  "keeps_channel chan cb \<longleftrightarrow>
     (\<forall>s s'. call cb s = Inr s' \<longrightarrow> map_option ch_revents (chan s') = map_option ch_revents (chan s))"

text \<open>The four tests as a list.\<close>

fun run_tests :: "('s \<Rightarrow> channel option) \<Rightarrow> ((32 word \<Rightarrow> bool) \<times> ('s \<Rightarrow> 's res) option) list \<Rightarrow>
    's \<Rightarrow> 's res" where
  "run_tests chan [] s = Inr s"
| "run_tests chan ((cond, cb) # ts) s = rbind (when_revents chan cond cb s) (run_tests chan ts)"

definition dispatch_tests ::
  "'s chan_callbacks \<Rightarrow> ((32 word \<Rightarrow> bool) \<times> ('s \<Rightarrow> 's res) option) list" where
  "dispatch_tests cbs =
     [(\<lambda>r. r AND EPOLLHUP \<noteq> 0 \<and> r AND EPOLLIN = 0, cb_close cbs),
      (\<lambda>r. r AND EPOLLERR \<noteq> 0, cb_error cbs),
      (\<lambda>r. r AND (EPOLLIN OR EPOLLPRI OR EPOLLRDHUP) \<noteq> 0, cb_read cbs),
      (\<lambda>r. r AND EPOLLOUT \<noteq> 0, cb_write cbs)]"

lemma rbind_Inr_right: "rbind m Inr = m"
  by (cases m) simp_all

lemma handleEvents_tests: "handleEvents chan True cbs s = run_tests chan (dispatch_tests cbs) s"
proof -
  have "run_tests chan [] = Inr" by (rule ext) simp
  moreover have "run_tests chan ((cond, cb) # ts) =
      (\<lambda>s. rbind (when_revents chan cond cb s) (run_tests chan ts))" for cond cb ts
    by (rule ext) simp
  ultimately show ?thesis by (simp add: handleEvents_def dispatch_tests_def rbind_Inr_right)
qed

text \<open>The callbacks a mask selects, in the order of the tests.\<close>

definition selected :: "32 word \<Rightarrow> 's chan_callbacks \<Rightarrow> ('s \<Rightarrow> 's res) option list" where
  "selected r cbs = map snd (filter (\<lambda>(cond, cb). cond r) (dispatch_tests cbs))"

fun call_all :: "('s \<Rightarrow> 's res) option list \<Rightarrow> 's \<Rightarrow> 's res" where
  "call_all [] s = Inr s"
| "call_all (cb # cbs) s = rbind (call cb s) (call_all cbs)"

lemma run_tests_selected:
  assumes "map_option ch_revents (chan s) = Some r"
    and "\<And>cond cb. (cond, cb) \<in> set ts \<Longrightarrow> cond r \<Longrightarrow> keeps_channel chan cb"
  shows "run_tests chan ts s = call_all (map snd (filter (\<lambda>(cond, cb). cond r) ts)) s"
  using assms
proof (induction ts arbitrary: s)
  case (Cons t ts)
  obtain cond cb where t: "t = (cond, cb)" by (cases t)
  from Cons.prems(1) obtain c where c: "chan s = Some c" "ch_revents c = r" by auto
  have IH: "run_tests chan ts s' = call_all (map snd (filter (\<lambda>(cond, cb). cond r) ts)) s'"
    if "map_option ch_revents (chan s') = Some r" for s'
    by (rule Cons.IH [OF that]) (meson Cons.prems(2) list.set_intros(2))
  show ?case
  proof (cases "cond r")
    case True
    have "map_option ch_revents (chan s') = Some r" if "call cb s = Inr s'" for s'
      using Cons.prems(1) Cons.prems(2) [of cond cb] True t that by (auto simp: keeps_channel_def)
    with IH True c show ?thesis
      by (cases "call cb s") (simp_all add: t when_revents_def)
  next
    case False
    with IH [OF Cons.prems(1)] c show ?thesis by (simp add: t when_revents_def)
  qed
qed simp

lemma handleEvents_selected:
  assumes "chan s = Some c" and "\<forall>cb \<in> set (selected (ch_revents c) cbs). keeps_channel chan cb"
  shows "handleEvents chan True cbs s = call_all (selected (ch_revents c) cbs) s"
  unfolding handleEvents_tests selected_def
  using assms(2) by (intro run_tests_selected) (auto simp: assms(1) selected_def)

lemma test_EPOLLIN: "w AND EPOLLIN = 0 \<longleftrightarrow> \<not> bit w 0"
  by (simp add: EPOLLIN_def and_one_eq bit_0 even_iff_mod_2_eq_zero)

lemma test_EPOLLOUT: "w AND EPOLLOUT = 0 \<longleftrightarrow> \<not> bit w 2"
proof -
  have "EPOLLOUT = push_bit 2 1" by (simp add: EPOLLOUT_def push_bit_eq_mult)
  then show ?thesis by (simp add: bit_iff_and_push_bit_not_eq_0)
qed

lemmas mask_bits = mask_after_def test_EPOLLIN test_EPOLLOUT bit_simps

lemma EPOLL_bits [simp]:
  "bit EPOLLIN 0" "\<not> bit EPOLLPRI 0" "\<not> bit EPOLLOUT 0"
  "bit EPOLLOUT 2" "\<not> bit EPOLLIN 2" "\<not> bit EPOLLPRI 2"
  by (simp_all add: epoll_consts bit_numeral_rec bit_1_iff)

lemma mask_keeps_read:
  "m AND EPOLLIN \<noteq> 0 \<Longrightarrow> op \<noteq> DisableAll \<Longrightarrow> mask_after op m AND EPOLLIN \<noteq> 0"
  by (cases op) (simp_all add: mask_bits)

lemma masks_keep_read:
  "m AND EPOLLIN \<noteq> 0 \<Longrightarrow> DisableAll \<notin> set ops \<Longrightarrow> fold mask_after ops m AND EPOLLIN \<noteq> 0"
proof (induction ops arbitrary: m)
  case (Cons op ops)
  have "op \<noteq> DisableAll" using Cons.prems(2) by auto
  with Cons.IH [OF mask_keeps_read [OF Cons.prems(1)]] Cons.prems(2) show ?case by simp
qed simp

lemma masks_nonzero:
  assumes "m AND EPOLLIN \<noteq> 0" and "DisableAll \<notin> set ops"
  shows "fold mask_after (take i ops) m \<noteq> 0"
proof -
  have "DisableAll \<notin> set (take i ops)" using assms(2) set_take_subset [of i ops] by blast
  from masks_keep_read [OF assms(1) this] show ?thesis by auto
qed

subsection \<open>Runs of interest changes\<close>

lemma chan_run_append:
  "chan_run ctl inLoop self (ops1 @ ops2) c k =
     rbind (chan_run ctl inLoop self ops1 c k) (\<lambda>(c', k'). chan_run ctl inLoop self ops2 c' k')"
  by (induction ops1 arbitrary: c k) (auto simp: rbind_assoc prod.case_distrib intro!: arg_cong2 [where f = rbind])

text \<open>A new channel until its first \<open>disableAll\<close>.\<close>

lemma registered_run:
  assumes "epoll_kernel ctl interest" and "interest k fd = None" and "DisableAll \<notin> set ops"
  obtains c k1 where "chan_run ctl True self (EnableRead # ops) (new_channel fd) k = Inr (c, k1)"
    and "c = (new_channel fd)\<lparr>ch_events := fold mask_after (EnableRead # ops) 0, ch_state := kAdded\<rparr>"
    and "interest k1 = (interest k)(fd \<mapsto> (ch_events c, self))" and "isReading c"
proof -
  let ?m = "mask_after EnableRead 0" and ?e = "fold mask_after ops (mask_after EnableRead 0)"
  let ?n = "(new_channel fd)\<lparr>ch_events := ?m\<rparr>"
  let ?c = "?n\<lparr>ch_state := kAdded\<rparr>"
  have m: "?m AND EPOLLIN \<noteq> 0" by (simp add: mask_after_def epoll_consts)
  then have "ch_events ?n \<noteq> 0" by auto
  with assms(1,2) obtain k1 where k1: "updateChannel ctl True self ?n k = Inr (?c, k1, None)"
      "interest k1 = (interest k)(fd \<mapsto> (?m, self))"
    using epoll_kernel.update_new [OF assms(1), of k ?n self] by (auto simp: new_channel_def)
  have "in_sync interest self ?c k1" using k1(2) by (simp add: in_sync_def new_channel_def)
  then obtain k2 where k2: "chan_run ctl True self ops ?c k1 = Inr (?c\<lparr>ch_events := ?e\<rparr>, k2)"
      "in_sync interest self (?c\<lparr>ch_events := ?e\<rparr>) k2"
      "\<forall>fd'. fd' \<noteq> fd \<longrightarrow> interest k2 fd' = interest k1 fd'"
    using epoll_kernel.chan_run_registered [OF assms(1), of self ?c k1 ops] masks_nonzero [OF m assms(3)]
    by (auto simp: new_channel_def)
  have "interest k2 = (interest k)(fd \<mapsto> (?e, self))"
    using k1(2) k2(2,3) by (auto simp: fun_eq_iff in_sync_def new_channel_def)
  moreover have "chan_run ctl True self (EnableRead # ops) (new_channel fd) k = Inr (?c\<lparr>ch_events := ?e\<rparr>, k2)"
    using k1(1) k2(1) by (simp add: chan_do_update) (simp add: new_channel_def)
  ultimately show ?thesis
    using masks_keep_read [OF m assms(3)] by (intro that [of "?c\<lparr>ch_events := ?e\<rparr>" k2]) (simp_all add: isReading_def)
qed

text \<open>A channel whose interest was once cleared by \<open>disableAll\<close> is not registered again: the
  poller asks the kernel to modify or delete a descriptor it does not know, and the call fails.\<close>

lemma channel_never_readded:
  assumes "epoll_kernel ctl interest" and "interest k (ch_fd c) = None" and "ch_state c = kDeleted"
  shows "chan_run ctl True self ops c k
           = Inr (c\<lparr>ch_events := fold mask_after ops (ch_events c)\<rparr>, k)"
  using assms(2,3)
proof (induction ops arbitrary: c)
  case (Cons op ops)
  let ?c = "c\<lparr>ch_events := mask_after op (ch_events c)\<rparr>"
  have "updateChannel ctl True self ?c k = Inr (?c, k, Some ENOENT)"
    using Cons.prems by (intro epoll_kernel.update_stale [OF assms(1)]) simp_all
  with Cons.IH [of ?c] Cons.prems show ?case by (simp add: chan_do_update)
qed simp

lemma disabled_run:
  assumes "epoll_kernel ctl interest" and "interest k fd = None" and "DisableAll \<in> set ops"
  obtains c k1 where "chan_run ctl True self (EnableRead # ops) (new_channel fd) k = Inr (c, k1)"
    and "ch_events c = fold mask_after (EnableRead # ops) 0" and "ch_state c = kDeleted"
    and "interest k1 = interest k"
proof -
  obtain ops1 ops2 where ops: "ops = ops1 @ DisableAll # ops2" "DisableAll \<notin> set ops1"
    using split_list_first [OF assms(3)] by blast
  let ?m = "fold mask_after (EnableRead # ops1) 0"
  let ?c = "(new_channel fd)\<lparr>ch_events := ?m, ch_state := kAdded\<rparr>"
  obtain k1 where k1: "chan_run ctl True self (EnableRead # ops1) (new_channel fd) k = Inr (?c, k1)"
    "interest k1 = (interest k)(fd \<mapsto> (?m, self))"
    by (rule registered_run [OF assms(1,2) ops(2), of self]) auto
  obtain k2 where k2: "updateChannel ctl True self (?c\<lparr>ch_events := 0\<rparr>) k1
        = Inr (?c\<lparr>ch_events := 0, ch_state := kDeleted\<rparr>, k2, None)" "interest k2 = (interest k1)(fd := None)"
    using epoll_kernel.update_del [OF assms(1), of k1 "?c\<lparr>ch_events := 0\<rparr>" "(?m, self)" self] k1(2)
    by (auto simp: new_channel_def)
  let ?c2 = "?c\<lparr>ch_events := 0, ch_state := kDeleted\<rparr>"
  have i: "interest k2 = interest k" using k1(2) k2(2) assms(2) by (auto simp: fun_eq_iff)
  then have "chan_run ctl True self ops2 ?c2 k2 = Inr (?c2\<lparr>ch_events := fold mask_after ops2 0\<rparr>, k2)"
    using channel_never_readded [OF assms(1), of k2 ?c2 self ops2] assms(2) by (simp add: new_channel_def)
  moreover have "chan_do ctl True self DisableAll ?c k1 = Inr (?c2, k2, None)"
    using k2(1) by (simp add: chan_do_update mask_after_def)
  ultimately have "chan_run ctl True self ((EnableRead # ops1) @ DisableAll # ops2) (new_channel fd) k
      = Inr (?c2\<lparr>ch_events := fold mask_after ops2 0\<rparr>, k2)"
    unfolding chan_run_append k1(1) by simp
  then show ?thesis using i
    by (intro that [of "?c2\<lparr>ch_events := fold mask_after ops2 0\<rparr>" k2]) (simp_all add: ops(1) mask_after_def)
qed

subsection \<open>Properties\<close>

text \<open>C28. What the kernel holds for a channel, exactly, over any sequence of \<open>enableRead\<close>,
  \<open>enableWrite\<close>, \<open>disableWrite\<close> and \<open>disableAll\<close> that begins with \<open>enableRead\<close> on a new channel: no
  assert fails, the mask is the one the calls ask for and the other descriptors are untouched.  As
  long as \<open>disableAll\<close> has not been called the kernel holds exactly the channel's mask and address,
  and reading is on.  From the first \<open>disableAll\<close> on the descriptor is not in the interest list and
  no later call brings it back, whatever the mask says.  It relies on \<open>epoll_ctl\<close> as documented.\<close>

theorem channel_in_sync:
  assumes "epoll_kernel ctl interest" and "interest k fd = None"
  shows "\<exists>c k'. chan_run ctl True self (EnableRead # ops) (new_channel fd) k = Inr (c, k') \<and>
     ch_events c = fold mask_after (EnableRead # ops) 0 \<and>
     (if DisableAll \<in> set ops then ch_state c = kDeleted \<and> interest k' = interest k
      else ch_state c = kAdded \<and> isReading c \<and> interest k' = (interest k)(fd \<mapsto> (ch_events c, self)))"
proof (cases "DisableAll \<in> set ops")
  case True
  obtain c k1 where "chan_run ctl True self (EnableRead # ops) (new_channel fd) k = Inr (c, k1)"
    "ch_events c = fold mask_after (EnableRead # ops) 0" "ch_state c = kDeleted" "interest k1 = interest k"
    by (rule disabled_run [OF assms True])
  with True show ?thesis by auto
next
  case False
  obtain c k1 where "chan_run ctl True self (EnableRead # ops) (new_channel fd) k = Inr (c, k1)"
    "c = (new_channel fd)\<lparr>ch_events := fold mask_after (EnableRead # ops) 0, ch_state := kAdded\<rparr>"
    "interest k1 = (interest k)(fd \<mapsto> (ch_events c, self))" "isReading c"
    by (rule registered_run [OF assms False])
  with False show ?thesis by auto
qed

theorem channel_in_sync_witness:
  "(\<exists>c k'. chan_run epoll_ref True ''ch'' [EnableRead, EnableWrite, DisableWrite] (new_channel 5) Map.empty = Inr (c, k') \<and>
      isReading c \<and> k' = [5 \<mapsto> (ch_events c, ''ch'')]) \<and>
   (\<exists>c k'. chan_run epoll_ref True ''ch'' [EnableRead, DisableAll, EnableRead] (new_channel 5) Map.empty = Inr (c, k') \<and>
      ch_events c = EPOLLIN OR EPOLLPRI \<and> k' = Map.empty)"
  using channel_in_sync [OF eref.epoll_kernel_axioms, of Map.empty 5 "''ch''" "[EnableWrite, DisableWrite]"]
    channel_in_sync [OF eref.epoll_kernel_axioms, of Map.empty 5 "''ch''" "[DisableAll, EnableRead]"]
  by (simp add: mask_after_def) blast

end
