(* ===== verification/EventLoop.thy ===== *)
theory EventLoop
  imports Prelude
begin

text \<open>
  \<open>yvent/EventLoop.h\<close> and \<open>EventLoop.cpp\<close>: the task queue of a loop, the wake-up descriptor
  and the loop itself.  The operations are functions on the record \<open>evloop\<close>, given the
  identity of the calling thread; the \<open>eventfd\<close> behind \<open>wakeupfd_\<close> is a parameter, and the
  locale \<open>eventfd_kernel\<close> says what \<open>eventfd(2)\<close> documents.  The second half is the loop
  thread and any number of other threads as a step relation: each step is one atomic action
  of the code (a locked section, a store of an atomic, a system call), so that every
  interleaving of \<open>addTask\<close>, \<open>quit\<close> and \<open>loop\<close> is covered.
\<close>

subsection \<open>The loop's state and operations\<close>

record ('k, 'e) evloop =
  el_tid :: nat
  el_quit :: bool
  el_tasks :: "'k list"
  el_runningTasks :: bool
  el_looping :: bool
  el_wakeupfd :: 'e

text \<open>The constructor, run by the thread \<open>tid\<close> on a fresh \<open>eventfd\<close>; \<open>t_Eventloop\<close> is the
  thread's loop, if it has one.\<close>

definition new_evloop :: "nat \<Rightarrow> bool \<Rightarrow> int + 'e \<Rightarrow> ('k, 'e) evloop res" where
  "new_evloop tid t_Eventloop efd =
     (case efd of
        Inl err \<Rightarrow> Inl Aborted
      | Inr e \<Rightarrow> rbind (assert (\<not> t_Eventloop)) (\<lambda>_.
          Inr \<lparr> el_tid = tid, el_quit = False, el_tasks = [], el_runningTasks = False,
                el_looping = False, el_wakeupfd = e \<rparr>))"

definition isInLoopThread :: "nat \<Rightarrow> ('k, 'e, 'x) evloop_scheme \<Rightarrow> bool" where
  "isInLoopThread tid l \<longleftrightarrow> tid = el_tid l"

text \<open>\<open>wakeup\<close> writes 1 to the \<open>eventfd\<close>; an error is only logged.\<close>

definition wakeup ::
  "('e \<Rightarrow> int + 'e) \<Rightarrow> ('k, 'e, 'x) evloop_scheme \<Rightarrow> ('k, 'e, 'x) evloop_scheme" where
  "wakeup efd_write l =
     (case efd_write (el_wakeupfd l) of Inl err \<Rightarrow> l | Inr e \<Rightarrow> l\<lparr>el_wakeupfd := e\<rparr>)"

definition quit ::
  "('e \<Rightarrow> int + 'e) \<Rightarrow> nat \<Rightarrow> ('k, 'e, 'x) evloop_scheme \<Rightarrow> ('k, 'e, 'x) evloop_scheme" where
  "quit efd_write tid l =
     (let l1 = l\<lparr>el_quit := True\<rparr> in
      if \<not> isInLoopThread tid l1 then wakeup efd_write l1 else l1)"

text \<open>The locked section of \<open>addTask\<close>, and \<open>addTask\<close>.\<close>

definition push_task :: "'k \<Rightarrow> ('k, 'e, 'x) evloop_scheme \<Rightarrow> ('k, 'e, 'x) evloop_scheme" where
  "push_task task l = l\<lparr>el_tasks := el_tasks l @ [task]\<rparr>"

definition addTask ::
  "('e \<Rightarrow> int + 'e) \<Rightarrow> nat \<Rightarrow> 'k \<Rightarrow> ('k, 'e, 'x) evloop_scheme \<Rightarrow> ('k, 'e, 'x) evloop_scheme" where
  "addTask efd_write tid task l =
     (let l1 = push_task task l in
      if \<not> isInLoopThread tid l1 \<or> el_runningTasks l1 then wakeup efd_write l1 else l1)"

text \<open>\<open>exec task\<close> is the effect of running \<open>task\<close> in the loop thread.\<close>

definition runInLoop ::
  "('e \<Rightarrow> int + 'e) \<Rightarrow> ('k \<Rightarrow> ('k, 'e, 'x) evloop_scheme \<Rightarrow> ('k, 'e, 'x) evloop_scheme res) \<Rightarrow>
   nat \<Rightarrow> 'k \<Rightarrow> ('k, 'e, 'x) evloop_scheme \<Rightarrow> ('k, 'e, 'x) evloop_scheme res" where
  "runInLoop efd_write exec tid task l =
     (if isInLoopThread tid l then exec task l else Inr (addTask efd_write tid task l))"

fun run_list :: "('k \<Rightarrow> 's \<Rightarrow> 's res) \<Rightarrow> 'k list \<Rightarrow> 's \<Rightarrow> 's res" where
  "run_list exec [] s = Inr s"
| "run_list exec (t # ts) s = rbind (exec t s) (run_list exec ts)"

definition runTasks ::
  "('k \<Rightarrow> ('k, 'e, 'x) evloop_scheme \<Rightarrow> ('k, 'e, 'x) evloop_scheme res) \<Rightarrow>
   ('k, 'e, 'x) evloop_scheme \<Rightarrow> ('k, 'e, 'x) evloop_scheme res" where
  "runTasks exec l =
     (let tasks = el_tasks l; l1 = l\<lparr>el_runningTasks := True, el_tasks := []\<rparr> in
      rbind (run_list exec tasks l1) (\<lambda>l2. Inr (l2\<lparr>el_runningTasks := False\<rparr>)))"

text \<open>\<open>handleRead\<close> of the wake-up channel reads the counter; an error is only logged.\<close>

definition el_handleRead ::
  "('e \<Rightarrow> int + 'e) \<Rightarrow> ('k, 'e, 'x) evloop_scheme \<Rightarrow> ('k, 'e, 'x) evloop_scheme" where
  "el_handleRead efd_read l =
     (case efd_read (el_wakeupfd l) of Inl err \<Rightarrow> l | Inr e \<Rightarrow> l\<lparr>el_wakeupfd := e\<rparr>)"

text \<open>
  The loop: \<open>poll\<close> gives the active channels, \<open>handle\<close> is \<open>handleEvents\<close> of one channel.  The
  loop ends only when \<open>quit_\<close> is set, so it is a partial function.
\<close>

partial_function (option) loop_while ::
  "('s \<Rightarrow> bool) \<Rightarrow> ('s \<Rightarrow> 's res) \<Rightarrow> 's \<Rightarrow> 's res option" where
  "loop_while quit_set iteration s =
     (if \<not> quit_set s then
        (case iteration s of Inl e \<Rightarrow> Some (Inl e) | Inr s' \<Rightarrow> loop_while quit_set iteration s')
      else Some (Inr s))"

definition loop_iteration ::
  "(('k, 'e, 'x) evloop_scheme \<Rightarrow> ('k, 'e, 'x) evloop_scheme \<times> 'p list) \<Rightarrow>
   ('p \<Rightarrow> ('k, 'e, 'x) evloop_scheme \<Rightarrow> ('k, 'e, 'x) evloop_scheme res) \<Rightarrow>
   ('k \<Rightarrow> ('k, 'e, 'x) evloop_scheme \<Rightarrow> ('k, 'e, 'x) evloop_scheme res) \<Rightarrow>
   ('k, 'e, 'x) evloop_scheme \<Rightarrow> ('k, 'e, 'x) evloop_scheme res" where
  "loop_iteration poll handle exec l =
     (case poll l of (l1, activeChannels) \<Rightarrow>
        rbind (run_list handle activeChannels l1) (runTasks exec))"

definition loop_fn ::
  "(('k, 'e, 'x) evloop_scheme \<Rightarrow> ('k, 'e, 'x) evloop_scheme \<times> 'p list) \<Rightarrow>
   ('p \<Rightarrow> ('k, 'e, 'x) evloop_scheme \<Rightarrow> ('k, 'e, 'x) evloop_scheme res) \<Rightarrow>
   ('k \<Rightarrow> ('k, 'e, 'x) evloop_scheme \<Rightarrow> ('k, 'e, 'x) evloop_scheme res) \<Rightarrow>
   nat \<Rightarrow> ('k, 'e, 'x) evloop_scheme \<Rightarrow> ('k, 'e, 'x) evloop_scheme res option" where
  "loop_fn poll handle exec tid l =
     (if \<not> isInLoopThread tid l then Some (Inl AssertFail)
      else if el_looping l then Some (Inl AssertFail)
      else map_option (\<lambda>r. rbind r (\<lambda>l2. Inr (l2\<lparr>el_looping := False\<rparr>)))
             (loop_while el_quit (loop_iteration poll handle exec) (l\<lparr>el_looping := True\<rparr>)))"

text \<open>
  \<open>rounds n\<close> is the state after \<open>n\<close> rounds none of which started with \<open>quit_\<close> set.  The loop returns
  exactly in the first state with \<open>quit_\<close> set, and in no other way without a failure.
\<close>

fun rounds :: "('s \<Rightarrow> bool) \<Rightarrow> ('s \<Rightarrow> 's res) \<Rightarrow> nat \<Rightarrow> 's \<Rightarrow> 's option" where
  "rounds quit_set iteration 0 s = Some s"
| "rounds quit_set iteration (Suc n) s =
     (if quit_set s then None
      else case iteration s of Inl e \<Rightarrow> None | Inr s' \<Rightarrow> rounds quit_set iteration n s')"

lemma rounds_loop_while:
  "rounds quit_set iteration n s = Some s' \<Longrightarrow> quit_set s' \<Longrightarrow> loop_while quit_set iteration s = Some (Inr s')"
proof (induction n arbitrary: s)
  case 0
  then show ?case by (simp add: loop_while.simps)
next
  case (Suc n)
  then show ?case
    by (subst loop_while.simps) (auto split: if_splits sum.splits)
qed

lemma loop_while_rounds:
  "loop_while quit_set iteration s = Some r \<Longrightarrow> r = Inr s' \<Longrightarrow>
   \<exists>n. rounds quit_set iteration n s = Some s' \<and> quit_set s'"
proof (induction arbitrary: s' rule: loop_while.raw_induct [rotated, consumes 1, case_names round])
  case (round f quit_set iteration s r)
  show ?case
  proof (cases "quit_set s")
    case True
    with round(2,3) have "rounds quit_set iteration 0 s = Some s' \<and> quit_set s'" by simp
    then show ?thesis ..
  next
    case False
    with round(2,3) obtain t where t: "iteration s = Inr t" "f quit_set iteration t = Some r"
      by (auto split: sum.splits)
    from round(1) [OF t(2) round(3)] obtain n where "rounds quit_set iteration n t = Some s' \<and> quit_set s'" ..
    with False t(1) have "rounds quit_set iteration (Suc n) s = Some s' \<and> quit_set s'" by simp
    then show ?thesis ..
  qed
qed

lemma loop_while_returns_iff:
  "loop_while quit_set iteration s = Some (Inr s') \<longleftrightarrow>
   (\<exists>n. rounds quit_set iteration n s = Some s' \<and> quit_set s')"
  by (rule iffI, erule loop_while_rounds [OF _ refl], elim exE conjE, rule rounds_loop_while)

lemma loop_fn_returns_iff:
  assumes "isInLoopThread tid l" and "\<not> el_looping l"
  shows "loop_fn poll handle exec tid l = Some (Inr l') \<longleftrightarrow>
     (\<exists>n l2. rounds el_quit (loop_iteration poll handle exec) n (l\<lparr>el_looping := True\<rparr>) = Some l2 \<and>
             el_quit l2 \<and> l' = l2\<lparr>el_looping := False\<rparr>)"
proof -
  have "loop_fn poll handle exec tid l = Some (Inr l') \<longleftrightarrow>
      (\<exists>l2. loop_while el_quit (loop_iteration poll handle exec) (l\<lparr>el_looping := True\<rparr>) = Some (Inr l2) \<and>
            l' = l2\<lparr>el_looping := False\<rparr>)"
    using assms by (auto simp: loop_fn_def res_simps)
  then show ?thesis by (simp only: loop_while_returns_iff) metis
qed

subsection \<open>Threads\<close>

text \<open>
  Where the loop thread is: before \<open>loop()\<close>, at the test of \<open>quit_\<close>, in \<open>epoll_wait\<close>, handling
  events (with the wake-up channel still to be handled or not), before and after the store
  \<open>runningTasks_ = true\<close>, running the swapped tasks, after \<open>loop()\<close>, or inside \<open>addTask\<close>
  between the locked section and the wake-up test, from where it returns to \<open>ret\<close>.
  Another thread is outside, in \<open>addTask\<close> behind the locked section, or in \<open>quit\<close> behind the
  store.
\<close>

datatype 'k lpc =
    LIdle | LCheck | LPoll | LHandle bool | LTasks | LSwap | LRun "'k list" | LDone
  | LPushed "'k lpc"

datatype opc = OIdle | OPushed | OQuitSet

text \<open>\<open>sy_added\<close> and \<open>sy_ran\<close> are the tasks in the order of their locked sections and of their
  runs, \<open>sy_early\<close> records an \<open>addTask\<close> by the loop thread before \<open>loop()\<close>.\<close>

record ('k, 'e) sys =
  sy_loop :: "('k, 'e) evloop"
  sy_pc :: "'k lpc"
  sy_other :: "nat \<Rightarrow> opc"
  sy_added :: "'k list"
  sy_ran :: "'k list"
  sy_early :: bool

definition sys_init :: "('k, 'e) evloop \<Rightarrow> ('k, 'e) sys" where
  "sys_init l = \<lparr> sy_loop = l, sy_pc = LIdle, sy_other = (\<lambda>_. OIdle), sy_added = [], sy_ran = [],
                  sy_early = False \<rparr>"

text \<open>The points at which the loop thread runs user code (callbacks and tasks).\<close>

fun user_code :: "'k lpc \<Rightarrow> bool" where
  "user_code LIdle = True"
| "user_code (LHandle woken) = True"
| "user_code (LRun ts) = True"
| "user_code pc = False"

inductive sys_step ::
  "('e \<Rightarrow> int + 'e) \<Rightarrow> ('e \<Rightarrow> int + 'e) \<Rightarrow> ('e \<Rightarrow> bool) \<Rightarrow> ('k, 'e) sys \<Rightarrow> ('k, 'e) sys \<Rightarrow> bool"
  for efd_write efd_read readable where
  start: "sy_pc s = LIdle \<Longrightarrow> \<not> el_looping (sy_loop s) \<Longrightarrow>
    sys_step efd_write efd_read readable s
      (s\<lparr>sy_pc := LCheck, sy_loop := (sy_loop s)\<lparr>el_looping := True\<rparr>\<rparr>)"
| check_quit: "sy_pc s = LCheck \<Longrightarrow> el_quit (sy_loop s) \<Longrightarrow>
    sys_step efd_write efd_read readable s
      (s\<lparr>sy_pc := LDone, sy_loop := (sy_loop s)\<lparr>el_looping := False\<rparr>\<rparr>)"
| check_go: "sy_pc s = LCheck \<Longrightarrow> \<not> el_quit (sy_loop s) \<Longrightarrow>
    sys_step efd_write efd_read readable s (s\<lparr>sy_pc := LPoll\<rparr>)"
| poll_woken: "sy_pc s = LPoll \<Longrightarrow> readable (el_wakeupfd (sy_loop s)) \<Longrightarrow>
    sys_step efd_write efd_read readable s (s\<lparr>sy_pc := LHandle True\<rparr>)"
| poll_other: "sy_pc s = LPoll \<Longrightarrow>
    sys_step efd_write efd_read readable s (s\<lparr>sy_pc := LHandle False\<rparr>)"
| handle_wakeup: "sy_pc s = LHandle True \<Longrightarrow>
    sys_step efd_write efd_read readable s
      (s\<lparr>sy_pc := LHandle False, sy_loop := el_handleRead efd_read (sy_loop s)\<rparr>)"
| handled: "sy_pc s = LHandle False \<Longrightarrow>
    sys_step efd_write efd_read readable s (s\<lparr>sy_pc := LTasks\<rparr>)"
| running: "sy_pc s = LTasks \<Longrightarrow>
    sys_step efd_write efd_read readable s
      (s\<lparr>sy_pc := LSwap, sy_loop := (sy_loop s)\<lparr>el_runningTasks := True\<rparr>\<rparr>)"
| swap: "sy_pc s = LSwap \<Longrightarrow>
    sys_step efd_write efd_read readable s
      (s\<lparr>sy_pc := LRun (el_tasks (sy_loop s)), sy_loop := (sy_loop s)\<lparr>el_tasks := []\<rparr>\<rparr>)"
| run: "sy_pc s = LRun (t # ts) \<Longrightarrow>
    sys_step efd_write efd_read readable s (s\<lparr>sy_pc := LRun ts, sy_ran := sy_ran s @ [t]\<rparr>)"
| ran_all: "sy_pc s = LRun [] \<Longrightarrow>
    sys_step efd_write efd_read readable s
      (s\<lparr>sy_pc := LCheck, sy_loop := (sy_loop s)\<lparr>el_runningTasks := False\<rparr>\<rparr>)"
| self_push: "user_code (sy_pc s) \<Longrightarrow>
    sys_step efd_write efd_read readable s
      (s\<lparr>sy_pc := LPushed (sy_pc s), sy_loop := push_task t (sy_loop s),
         sy_added := sy_added s @ [t], sy_early := (sy_early s \<or> sy_pc s = LIdle)\<rparr>)"
| self_wakeup: "sy_pc s = LPushed ret \<Longrightarrow>
    sys_step efd_write efd_read readable s
      (s\<lparr>sy_pc := ret, sy_loop := (if el_runningTasks (sy_loop s)
          then wakeup efd_write (sy_loop s) else sy_loop s)\<rparr>)"
| self_quit: "user_code (sy_pc s) \<Longrightarrow>
    sys_step efd_write efd_read readable s (s\<lparr>sy_loop := (sy_loop s)\<lparr>el_quit := True\<rparr>\<rparr>)"
| other_push: "sy_other s tid = OIdle \<Longrightarrow>
    sys_step efd_write efd_read readable s
      (s\<lparr>sy_other := (sy_other s)(tid := OPushed), sy_loop := push_task t (sy_loop s),
         sy_added := sy_added s @ [t]\<rparr>)"
| other_quit: "sy_other s tid = OIdle \<Longrightarrow>
    sys_step efd_write efd_read readable s
      (s\<lparr>sy_other := (sy_other s)(tid := OQuitSet), sy_loop := (sy_loop s)\<lparr>el_quit := True\<rparr>\<rparr>)"
| other_wakeup: "sy_other s tid \<noteq> OIdle \<Longrightarrow>
    sys_step efd_write efd_read readable s
      (s\<lparr>sy_other := (sy_other s)(tid := OIdle), sy_loop := wakeup efd_write (sy_loop s)\<rparr>)"

inductive sys_steps ::
  "('e \<Rightarrow> int + 'e) \<Rightarrow> ('e \<Rightarrow> int + 'e) \<Rightarrow> ('e \<Rightarrow> bool) \<Rightarrow> ('k, 'e) sys \<Rightarrow> ('k, 'e) sys \<Rightarrow> bool"
  for efd_write efd_read readable where
  stay: "sys_steps efd_write efd_read readable s s"
| more: "sys_steps efd_write efd_read readable s s1 \<Longrightarrow>
    sys_step efd_write efd_read readable s1 s2 \<Longrightarrow> sys_steps efd_write efd_read readable s s2"

subsection \<open>The wake-up descriptor\<close>

locale eventfd_kernel =
  fixes efd_write :: "'e \<Rightarrow> int + 'e" and efd_read :: "'e \<Rightarrow> int + 'e"
    and efd_readable :: "'e \<Rightarrow> bool"
  assumes write_law: "efd_write e = Inr e' \<Longrightarrow> efd_readable e'"
    and write_full: "efd_write e = Inl err \<Longrightarrow> efd_readable e"
    and read_law: "efd_readable e \<Longrightarrow> \<exists>e'. efd_read e = Inr e' \<and> \<not> efd_readable e'"
begin

lemma wakeup_readable: "efd_readable (el_wakeupfd (wakeup efd_write l))"
  by (auto simp: wakeup_def write_law write_full split: sum.split)

end

text \<open>The counter of \<open>eventfd(2)\<close>: at most \<open>2 ^ 64 - 2\<close>, readable when positive, reset by a read.\<close>

definition EAGAIN :: int where "EAGAIN = 11"

definition counter_write :: "nat \<Rightarrow> int + nat" where
  "counter_write n = (if n < 2 ^ 64 - 2 then Inr (n + 1) else Inl EAGAIN)"

definition counter_read :: "nat \<Rightarrow> int + nat" where
  "counter_read n = (if 0 < n then Inr 0 else Inl EAGAIN)"

interpretation counter: eventfd_kernel counter_write counter_read "\<lambda>n. 0 < n"
  by unfold_locales (auto simp: counter_write_def counter_read_def split: if_splits)

subsection \<open>Invariant\<close>

fun core :: "'k lpc \<Rightarrow> 'k lpc" where
  "core (LPushed ret) = ret"
| "core pc = pc"

fun unrun :: "'k lpc \<Rightarrow> 'k list" where
  "unrun (LRun ts) = ts"
| "unrun pc = []"

fun in_runTasks :: "'k lpc \<Rightarrow> bool" where
  "in_runTasks LSwap = True"
| "in_runTasks (LRun ts) = True"
| "in_runTasks pc = False"

text \<open>The points from which the loop thread polls again without swapping the tasks first.\<close>

fun polls_first :: "'k lpc \<Rightarrow> bool" where
  "polls_first LIdle = True"
| "polls_first LCheck = True"
| "polls_first LPoll = True"
| "polls_first (LRun ts) = True"
| "polls_first pc = False"

definition signalled :: "('e \<Rightarrow> bool) \<Rightarrow> opc \<Rightarrow> ('k, 'e) sys \<Rightarrow> bool" where
  "signalled readable p s \<longleftrightarrow> readable (el_wakeupfd (sy_loop s)) \<or> (\<exists>tid. sy_other s tid = p)"

definition pc_inv :: "('k, 'e) sys \<Rightarrow> bool" where
  "pc_inv s \<longleftrightarrow>
     (el_runningTasks (sy_loop s) \<longleftrightarrow> in_runTasks (core (sy_pc s))) \<and>
     (\<forall>ret. sy_pc s = LPushed ret \<longrightarrow> user_code ret)"

definition fifo_inv :: "('k, 'e) sys \<Rightarrow> bool" where
  "fifo_inv s \<longleftrightarrow> sy_ran s @ unrun (core (sy_pc s)) @ el_tasks (sy_loop s) = sy_added s"

definition early_inv :: "('k, 'e) sys \<Rightarrow> bool" where
  "early_inv s \<longleftrightarrow> (sy_pc s = LPushed LIdle \<longrightarrow> sy_early s)"

definition wakeup_inv :: "('e \<Rightarrow> bool) \<Rightarrow> ('k, 'e) sys \<Rightarrow> bool" where
  "wakeup_inv readable s \<longleftrightarrow>
     (el_tasks (sy_loop s) \<noteq> [] \<and> polls_first (sy_pc s) \<and> \<not> sy_early s \<longrightarrow> signalled readable OPushed s)"

definition quit_inv :: "('e \<Rightarrow> bool) \<Rightarrow> ('k, 'e) sys \<Rightarrow> bool" where
  "quit_inv readable s \<longleftrightarrow>
     (el_quit (sy_loop s) \<and> sy_pc s = LPoll \<longrightarrow> signalled readable OQuitSet s)"

definition sys_inv :: "('e \<Rightarrow> bool) \<Rightarrow> ('k, 'e) sys \<Rightarrow> bool" where
  "sys_inv readable s \<longleftrightarrow>
     pc_inv s \<and> fifo_inv s \<and> early_inv s \<and> wakeup_inv readable s \<and> quit_inv readable s"

lemma wakeup_fields [simp]:
  "el_tasks (wakeup w l) = el_tasks l" "el_quit (wakeup w l) = el_quit l"
  "el_runningTasks (wakeup w l) = el_runningTasks l" "el_tid (wakeup w l) = el_tid l"
  "el_looping (wakeup w l) = el_looping l"
  by (simp_all add: wakeup_def split: sum.split)

lemma el_handleRead_fields [simp]:
  "el_tasks (el_handleRead r l) = el_tasks l" "el_quit (el_handleRead r l) = el_quit l"
  "el_runningTasks (el_handleRead r l) = el_runningTasks l"
  by (simp_all add: el_handleRead_def split: sum.split)

lemma push_task_fields [simp]:
  "el_tasks (push_task t l) = el_tasks l @ [t]" "el_quit (push_task t l) = el_quit l"
  "el_runningTasks (push_task t l) = el_runningTasks l"
  "el_wakeupfd (push_task t l) = el_wakeupfd l"
  by (simp_all add: push_task_def)

lemma user_code_core [simp]: "user_code pc \<Longrightarrow> core pc = pc"
  by (cases pc) simp_all

lemma user_polls: "user_code pc \<Longrightarrow> polls_first pc \<Longrightarrow> pc = LIdle \<or> in_runTasks pc"
  by (cases pc) simp_all

lemma other_upd:
  "f tid = OIdle \<Longrightarrow> p \<noteq> OIdle \<Longrightarrow> (\<exists>t. (f(tid := q)) t = p) \<longleftrightarrow> q = p \<or> (\<exists>t. f t = p)"
  by auto

lemma pc_inv_step: "sys_step w r rd s s' \<Longrightarrow> pc_inv s \<Longrightarrow> pc_inv s'"
  by (erule sys_step.cases) (auto simp: pc_inv_def)

lemma fifo_inv_step: "sys_step w r rd s s' \<Longrightarrow> pc_inv s \<Longrightarrow> fifo_inv s \<Longrightarrow> fifo_inv s'"
  by (erule sys_step.cases) (auto simp: fifo_inv_def pc_inv_def)

lemma early_inv_step: "sys_step w r rd s s' \<Longrightarrow> early_inv s \<Longrightarrow> pc_inv s \<Longrightarrow> early_inv s'"
  by (erule sys_step.cases) (auto simp: early_inv_def pc_inv_def)

context eventfd_kernel
begin

lemma wakeup_inv_step:
  "sys_step efd_write efd_read efd_readable s s' \<Longrightarrow> pc_inv s \<Longrightarrow> early_inv s \<Longrightarrow>
   wakeup_inv efd_readable s \<Longrightarrow> wakeup_inv efd_readable s'"
  by (erule sys_step.cases)
    (auto simp: wakeup_inv_def signalled_def pc_inv_def early_inv_def wakeup_readable other_upd
       simp del: fun_upd_apply dest: user_polls)

lemma quit_inv_step:
  "sys_step efd_write efd_read efd_readable s s' \<Longrightarrow> pc_inv s \<Longrightarrow>
   quit_inv efd_readable s \<Longrightarrow> quit_inv efd_readable s'"
  by (erule sys_step.cases) 
    (auto simp: quit_inv_def signalled_def pc_inv_def wakeup_readable other_upd
       simp del: fun_upd_apply)

lemma sys_inv_steps:
  "sys_steps efd_write efd_read efd_readable s s' \<Longrightarrow> sys_inv efd_readable s \<Longrightarrow>
   sys_inv efd_readable s'"
  by (induction rule: sys_steps.induct)
    (auto simp: sys_inv_def intro: pc_inv_step fifo_inv_step early_inv_step wakeup_inv_step quit_inv_step)

end

lemma sys_inv_init:
  "el_tasks l = [] \<Longrightarrow> \<not> el_runningTasks l \<Longrightarrow> sys_inv rd (sys_init l)"
  by (simp add: sys_inv_def pc_inv_def fifo_inv_def early_inv_def wakeup_inv_def quit_inv_def
      sys_init_def)

subsection \<open>Progress\<close>

lemma sys_steps_trans:
  "sys_steps w r rd s1 s2 \<Longrightarrow> sys_steps w r rd s0 s1 \<Longrightarrow> sys_steps w r rd s0 s2"
  by (induction rule: sys_steps.induct) (auto intro: sys_steps.more)

lemma run_tasks_steps:
  "sy_pc s = LRun ts \<Longrightarrow>
   sys_steps w r rd s (s\<lparr>sy_pc := LCheck, sy_ran := sy_ran s @ ts,
     sy_loop := (sy_loop s)\<lparr>el_runningTasks := False\<rparr>\<rparr>)"
proof (induction ts arbitrary: s)
  case Nil
  then show ?case using sys_steps.more [OF sys_steps.stay sys_step.ran_all [OF Nil]] by simp
next
  case (Cons t ts)
  let ?s = "s\<lparr>sy_pc := LRun ts, sy_ran := sy_ran s @ [t]\<rparr>"
  have "sys_steps w r rd s ?s" using Cons.prems by (intro sys_steps.more [OF sys_steps.stay] run)
  with sys_steps_trans [OF Cons.IH [of ?s]] show ?case by simp
qed

text \<open>One round of a woken loop: the wake-up is consumed and the queued tasks run.\<close>

definition woken_round :: "('e \<Rightarrow> int + 'e) \<Rightarrow> ('k, 'e) sys \<Rightarrow> ('k, 'e) sys" where
  "woken_round r s = s\<lparr>sy_pc := LCheck, sy_ran := sy_ran s @ el_tasks (sy_loop s),
     sy_loop := (el_handleRead r (sy_loop s))\<lparr>el_tasks := [], el_runningTasks := False\<rparr>\<rparr>"

lemma woken_round_steps:
  assumes "sy_pc s = LPoll" and "rd (el_wakeupfd (sy_loop s))"
  shows "sys_steps w r rd s (woken_round r s)"
proof -
  let ?l = "el_handleRead r (sy_loop s)"
  let ?s1 = "s\<lparr>sy_pc := LHandle True\<rparr>"
  let ?s2 = "s\<lparr>sy_pc := LHandle False, sy_loop := ?l\<rparr>"
  let ?s3 = "s\<lparr>sy_pc := LTasks, sy_loop := ?l\<rparr>"
  let ?s4 = "s\<lparr>sy_pc := LSwap, sy_loop := ?l\<lparr>el_runningTasks := True\<rparr>\<rparr>"
  let ?s5 = "s\<lparr>sy_pc := LRun (el_tasks (sy_loop s)),
                sy_loop := ?l\<lparr>el_runningTasks := True, el_tasks := []\<rparr>\<rparr>"
  have "sys_steps w r rd s ?s1"
    by (rule sys_steps.more [OF sys_steps.stay poll_woken]) (use assms in simp_all)
  then have "sys_steps w r rd s ?s2"
    by (rule sys_steps.more) (use handle_wakeup [of ?s1 w r rd] in \<open>cases s; simp\<close>)
  then have "sys_steps w r rd s ?s3"
    by (rule sys_steps.more) (use handled [of ?s2 w r rd] in \<open>cases s; simp\<close>)
  then have "sys_steps w r rd s ?s4"
    by (rule sys_steps.more) (use running [of ?s3 w r rd] in \<open>cases s; simp\<close>)
  then have "sys_steps w r rd s ?s5"
    by (rule sys_steps.more) (use swap [of ?s4 w r rd] in \<open>cases s; simp\<close>)
  moreover have "sys_steps w r rd ?s5 (woken_round r s)"
    using run_tasks_steps [of ?s5 "el_tasks (sy_loop s)" w r rd] by (simp add: woken_round_def)
  ultimately show ?thesis by (rule sys_steps_trans [rotated])
qed

subsection \<open>Properties\<close>

definition fresh_loop :: "('k, 'e) evloop \<Rightarrow> bool" where
  "fresh_loop l \<longleftrightarrow> el_tasks l = [] \<and> \<not> el_runningTasks l \<and> \<not> el_looping l \<and> \<not> el_quit l"

text \<open>A loop on the counter of \<open>eventfd\<close>, in the thread 1.\<close>

definition example_loop :: "(nat, nat) evloop" where
  "example_loop = \<lparr> el_tid = 1, el_quit = False, el_tasks = [], el_runningTasks = False,
                    el_looping = False, el_wakeupfd = 0 \<rparr>"

lemma example_fresh: "fresh_loop example_loop"
  by (simp add: fresh_loop_def example_loop_def)

abbreviation counter_steps :: "(nat, nat) sys \<Rightarrow> (nat, nat) sys \<Rightarrow> bool" where
  "counter_steps \<equiv> sys_steps counter_write counter_read (\<lambda>n. 0 < n)"

text \<open>The loop thread enters \<open>epoll_wait\<close>; thread 2 queues the task 7 and wakes it.\<close>

definition example_polling :: "(nat, nat) sys" where
  "example_polling = (sys_init example_loop)\<lparr>sy_pc := LPoll,
     sy_loop := example_loop\<lparr>el_looping := True\<rparr>\<rparr>"

definition example_woken :: "(nat, nat) sys" where
  "example_woken = example_polling\<lparr>sy_added := [7],
     sy_loop := example_loop\<lparr>el_looping := True, el_tasks := [7], el_wakeupfd := 1\<rparr>\<rparr>"

lemma example_polling_reached: "counter_steps (sys_init example_loop) example_polling"
proof -
  let ?s0 = "sys_init example_loop"
  let ?s1 = "?s0\<lparr>sy_pc := LCheck, sy_loop := example_loop\<lparr>el_looping := True\<rparr>\<rparr>"
  have "counter_steps ?s0 ?s1"
    by (rule sys_steps.more [OF sys_steps.stay])
      (use start [of ?s0 counter_write] in \<open>simp add: sys_init_def example_loop_def\<close>)
  then show ?thesis
    by (rule sys_steps.more)
      (use check_go [of ?s1 counter_write] in \<open>simp add: example_polling_def sys_init_def example_loop_def\<close>)
qed

lemma example_woken_reached: "counter_steps (sys_init example_loop) example_woken"
proof -
  let ?s1 = "example_polling\<lparr>sy_other := (\<lambda>_. OIdle)(2 := OPushed), sy_added := [7],
     sy_loop := example_loop\<lparr>el_looping := True, el_tasks := [7]\<rparr>\<rparr>"
  have "counter_steps (sys_init example_loop) ?s1"
    by (rule sys_steps.more [OF example_polling_reached])
      (use other_push [of example_polling 2 counter_write _ _ 7] in
        \<open>simp add: example_polling_def push_task_def sys_init_def example_loop_def\<close>)
  then show ?thesis
    by (rule sys_steps.more)
      (use other_wakeup [of ?s1 2 counter_write] in
        \<open>simp add: example_woken_def example_polling_def sys_init_def example_loop_def wakeup_def
          counter_write_def fun_upd_idem\<close>)
qed

text \<open>C2. No wake-up is lost once the loop is running: when the loop thread is in \<open>epoll_wait\<close>, no
  other thread is between the two halves of \<open>addTask\<close> or \<open>quit\<close>, the loop thread itself queued nothing
  before \<open>loop()\<close>, and there is a queued task or a request to quit, then the wake-up descriptor is
  readable, so that \<open>epoll_wait\<close> returns; one round runs all the queued tasks, and the loop ends if it
  was asked to quit.  Without the third condition it is false (\<open>early_task_not_signalled\<close>).  It relies
  on \<open>eventfd\<close> being readable after a write.\<close>

theorem no_lost_wakeup:
  assumes "eventfd_kernel efd_write efd_read readable" and "fresh_loop l"
    and "sys_steps efd_write efd_read readable (sys_init l) s"
    and "sy_pc s = LPoll" and "\<forall>tid. sy_other s tid = OIdle" and "\<not> sy_early s"
    and "el_tasks (sy_loop s) \<noteq> [] \<or> el_quit (sy_loop s)"
  shows "readable (el_wakeupfd (sy_loop s)) \<and>
    (\<exists>s'. sys_steps efd_write efd_read readable s s' \<and> sy_ran s' = sy_ran s @ el_tasks (sy_loop s) \<and>
          el_tasks (sy_loop s') = [] \<and> sy_pc s' = (if el_quit (sy_loop s) then LDone else LCheck))"
proof -
  have "sys_inv readable (sys_init l)"
    using assms(2) by (intro sys_inv_init) (simp_all add: fresh_loop_def)
  then have "sys_inv readable s" by (rule eventfd_kernel.sys_inv_steps [OF assms(1,3)])
  with assms(4-7) have rd: "readable (el_wakeupfd (sy_loop s))"
    by (auto simp: sys_inv_def wakeup_inv_def quit_inv_def signalled_def)
  let ?s = "woken_round efd_read s"
  have round: "sys_steps efd_write efd_read readable s ?s"
    by (rule woken_round_steps [where rd = readable, OF assms(4) rd])
  have "sys_steps efd_write efd_read readable s
      (if el_quit (sy_loop s) then ?s\<lparr>sy_pc := LDone, sy_loop := (sy_loop ?s)\<lparr>el_looping := False\<rparr>\<rparr> else ?s)"
    using sys_steps.more [OF round check_quit] round by (simp add: woken_round_def)
  then show ?thesis using rd
    by (intro conjI exI) (auto simp: woken_round_def split: if_splits)
qed

theorem no_lost_wakeup_witness:
  "0 < el_wakeupfd (sy_loop example_woken) \<and>
   (\<exists>s'. counter_steps example_woken s' \<and> sy_ran s' = [7] \<and> el_tasks (sy_loop s') = [] \<and>
         sy_pc s' = LCheck)"
  using no_lost_wakeup [OF counter.eventfd_kernel_axioms example_fresh example_woken_reached]
  by (simp add: example_woken_def example_polling_def sys_init_def example_loop_def)

text \<open>A task that the loop thread queues before it calls \<open>loop()\<close> is not signalled: the
  loop can sit in \<open>epoll_wait\<close> with that task queued, no other thread active and the
  wake-up descriptor not readable.\<close>

lemma early_task_not_signalled:
  "\<exists>s. counter_steps (sys_init example_loop) s \<and> sy_pc s = LPoll \<and> el_tasks (sy_loop s) = [7] \<and>
       (\<forall>tid. sy_other s tid = OIdle) \<and> \<not> 0 < el_wakeupfd (sy_loop s)"
proof -
  let ?s0 = "sys_init example_loop"
  let ?l = "example_loop\<lparr>el_tasks := [7]\<rparr>"
  let ?s1 = "?s0\<lparr>sy_pc := LPushed LIdle, sy_loop := ?l, sy_added := [7], sy_early := True\<rparr>"
  let ?s2 = "?s1\<lparr>sy_pc := LIdle\<rparr>"
  let ?s3 = "?s2\<lparr>sy_pc := LCheck, sy_loop := ?l\<lparr>el_looping := True\<rparr>\<rparr>"
  let ?s4 = "?s3\<lparr>sy_pc := LPoll\<rparr>"
  note d = sys_init_def example_loop_def push_task_def
  have "counter_steps ?s0 ?s1"
    by (rule sys_steps.more [OF sys_steps.stay])
      (use self_push [of ?s0 counter_write _ _ 7] in \<open>simp add: d\<close>)
  then have "counter_steps ?s0 ?s2"
    by (rule sys_steps.more) (use self_wakeup [of ?s1 LIdle counter_write] in \<open>simp add: d\<close>)
  then have "counter_steps ?s0 ?s3"
    by (rule sys_steps.more) (use start [of ?s2 counter_write] in \<open>simp add: d\<close>)
  then have "counter_steps ?s0 ?s4"
    by (rule sys_steps.more) (use check_go [of ?s3 counter_write] in \<open>simp add: d\<close>)
  then show ?thesis by (intro exI [of _ ?s4]) (simp add: d)
qed

end
