(* ===== verification/TcpConnection.thy ===== *)
theory TcpConnection
  imports Buffer Channel EventLoop
begin

text \<open>
  \<open>yvent/TcpConnection.h\<close> and \<open>TcpConnection.cpp\<close>: one connection, its loop and the part of
  the outside world it touches.  The record \<open>world\<close> extends the loop of \<open>EventLoop\<close> by the
  connection (\<open>None\<close> once it is destroyed), the state of the operating system, the number of
  \<open>shared_ptr\<close>s that keep the connection alive, the state of the application, and two
  history variables: the bytes the kernel has taken (\<open>w_wire\<close>) and whether
  \<open>shutdown(SHUT_WR)\<close> was called (\<open>w_shut\<close>).  The system calls are the record \<open>os\<close>; the
  callbacks of the application are functions on the world.  Every access to the connection
  after it may have been destroyed goes through \<open>with_conn\<close> and fails with \<open>UseAfterFree\<close>.
\<close>

subsection \<open>State\<close>

datatype ConnectionState = kConnecting | kConnected | kDisconnecting | kDisconnected

record tcp_conn =
  tc_cfd :: int
  tc_channel :: channel
  tc_inBuffer :: buffer
  tc_outBuffer :: buffer
  tc_state :: ConnectionState
  tc_sendFd :: int
  tc_stSize :: int

text \<open>The tasks a connection hands to its loop when it is used from another thread.\<close>

datatype conn_task = TSend string | TShutdown | TForceClose

record ('e, 'o, 'u) world = "(conn_task, 'e) evloop" +
  w_conn :: "tcp_conn option"
  w_os :: 'o
  w_refs :: nat
  w_user :: 'u
  w_wire :: "char list"
  w_shut :: bool

text \<open>
  The system calls, on the state \<open>'o\<close> of the operating system: \<open>write\<close> returns an errno or
  the number of bytes taken, \<open>sendfile\<close> an errno or the bytes of the file it sent.
\<close>

record ('e, 'o) os =
  os_efd_write :: "'e \<Rightarrow> int + 'e"
  os_ctl :: "('o, unit) epoll_ctl"
  os_write :: "int \<Rightarrow> char list \<Rightarrow> 'o \<Rightarrow> (int + nat) \<times> 'o"
  os_sendfile :: "int \<Rightarrow> int \<Rightarrow> 'o \<Rightarrow> (int + char list) \<times> 'o"
  os_readv :: "int \<Rightarrow> nat list \<Rightarrow> 'o \<Rightarrow> readv_result \<times> 'o"
  os_shutdown :: "int \<Rightarrow> 'o \<Rightarrow> 'o"
  os_close :: "int \<Rightarrow> 'o \<Rightarrow> 'o"

type_synonym 'w callback = "('w \<Rightarrow> 'w res) option"

record 'w conn_callbacks =
  connectionCallback :: "'w callback"
  messageCallback :: "'w callback"
  closeCallback :: "'w callback"
  writeCompleteCallback :: "'w callback"

definition new_connection :: "int \<Rightarrow> tcp_conn" where
  "new_connection cfd =
     \<lparr> tc_cfd = cfd, tc_channel = new_channel cfd, tc_inBuffer = new_buffer kInitialSize,
       tc_outBuffer = new_buffer kInitialSize, tc_state = kConnecting, tc_sendFd = -1,
       tc_stSize = 0 \<rparr>"

definition with_conn ::
  "('e, 'o, 'u) world \<Rightarrow> (tcp_conn \<Rightarrow> 'a res) \<Rightarrow> 'a res" where
  "with_conn w f = (case w_conn w of None \<Rightarrow> Inl UseAfterFree | Some c \<Rightarrow> f c)"

definition upd_conn ::
  "(tcp_conn \<Rightarrow> tcp_conn) \<Rightarrow> ('e, 'o, 'u) world \<Rightarrow> ('e, 'o, 'u) world" where
  "upd_conn f w = w\<lparr>w_conn := map_option f (w_conn w)\<rparr>"

definition destroy_conn ::
  "('e, 'o) os \<Rightarrow> ('e, 'o, 'u) world \<Rightarrow> ('e, 'o, 'u) world res" where
  "destroy_conn os w =
     with_conn w (\<lambda>c. rbind (assert (tc_state c = kDisconnected)) (\<lambda>_.
       Inr (w\<lparr>w_conn := None, w_os := os_close os (tc_cfd c) (w_os w)\<rparr>)))"

text \<open>
  Running \<open>f\<close> while a \<open>shared_ptr\<close> to the connection is held, as the temporaries and the
  captures of \<open>shared_from_this()\<close> do; the last one to go destroys the connection.
\<close>

definition release ::
  "('e, 'o) os \<Rightarrow> nat \<Rightarrow> ('e, 'o, 'u) world \<Rightarrow> ('e, 'o, 'u) world res" where
  "release os n w =
     (let w1 = w\<lparr>w_refs := w_refs w - n\<rparr> in
      if w_refs w1 = 0 \<and> 0 < n then destroy_conn os w1 else Inr w1)"

definition holding ::
  "('e, 'o) os \<Rightarrow> (('e, 'o, 'u) world \<Rightarrow> ('e, 'o, 'u) world res) \<Rightarrow>
   ('e, 'o, 'u) world \<Rightarrow> ('e, 'o, 'u) world res" where
  "holding os f w = rbind (f (w\<lparr>w_refs := w_refs w + 1\<rparr>)) (release os 1)"

definition notify ::
  "('e, 'o) os \<Rightarrow> ('e, 'o, 'u) world callback \<Rightarrow> ('e, 'o, 'u) world \<Rightarrow> ('e, 'o, 'u) world res" where
  "notify os cb w =
     with_conn w (\<lambda>_. case cb of None \<Rightarrow> Inr w | Some f \<Rightarrow> holding os f w)"

text \<open>An interest change of the connection's channel.\<close>

definition conn_channel ::
  "('e, 'o) os \<Rightarrow> nat \<Rightarrow> chan_op \<Rightarrow> ('e, 'o, 'u) world \<Rightarrow> ('e, 'o, 'u) world res" where
  "conn_channel os tid op w =
     with_conn w (\<lambda>c.
       rbind (chan_do (os_ctl os) (isInLoopThread tid w) () op (tc_channel c) (w_os w)) (\<lambda>(ch, o', err).
         Inr (w\<lparr>w_conn := Some (c\<lparr>tc_channel := ch\<rparr>), w_os := o'\<rparr>)))"

subsection \<open>Operations\<close>

definition conn_enableRead ::
  "('e, 'o) os \<Rightarrow> ('e, 'o, 'u) world conn_callbacks \<Rightarrow> nat \<Rightarrow>
   ('e, 'o, 'u) world \<Rightarrow> ('e, 'o, 'u) world res" where
  "conn_enableRead os cbs tid w =
     with_conn w (\<lambda>c. rbind (assert (tc_state c = kConnecting)) (\<lambda>_.
       let w1 = upd_conn (\<lambda>c. c\<lparr>tc_state := kConnected\<rparr>) w in
       rbind (conn_channel os tid EnableRead w1) (notify os (connectionCallback cbs))))"

definition conn_handleClose ::
  "('e, 'o) os \<Rightarrow> ('e, 'o, 'u) world conn_callbacks \<Rightarrow> nat \<Rightarrow>
   ('e, 'o, 'u) world \<Rightarrow> ('e, 'o, 'u) world res" where
  "conn_handleClose os cbs tid w =
     rbind (assert (isInLoopThread tid w)) (\<lambda>_.
     with_conn w (\<lambda>c.
       rbind (assert (tc_state c = kConnected \<or> tc_state c = kDisconnecting)) (\<lambda>_.
       let w1 = upd_conn (\<lambda>c. c\<lparr>tc_state := kDisconnected\<rparr>) w in
       rbind (conn_channel os tid DisableAll w1) (\<lambda>w2.
       rbind (notify os (connectionCallback cbs) w2) (notify os (closeCallback cbs))))))"

definition conn_handleRead ::
  "('e, 'o) os \<Rightarrow> ('e, 'o, 'u) world conn_callbacks \<Rightarrow> nat \<Rightarrow>
   ('e, 'o, 'u) world \<Rightarrow> ('e, 'o, 'u) world res" where
  "conn_handleRead os cbs tid w =
     with_conn w (\<lambda>c.
       case os_readv os (tc_cfd c) (readFd_iov (tc_inBuffer c)) (w_os w) of (r, o') \<Rightarrow>
       rbind (readFd (\<lambda>_. r) (tc_inBuffer c)) (\<lambda>(n, savedErrno, b).
         let w1 = w\<lparr>w_conn := Some (c\<lparr>tc_inBuffer := b\<rparr>), w_os := o'\<rparr> in
         if n = -1 then Inr w1
         else if n = 0 then conn_handleClose os cbs tid w1
         else notify os (messageCallback cbs) w1))"

text \<open>\<open>handleError\<close> reads \<open>SO_ERROR\<close> into \<open>errno\<close> and logs it; no object changes.\<close>

definition conn_handleError ::
  "('e, 'o, 'u) world \<Rightarrow> ('e, 'o, 'u) world res" where
  "conn_handleError w = with_conn w (\<lambda>c. Inr w)"

text \<open>
  \<open>sendInLoop\<close>: the direct write, when nothing is waiting, then the rest into the output
  buffer.  \<open>writeCompleteCallback_\<close> is run at once, since the caller is the loop thread.
\<close>

definition direct_write ::
  "('e, 'o) os \<Rightarrow> ('e, 'o, 'u) world conn_callbacks \<Rightarrow> char list \<Rightarrow>
   ('e, 'o, 'u) world \<Rightarrow> (nat \<times> ('e, 'o, 'u) world) res" where
  "direct_write os cbs data w =
     with_conn w (\<lambda>c.
       if \<not> isWriting (tc_channel c) \<and> readableBytes (tc_outBuffer c) = 0 then
         (case os_write os (ch_fd (tc_channel c)) data (w_os w) of
            (Inl err, o') \<Rightarrow> Inr (0, w\<lparr>w_os := o'\<rparr>)
          | (Inr n, o') \<Rightarrow>
              let w1 = w\<lparr>w_os := o', w_wire := w_wire w @ take n data\<rparr> in
              if n < length data then Inr (n, w1)
              else (case writeCompleteCallback cbs of
                      None \<Rightarrow> Inr (n, w1)
                    | Some f \<Rightarrow> rbind (holding os f w1) (\<lambda>w2. Inr (n, w2))))
       else Inr (0, w))"

definition sendInLoop ::
  "('e, 'o) os \<Rightarrow> ('e, 'o, 'u) world conn_callbacks \<Rightarrow> nat \<Rightarrow> char list \<Rightarrow>
   ('e, 'o, 'u) world \<Rightarrow> ('e, 'o, 'u) world res" where
  "sendInLoop os cbs tid data w =
     rbind (assert (isInLoopThread tid w)) (\<lambda>_.
     with_conn w (\<lambda>c.
       if tc_state c = kDisconnected then Inr w
       else rbind (direct_write os cbs data w) (\<lambda>(n, w1).
         with_conn w1 (\<lambda>c1.
           if n < length data \<or> tc_stSize c1 \<noteq> 0 then
             rbind (append_buf (drop n data) (tc_outBuffer c1)) (\<lambda>b.
             let w2 = upd_conn (\<lambda>c. c\<lparr>tc_outBuffer := b\<rparr>) w1 in
             if \<not> isWriting (tc_channel c1) then conn_channel os tid EnableWrite w2 else Inr w2)
           else Inr w1))))"

definition shutdownInLoop ::
  "('e, 'o) os \<Rightarrow> nat \<Rightarrow> ('e, 'o, 'u) world \<Rightarrow> ('e, 'o, 'u) world res" where
  "shutdownInLoop os tid w =
     rbind (assert (isInLoopThread tid w)) (\<lambda>_.
     with_conn w (\<lambda>c.
       if \<not> isWriting (tc_channel c)
       then Inr (w\<lparr>w_os := os_shutdown os (ch_fd (tc_channel c)) (w_os w), w_shut := True\<rparr>)
       else Inr w))"

definition forceCloseInLoop ::
  "('e, 'o) os \<Rightarrow> ('e, 'o, 'u) world conn_callbacks \<Rightarrow> nat \<Rightarrow>
   ('e, 'o, 'u) world \<Rightarrow> ('e, 'o, 'u) world res" where
  "forceCloseInLoop os cbs tid w =
     rbind (assert (isInLoopThread tid w)) (\<lambda>_.
     with_conn w (\<lambda>c.
       if tc_state c \<noteq> kDisconnected then conn_handleClose os cbs tid w else Inr w))"

text \<open>The end of the output: no more write interest, and the pending \<open>shutdown\<close> if there is one.\<close>

definition output_done ::
  "('e, 'o) os \<Rightarrow> nat \<Rightarrow> ('e, 'o, 'u) world \<Rightarrow> ('e, 'o, 'u) world res" where
  "output_done os tid w =
     rbind (conn_channel os tid DisableWrite w) (\<lambda>w1.
     with_conn w1 (\<lambda>c.
       if tc_state c = kDisconnecting then shutdownInLoop os tid w1 else Inr w1))"

definition conn_handleWrite ::
  "('e, 'o) os \<Rightarrow> ('e, 'o, 'u) world conn_callbacks \<Rightarrow> nat \<Rightarrow>
   ('e, 'o, 'u) world \<Rightarrow> ('e, 'o, 'u) world res" where
  "conn_handleWrite os cbs tid w =
     rbind (assert (isInLoopThread tid w)) (\<lambda>_.
     with_conn w (\<lambda>c.
       if isWriting (tc_channel c) then
         if readableBytes (tc_outBuffer c) \<noteq> 0 then
           rbind (mem_read (peek (tc_outBuffer c)) (readableBytes (tc_outBuffer c))
                    (buf_data (tc_outBuffer c))) (\<lambda>data.
           case os_write os (ch_fd (tc_channel c)) data (w_os w) of
             (Inl err, o') \<Rightarrow> Inr (w\<lparr>w_os := o'\<rparr>)
           | (Inr n, o') \<Rightarrow>
               rbind (retrieve n (tc_outBuffer c)) (\<lambda>b.
               let w1 = w\<lparr>w_os := o', w_wire := w_wire w @ take n data,
                          w_conn := Some (c\<lparr>tc_outBuffer := b\<rparr>)\<rparr> in
               if readableBytes b = 0 \<and> tc_stSize c = 0
               then rbind (output_done os tid w1) (notify os (writeCompleteCallback cbs))
               else Inr w1))
         else if tc_stSize c \<noteq> 0 then
           (case os_sendfile os (ch_fd (tc_channel c)) (tc_sendFd c) (w_os w) of
              (Inl err, o') \<Rightarrow> Inr (w\<lparr>w_os := o'\<rparr>)
            | (Inr bytes, o') \<Rightarrow>
                let size = tc_stSize c - int (length bytes);
                    w1 = w\<lparr>w_os := o', w_wire := w_wire w @ bytes,
                           w_conn := Some (c\<lparr>tc_stSize := size\<rparr>)\<rparr> in
                if size = 0
                then rbind (output_done os tid w1) (\<lambda>w2.
                     Inr (w2\<lparr>w_os := os_close os (tc_sendFd c) (w_os w2)\<rparr>))
                else Inr w1)
         else Inr w
       else Inr w))"

subsection \<open>The interface for the application, from any thread\<close>

definition exec_task ::
  "('e, 'o) os \<Rightarrow> ('e, 'o, 'u) world conn_callbacks \<Rightarrow> nat \<Rightarrow> conn_task \<Rightarrow>
   ('e, 'o, 'u) world \<Rightarrow> ('e, 'o, 'u) world res" where
  "exec_task os cbs tid task =
     (case task of
        TSend data \<Rightarrow> sendInLoop os cbs tid data
      | TShutdown \<Rightarrow> shutdownInLoop os tid
      | TForceClose \<Rightarrow> forceCloseInLoop os cbs tid)"

text \<open>\<open>loop_->runInLoop\<close> with a task that captures a \<open>shared_ptr\<close>: it is held during an
  immediate run, and as long as the task is queued.\<close>

definition run_task ::
  "('e, 'o) os \<Rightarrow> ('e, 'o, 'u) world conn_callbacks \<Rightarrow> nat \<Rightarrow> conn_task \<Rightarrow>
   ('e, 'o, 'u) world \<Rightarrow> ('e, 'o, 'u) world res" where
  "run_task os cbs tid task w =
     (if isInLoopThread tid w
      then holding os (runInLoop (os_efd_write os) (exec_task os cbs tid) tid task) w
      else runInLoop (os_efd_write os) (exec_task os cbs tid) tid task (w\<lparr>w_refs := w_refs w + 1\<rparr>))"

definition conn_send ::
  "('e, 'o) os \<Rightarrow> ('e, 'o, 'u) world conn_callbacks \<Rightarrow> nat \<Rightarrow> string \<Rightarrow>
   ('e, 'o, 'u) world \<Rightarrow> ('e, 'o, 'u) world res" where
  "conn_send os cbs tid data w =
     with_conn w (\<lambda>c.
       if tc_state c \<noteq> kConnected then Inr w
       else if isInLoopThread tid w then sendInLoop os cbs tid data w
       else run_task os cbs tid (TSend data) w)"

definition conn_send_buffer ::
  "('e, 'o) os \<Rightarrow> ('e, 'o, 'u) world conn_callbacks \<Rightarrow> nat \<Rightarrow> buffer \<Rightarrow>
   ('e, 'o, 'u) world \<Rightarrow> (buffer \<times> ('e, 'o, 'u) world) res" where
  "conn_send_buffer os cbs tid b w =
     with_conn w (\<lambda>c.
       if tc_state c \<noteq> kConnected then Inr (b, w)
       else if isInLoopThread tid w then
         rbind (mem_read (peek b) (readableBytes b) (buf_data b)) (\<lambda>data.
         rbind (sendInLoop os cbs tid data w) (\<lambda>w1. Inr (retrieveAll b, w1)))
       else
         rbind (retrieveAllAsString b) (\<lambda>(str, b').
         rbind (run_task os cbs tid (TSend str) w) (\<lambda>w1. Inr (b', w1))))"

definition conn_shutdown ::
  "('e, 'o) os \<Rightarrow> ('e, 'o, 'u) world conn_callbacks \<Rightarrow> nat \<Rightarrow>
   ('e, 'o, 'u) world \<Rightarrow> ('e, 'o, 'u) world res" where
  "conn_shutdown os cbs tid w =
     with_conn w (\<lambda>c.
       if tc_state c = kConnected
       then run_task os cbs tid TShutdown (upd_conn (\<lambda>c. c\<lparr>tc_state := kDisconnecting\<rparr>) w)
       else Inr w)"

definition conn_forceClose ::
  "('e, 'o) os \<Rightarrow> ('e, 'o, 'u) world conn_callbacks \<Rightarrow> nat \<Rightarrow>
   ('e, 'o, 'u) world \<Rightarrow> ('e, 'o, 'u) world res" where
  "conn_forceClose os cbs tid w =
     with_conn w (\<lambda>c.
       if tc_state c \<noteq> kDisconnected then run_task os cbs tid TForceClose w else Inr w)"

definition conn_connected :: "tcp_conn \<Rightarrow> bool" where
  "conn_connected c \<longleftrightarrow> tc_state c = kConnected"

definition conn_disconnected :: "tcp_conn \<Rightarrow> bool" where
  "conn_disconnected c \<longleftrightarrow> tc_state c = kDisconnected"

definition setSendFd :: "int \<Rightarrow> int \<Rightarrow> tcp_conn \<Rightarrow> tcp_conn" where
  "setSendFd fd st_size c = c\<lparr>tc_sendFd := fd, tc_stSize := st_size\<rparr>"

subsection \<open>The loop's side\<close>

text \<open>The callbacks the constructor installs in the channel.\<close>

definition channel_callbacks ::
  "('e, 'o) os \<Rightarrow> ('e, 'o, 'u) world conn_callbacks \<Rightarrow> nat \<Rightarrow> ('e, 'o, 'u) world chan_callbacks" where
  "channel_callbacks os cbs tid =
     \<lparr> cb_read = Some (conn_handleRead os cbs tid), cb_write = Some (conn_handleWrite os cbs tid),
       cb_close = Some (conn_handleClose os cbs tid), cb_error = Some conn_handleError \<rparr>"

definition conn_events ::
  "('e, 'o) os \<Rightarrow> ('e, 'o, 'u) world conn_callbacks \<Rightarrow> nat \<Rightarrow> 32 word \<Rightarrow>
   ('e, 'o, 'u) world \<Rightarrow> ('e, 'o, 'u) world res" where
  "conn_events os cbs tid revents w =
     (let w1 = upd_conn (\<lambda>c. c\<lparr>tc_channel := setRevent revents (tc_channel c)\<rparr>) w in
      handleEvents (\<lambda>w. map_option tc_channel (w_conn w)) (isInLoopThread tid w1)
        (channel_callbacks os cbs tid) w1)"

text \<open>A round of queued tasks; their \<open>shared_ptr\<close>s go with the task vector at its end.\<close>

definition conn_runTasks ::
  "('e, 'o) os \<Rightarrow> ('e, 'o, 'u) world conn_callbacks \<Rightarrow> nat \<Rightarrow>
   ('e, 'o, 'u) world \<Rightarrow> ('e, 'o, 'u) world res" where
  "conn_runTasks os cbs tid w =
     (let n = length (el_tasks w) in
      rbind (runTasks (exec_task os cbs tid) w) (release os n))"

subsection \<open>Basic facts\<close>

definition write_bounded :: "('e, 'o) os \<Rightarrow> bool" where
  "write_bounded os \<longleftrightarrow> (\<forall>fd data o1 n o2. os_write os fd data o1 = (Inr n, o2) \<longrightarrow> n \<le> length data)"

lemma write_boundedD:
  "write_bounded os \<Longrightarrow> os_write os fd data o1 = (Inr n, o2) \<Longrightarrow> n \<le> length data"
  unfolding write_bounded_def by blast

text \<open>A callback that only changes the state of the application.\<close>

definition benign :: "('e, 'o, 'u) world callback \<Rightarrow> bool" where
  "benign cb \<longleftrightarrow> (\<forall>f. cb = Some f \<longrightarrow> (\<forall>w. \<exists>u. f w = Inr (w\<lparr>w_user := u\<rparr>)))"

lemma with_conn_Some [simp]: "w_conn w = Some c \<Longrightarrow> with_conn w f = f c"
  by (simp add: with_conn_def)

lemma isInLoopThread_world [simp]:
  "isInLoopThread tid (w\<lparr>w_conn := x\<rparr>) = isInLoopThread tid w"
  "isInLoopThread tid (w\<lparr>w_os := y\<rparr>) = isInLoopThread tid w"
  "isInLoopThread tid (w\<lparr>w_refs := n\<rparr>) = isInLoopThread tid w"
  "isInLoopThread tid (w\<lparr>w_user := u\<rparr>) = isInLoopThread tid w"
  "isInLoopThread tid (w\<lparr>w_wire := v\<rparr>) = isInLoopThread tid w"
  "isInLoopThread tid (w\<lparr>w_shut := b\<rparr>) = isInLoopThread tid w"
  for w :: "('e, 'o, 'u) world"
  by (simp_all add: isInLoopThread_def)

lemma isWriting_bit: "isWriting c \<longleftrightarrow> bit (ch_events c) 2"
  by (simp add: isWriting_def test_EPOLLOUT)

lemma isReading_bit: "isReading c \<longleftrightarrow> bit (ch_events c) 0"
  by (simp add: isReading_def test_EPOLLIN)

lemma holding_benign:
  assumes "benign (Some f)" and "0 < w_refs w"
  obtains u where "holding os f w = Inr (w\<lparr>w_user := u\<rparr>)"
proof -
  from assms(1) obtain u where "f (w\<lparr>w_refs := w_refs w + 1\<rparr>) = Inr (w\<lparr>w_refs := w_refs w + 1, w_user := u\<rparr>)"
    by (auto simp: benign_def)
  with assms(2) have "holding os f w = Inr (w\<lparr>w_user := u\<rparr>)"
    by (cases w) (simp add: holding_def release_def Let_def)
  then show ?thesis by (rule that)
qed

lemma notify_benign:
  assumes "benign cb" and "0 < w_refs w" and "w_conn w = Some c"
  obtains u where "notify os cb w = Inr (w\<lparr>w_user := u\<rparr>)"
proof (cases cb)
  case None
  then show ?thesis using assms(3) that [of "w_user w"] by (cases w) (simp add: notify_def)
next
  case (Some f)
  with assms(1) have "benign (Some f)" by simp
  from holding_benign [OF this assms(2)] obtain u where "holding os f w = Inr (w\<lparr>w_user := u\<rparr>)" .
  with Some assms(3) show ?thesis by (intro that) (simp add: notify_def)
qed

text \<open>A change of the interest of a registered channel that leaves some interest.\<close>

definition set_mask :: "chan_op \<Rightarrow> tcp_conn \<Rightarrow> tcp_conn" where
  "set_mask op c = c\<lparr>tc_channel := (tc_channel c)\<lparr>ch_events := mask_after op (ch_events (tc_channel c))\<rparr>\<rparr>"

lemma set_mask_fields [simp]:
  "tc_inBuffer (set_mask op c) = tc_inBuffer c" "tc_outBuffer (set_mask op c) = tc_outBuffer c"
  "tc_state (set_mask op c) = tc_state c" "tc_stSize (set_mask op c) = tc_stSize c"
  "tc_cfd (set_mask op c) = tc_cfd c" "tc_sendFd (set_mask op c) = tc_sendFd c"
  "ch_state (tc_channel (set_mask op c)) = ch_state (tc_channel c)"
  "ch_fd (tc_channel (set_mask op c)) = ch_fd (tc_channel c)"
  by (simp_all add: set_mask_def)

lemma set_mask_bits [simp]:
  "op \<noteq> DisableAll \<Longrightarrow> isReading (tc_channel c) \<Longrightarrow> isReading (tc_channel (set_mask op c))"
  "isWriting (tc_channel (set_mask EnableWrite c))"
  "\<not> isWriting (tc_channel (set_mask DisableWrite c))"
  by (cases op; simp add: set_mask_def isReading_bit mask_after_def bit_simps)
    (simp_all add: set_mask_def isWriting_bit mask_after_def bit_simps)

lemma conn_channel_registered:
  assumes "w_conn w = Some c" and "isInLoopThread tid w" and "ch_state (tc_channel c) = kAdded"
    and "isReading (tc_channel c)" and "op \<noteq> DisableAll"
  obtains o' where "conn_channel os tid op w = Inr (w\<lparr>w_conn := Some (set_mask op c), w_os := o'\<rparr>)"
proof -
  let ?ch = "(tc_channel c)\<lparr>ch_events := mask_after op (ch_events (tc_channel c))\<rparr>"
  have "isReading ?ch" using set_mask_bits(1) [OF assms(5,4)] by (simp add: set_mask_def)
  then have "\<not> isNoEvent ?ch" by (auto simp: isNoEvent_def isReading_bit)
  then have "updateChannel (os_ctl os) True () ?ch (w_os w)
      = Inr (?ch, poll_update (os_ctl os) CtlMod () ?ch (w_os w))"
    using assms(3) by (simp add: updateChannel_def)
  then show ?thesis
    using assms(1,2) by (intro that [of "fst (poll_update (os_ctl os) CtlMod () ?ch (w_os w))"])
      (simp add: conn_channel_def chan_do_update set_mask_def split: prod.split)
qed

subsection \<open>The output stream\<close>

definition streaming :: "tcp_conn \<Rightarrow> bool" where
  "streaming c \<longleftrightarrow>
     buffer_ok (tc_outBuffer c) \<and> tc_stSize c = 0 \<and>
     tc_state c \<in> {kConnected, kDisconnecting} \<and>
     ch_state (tc_channel c) = kAdded \<and> isReading (tc_channel c) \<and>
     (isWriting (tc_channel c) \<longleftrightarrow> readable (tc_outBuffer c) \<noteq> [])"

text \<open>
  The bytes taken by the kernel followed by those in the output buffer are \<open>acc\<close>, and the
  write side is shut down exactly when that was asked for and everything is out.
\<close>

definition stream_state :: "nat \<Rightarrow> nat \<Rightarrow> char list \<Rightarrow> ('e, 'o, 'u) world \<Rightarrow> tcp_conn \<Rightarrow> bool" where
  "stream_state tid room acc w c \<longleftrightarrow>
     w_conn w = Some c \<and> streaming c \<and> isInLoopThread tid w \<and> 0 < w_refs w \<and>
     has_room room (tc_outBuffer c) \<and>
     w_wire w @ readable (tc_outBuffer c) = acc \<and>
     (w_shut w \<longleftrightarrow> tc_state c = kDisconnecting \<and> readable (tc_outBuffer c) = [])"

lemma stream_stateD:
  assumes "stream_state tid room acc w c"
  shows "w_conn w = Some c" and "streaming c" and "isInLoopThread tid w" and "0 < w_refs w"
    and "has_room room (tc_outBuffer c)" and "w_wire w @ readable (tc_outBuffer c) = acc"
    and "w_shut w \<longleftrightarrow> tc_state c = kDisconnecting \<and> readable (tc_outBuffer c) = []"
  using assms by (simp_all add: stream_state_def)

lemma streamingD:
  assumes "streaming c"
  shows "buffer_ok (tc_outBuffer c)" and "tc_stSize c = 0"
    and "ch_state (tc_channel c) = kAdded" and "isReading (tc_channel c)"
    and "isWriting (tc_channel c) \<longleftrightarrow> readable (tc_outBuffer c) \<noteq> []"
    and "readableBytes (tc_outBuffer c) = length (readable (tc_outBuffer c))"
    and "tc_state c = kConnected \<or> tc_state c = kDisconnecting"
  using assms by (auto simp: streaming_def readableBytes_length)

lemma stream_state_user [simp]:
  "stream_state tid room acc (w\<lparr>w_user := u\<rparr>) c = stream_state tid room acc w c"
  by (simp add: stream_state_def)

text \<open>The direct write takes a prefix of the data, and only when nothing is waiting.\<close>

lemma direct_write_cases:
  assumes conn: "w_conn w = Some c" and ok: "buffer_ok (tc_outBuffer c)" and refs: "0 < w_refs w"
    and wb: "write_bounded os" and wc: "benign (writeCompleteCallback cbs)"
  obtains n o' u where "direct_write os cbs data w
      = Inr (n, w\<lparr>w_os := o', w_wire := w_wire w @ take n data, w_user := u\<rparr>)"
    and "n \<le> length data" and "0 < n \<longrightarrow> readable (tc_outBuffer c) = []"
    and "o' = w_os w \<or> o' = snd (os_write os (ch_fd (tc_channel c)) data (w_os w))"
proof (cases "\<not> isWriting (tc_channel c) \<and> readable (tc_outBuffer c) = []")
  case False
  then have "direct_write os cbs data w = Inr (0, w)"
    using conn readableBytes_length [OF ok] by (auto simp: direct_write_def)
  then show ?thesis
    by (intro that [of 0 "w_user w" "w_os w"]) (cases w, simp_all)
next
  case True
  then have test: "\<not> isWriting (tc_channel c) \<and> readableBytes (tc_outBuffer c) = 0"
    using readableBytes_length [OF ok] by simp
  obtain r o' where r: "os_write os (ch_fd (tc_channel c)) data (w_os w) = (r, o')"
    by (cases "os_write os (ch_fd (tc_channel c)) data (w_os w)")
  show ?thesis
  proof (cases r)
    case (Inl err)
    then have "direct_write os cbs data w = Inr (0, w\<lparr>w_os := o'\<rparr>)"
      using conn test r by (simp add: direct_write_def)
    then show ?thesis using r by (intro that [of 0 "w_user w" o']) (cases w, simp_all)
  next
    case (Inr n)
    let ?w = "w\<lparr>w_os := o', w_wire := w_wire w @ take n data\<rparr>"
    have n: "n \<le> length data" using write_boundedD [OF wb] r Inr by simp
    have "\<exists>u. direct_write os cbs data w = Inr (n, ?w\<lparr>w_user := u\<rparr>)"
    proof (cases "n < length data \<or> writeCompleteCallback cbs = None")
      case quiet: True
      then have "direct_write os cbs data w = Inr (n, ?w)"
        using conn test r Inr by (auto simp: direct_write_def Let_def)
      then show ?thesis by (intro exI [of _ "w_user w"]) (cases w, simp)
    next
      case False
      then obtain f where f: "writeCompleteCallback cbs = Some f" by auto
      moreover have "0 < w_refs ?w" using refs by simp
      ultimately obtain u where "holding os f ?w = Inr (?w\<lparr>w_user := u\<rparr>)"
        using wc holding_benign by metis
      then show ?thesis using conn test r Inr f False by (auto simp: direct_write_def Let_def)
    qed
    then obtain u where "direct_write os cbs data w = Inr (n, ?w\<lparr>w_user := u\<rparr>)" by blast
    then show ?thesis using n r True by (intro that [of n u o']) simp_all
  qed
qed

lemma direct_write_stream:
  assumes st: "stream_state tid room acc w c" and wb: "write_bounded os"
    and wc: "benign (writeCompleteCallback cbs)"
  obtains n w1 where "direct_write os cbs data w = Inr (n, w1)" and "n \<le> length data"
    and "stream_state tid room (acc @ take n data) w1 c"
proof -
  note s = stream_stateD [OF st]
  from direct_write_cases [OF s(1) streamingD(1) [OF s(2)] s(4) wb wc, of data] obtain n o' u where
    dw: "direct_write os cbs data w = Inr (n, w\<lparr>w_os := o', w_wire := w_wire w @ take n data, w_user := u\<rparr>)"
    and n: "n \<le> length data" "0 < n \<longrightarrow> readable (tc_outBuffer c) = []" by blast
  have "stream_state tid room (acc @ take n data)
      (w\<lparr>w_os := o', w_wire := w_wire w @ take n data, w_user := u\<rparr>) c"
    using st n(2) by (cases "n = 0") (auto simp: stream_state_def)
  with dw n(1) show ?thesis by (rule that)
qed

lemma sendInLoop_stream:
  assumes st: "stream_state tid (length data + k) acc w c" and wb: "write_bounded os"
    and wc: "benign (writeCompleteCallback cbs)" and conn: "tc_state c = kConnected"
  obtains w' c' where "sendInLoop os cbs tid data w = Inr w'"
    and "stream_state tid k (acc @ data) w' c'" and "tc_state c' = kConnected"
proof -
  from st wb wc obtain n w1 where dw: "direct_write os cbs data w = Inr (n, w1)"
    and n: "n \<le> length data" and st1: "stream_state tid (length data + k) (acc @ take n data) w1 c"
    by (rule direct_write_stream)
  note s = stream_stateD [OF st] and s1 = stream_stateD [OF st1]
    and c = streamingD [OF stream_stateD(2) [OF st]]
  show ?thesis
  proof (cases "n < length data")
    case False
    with n have "n = length data" by simp
    moreover from this have "sendInLoop os cbs tid data w = Inr w1"
      using s s1 c conn dw by (simp add: sendInLoop_def)
    moreover have "stream_state tid k (acc @ take n data) w1 c"
      using st1 by (simp add: stream_state_def has_room_def)
    ultimately show ?thesis using conn by (intro that) simp_all
  next
    case True
    have "has_room (length (drop n data) + k) (tc_outBuffer c)"
      using s(5) n by (simp add: has_room_def)
    with c(1) obtain b where b: "append_buf (drop n data) (tc_outBuffer c) = Inr b" "buffer_ok b"
        "has_room k b" "readable b = readable (tc_outBuffer c) @ drop n data"
      using buf.enq_law by blast
    let ?c = "c\<lparr>tc_outBuffer := b\<rparr>"
    let ?w = "upd_conn (\<lambda>c. c\<lparr>tc_outBuffer := b\<rparr>) w1"
    have w: "w_conn ?w = Some ?c" "isInLoopThread tid ?w"
      using s1 by (simp_all add: upd_conn_def)
    have "\<exists>o' c'. (if \<not> isWriting (tc_channel c) then conn_channel os tid EnableWrite ?w else Inr ?w)
        = Inr (?w\<lparr>w_conn := Some c', w_os := o'\<rparr>) \<and> c' \<in> {?c, set_mask EnableWrite ?c} \<and>
        isWriting (tc_channel c')"
    proof (cases "isWriting (tc_channel c)")
      case True
      then show ?thesis using w(1) by (intro exI [of _ "w_os ?w"] exI [of _ ?c]) (cases w1, simp)
    next
      case False
      obtain o' where "conn_channel os tid EnableWrite ?w
          = Inr (?w\<lparr>w_conn := Some (set_mask EnableWrite ?c), w_os := o'\<rparr>)"
        by (rule conn_channel_registered [OF w, of EnableWrite os]) (simp_all add: c(3,4))
      then show ?thesis
        using False by (intro exI [of _ o'] exI [of _ "set_mask EnableWrite ?c"]) simp
    qed
    moreover have "sendInLoop os cbs tid data w
        = (if \<not> isWriting (tc_channel c) then conn_channel os tid EnableWrite ?w else Inr ?w)"
      using s(1,3) s1(1) conn dw True b(1) by (simp add: sendInLoop_def Let_def)
    ultimately obtain o' c' where
        w': "sendInLoop os cbs tid data w = Inr (?w\<lparr>w_conn := Some c', w_os := o'\<rparr>)"
        "c' \<in> {?c, set_mask EnableWrite ?c}" "isWriting (tc_channel c')"
      by metis
    have c': "tc_outBuffer c' = b" "tc_state c' = kConnected" "streaming c'"
      using w'(2,3) b(2,4) c conn True by (auto simp: streaming_def)
    have "w_wire w1 @ readable b = acc @ data"
      using s1(6) b(4) by (metis append_assoc append_take_drop_id)
    then have "stream_state tid k (acc @ data) (?w\<lparr>w_conn := Some c', w_os := o'\<rparr>) c'"
      using c' b(3) s1(3,4,7) conn by (simp add: stream_state_def upd_conn_def)
    then show ?thesis using c'(2) by (rule that [OF w'(1)])
  qed
qed

lemma stream_state_room:
  "stream_state tid k acc w c \<Longrightarrow> j \<le> k \<Longrightarrow> stream_state tid j acc w c"
  by (simp add: stream_state_def has_room_def)

lemma conn_send_stream:
  assumes st: "stream_state tid (length data + k) acc w c" and wb: "write_bounded os"
    and wc: "benign (writeCompleteCallback cbs)"
  obtains w' c' where "conn_send os cbs tid data w = Inr w'" and "tc_state c' = tc_state c"
    and "stream_state tid k (if tc_state c = kConnected then acc @ data else acc) w' c'"
proof (cases "tc_state c = kConnected")
  case True
  from sendInLoop_stream [OF assms True] obtain w' c' where
    "sendInLoop os cbs tid data w = Inr w'" "stream_state tid k (acc @ data) w' c'"
    "tc_state c' = kConnected" .
  with True show ?thesis
    using stream_stateD [OF st] by (intro that [of w' c']) (simp_all add: conn_send_def)
next
  case False
  then show ?thesis
    using stream_stateD [OF st] stream_state_room [OF st, of k]
    by (intro that [of w c]) (simp_all add: conn_send_def)
qed

text \<open>When the output buffer has run empty: write interest off, pending shutdown done.\<close>

lemma output_done_stream:
  assumes "w_conn w = Some c" and "isInLoopThread tid w" and "0 < w_refs w"
    and "buffer_ok (tc_outBuffer c)" and "readable (tc_outBuffer c) = []"
    and "tc_stSize c = 0" and "tc_state c = kConnected \<or> tc_state c = kDisconnecting"
    and "ch_state (tc_channel c) = kAdded" and "isReading (tc_channel c)"
    and "\<not> w_shut w" and "has_room k (tc_outBuffer c)" and "w_wire w = acc"
  obtains w' where "output_done os tid w = Inr w'" and "stream_state tid k acc w' (set_mask DisableWrite c)"
proof -
  let ?c = "set_mask DisableWrite c"
  obtain o' where o': "conn_channel os tid DisableWrite w = Inr (w\<lparr>w_conn := Some ?c, w_os := o'\<rparr>)"
    by (rule conn_channel_registered [OF assms(1,2), of DisableWrite os]) (simp_all add: assms)
  let ?w = "w\<lparr>w_conn := Some ?c, w_os := o'\<rparr>"
  let ?w' = "if tc_state c = kDisconnecting
    then ?w\<lparr>w_os := os_shutdown os (ch_fd (tc_channel c)) o', w_shut := True\<rparr> else ?w"
  have c: "streaming ?c"
    using assms by (auto simp: streaming_def)
  have "output_done os tid w = Inr ?w'"
    using assms(2) by (simp add: output_done_def o' shutdownInLoop_def)
  moreover have "stream_state tid k acc ?w' ?c"
    using assms c by (simp add: stream_state_def)
  ultimately show ?thesis by (rule that)
qed

lemma output_done_wire: "output_done os tid w = Inr w' \<Longrightarrow> w_wire w' = w_wire w"
proof -
  assume run: "output_done os tid w = Inr w'"
  then obtain w1 where w1: "conn_channel os tid DisableWrite w = Inr w1"
    and rest: "w' = w1 \<or> shutdownInLoop os tid w1 = Inr w'"
    by (fastforce simp: output_done_def with_conn_def res_simps split: option.splits if_splits)
  from w1 have "w_wire w1 = w_wire w"
    by (auto simp: conn_channel_def with_conn_def res_simps split: option.splits)
  with rest show ?thesis
    by (cases "w_conn w1") (auto simp: shutdownInLoop_def with_conn_def res_simps split: if_splits)
qed

lemma handleWrite_stream:
  assumes st: "stream_state tid k acc w c" and wb: "write_bounded os"
    and wc: "benign (writeCompleteCallback cbs)"
  obtains w' c' where "conn_handleWrite os cbs tid w = Inr w'" and "tc_state c' = tc_state c"
    and "stream_state tid k acc w' c'"
proof (cases "readable (tc_outBuffer c) = []")
  case True
  note s = stream_stateD [OF st] and c = streamingD [OF stream_stateD(2) [OF st]]
  have "conn_handleWrite os cbs tid w = Inr w"
    using s c True by (simp add: conn_handleWrite_def)
  then show ?thesis using st by (rule that [OF _ refl])
next
  case False
  note s = stream_stateD [OF st] and c = streamingD [OF stream_stateD(2) [OF st]]
  let ?q = "readable (tc_outBuffer c)"
  obtain r o' where r: "os_write os (ch_fd (tc_channel c)) ?q (w_os w) = (r, o')"
    by (cases "os_write os (ch_fd (tc_channel c)) ?q (w_os w)")
  have rd: "mem_read (peek (tc_outBuffer c)) (readableBytes (tc_outBuffer c))
      (buf_data (tc_outBuffer c)) = Inr ?q"
    using c by (simp add: peek_def mem_simps)
  show ?thesis
  proof (cases r)
    case (Inl err)
    have "conn_handleWrite os cbs tid w = Inr (w\<lparr>w_os := o'\<rparr>)"
      using s c False rd r Inl by (simp add: conn_handleWrite_def)
    moreover have "stream_state tid k acc (w\<lparr>w_os := o'\<rparr>) c"
      using st by (simp add: stream_state_def)
    ultimately show ?thesis by (rule that [OF _ refl])
  next
    case (Inr n)
    have n: "n \<le> length ?q" using write_boundedD [OF wb] r Inr by simp
    from retrieve_correct [OF c(1) n] obtain b where b: "retrieve n (tc_outBuffer c) = Inr b"
      "buffer_ok b" "readable b = drop n ?q" "writerIndex b \<le> writerIndex (tc_outBuffer c)" .
    let ?c = "c\<lparr>tc_outBuffer := b\<rparr>"
    let ?w = "w\<lparr>w_os := o', w_wire := w_wire w @ take n ?q, w_conn := Some ?c\<rparr>"
    have room: "has_room k b" using s(5) b(4) by (simp add: has_room_def)
    have acc: "(w_wire w @ take n ?q) @ drop n ?q = acc" using s(6) by simp
    show ?thesis
    proof (cases "drop n ?q = []")
      case more: False
      have "conn_handleWrite os cbs tid w = Inr ?w"
        using s c False rd r Inr b more
        by (simp add: conn_handleWrite_def Let_def readableBytes_length)
      moreover have "stream_state tid k acc ?w ?c"
        using st s c b more room acc False by (simp add: stream_state_def streaming_def)
      ultimately show ?thesis by (intro that [of ?w ?c]) simp_all
    next
      case all: True
      obtain w1 where w1: "output_done os tid ?w = Inr w1"
          "stream_state tid k acc w1 (set_mask DisableWrite ?c)"
        by (rule output_done_stream [of ?w ?c tid k acc os])
          (use s c b room acc all False in simp_all)
      from notify_benign [OF wc stream_stateD(4,1) [OF w1(2)], of os] obtain u where
        u: "notify os (writeCompleteCallback cbs) w1 = Inr (w1\<lparr>w_user := u\<rparr>)" .
      have "conn_handleWrite os cbs tid w = Inr (w1\<lparr>w_user := u\<rparr>)"
        using s c False rd r Inr b all w1(1) u
        by (simp add: conn_handleWrite_def Let_def readableBytes_length)
      then show ?thesis
        using w1(2) by (intro that [of "w1\<lparr>w_user := u\<rparr>" "set_mask DisableWrite ?c"]) simp_all
    qed
  qed
qed

lemma conn_shutdown_stream:
  assumes st: "stream_state tid k acc w c"
  obtains w' c' where "conn_shutdown os cbs tid w = Inr w'" and "tc_state c' = kDisconnecting"
    and "stream_state tid k acc w' c'"
proof (cases "tc_state c = kConnected")
  case False
  note s = stream_stateD [OF st] and c = streamingD [OF stream_stateD(2) [OF st]]
  have "conn_shutdown os cbs tid w = Inr w" using s False by (simp add: conn_shutdown_def)
  then show ?thesis using st c False by (intro that [of w c]) simp_all
next
  case True
  note s = stream_stateD [OF st] and c = streamingD [OF stream_stateD(2) [OF st]]
  let ?c = "c\<lparr>tc_state := kDisconnecting\<rparr>"
  let ?w = "w\<lparr>w_conn := Some ?c\<rparr>"
  let ?w' = "if readable (tc_outBuffer c) = []
    then ?w\<lparr>w_os := os_shutdown os (ch_fd (tc_channel c)) (w_os w), w_shut := True\<rparr> else ?w"
  have "conn_shutdown os cbs tid w = Inr ?w'"
    using s c True
    by (cases w) (simp add: conn_shutdown_def upd_conn_def run_task_def holding_def runInLoop_def
        exec_task_def shutdownInLoop_def release_def isInLoopThread_def)
  moreover have "stream_state tid k acc ?w' ?c"
    using st s c True by (auto simp: stream_state_def streaming_def)
  ultimately show ?thesis by (intro that [of ?w' ?c]) simp_all
qed

subsection \<open>Runs of a connection\<close>

text \<open>What a connection sees in the loop thread: the application sends or shuts down, the
  socket becomes writable.\<close>

datatype conn_op = Send string | Writable | Shutdown

fun conn_step ::
  "('e, 'o) os \<Rightarrow> ('e, 'o, 'u) world conn_callbacks \<Rightarrow> nat \<Rightarrow> conn_op \<Rightarrow>
   ('e, 'o, 'u) world \<Rightarrow> ('e, 'o, 'u) world res" where
  "conn_step os cbs tid (Send m) w = conn_send os cbs tid m w"
| "conn_step os cbs tid Writable w = conn_handleWrite os cbs tid w"
| "conn_step os cbs tid Shutdown w = conn_shutdown os cbs tid w"

text \<open>The messages sent before the first \<open>shutdown\<close>, and the size of all of them.\<close>

fun accepted :: "conn_op list \<Rightarrow> string" where
  "accepted [] = []"
| "accepted (Send m # ops) = m @ accepted ops"
| "accepted (Writable # ops) = accepted ops"
| "accepted (Shutdown # ops) = []"

fun total_sent :: "conn_op list \<Rightarrow> nat" where
  "total_sent [] = 0"
| "total_sent (Send m # ops) = length m + total_sent ops"
| "total_sent (op # ops) = total_sent ops"

lemma conn_run_stream:
  assumes "stream_state tid (total_sent ops) acc w c" and "write_bounded os"
    and "benign (writeCompleteCallback cbs)"
  shows "\<exists>w' c'. run_list (conn_step os cbs tid) ops w = Inr w' \<and>
     stream_state tid 0 (acc @ (if tc_state c = kConnected then accepted ops else [])) w' c' \<and>
     (tc_state c' = kDisconnecting \<longleftrightarrow> tc_state c = kDisconnecting \<or> Shutdown \<in> set ops)"
  using assms(1)
proof (induction ops arbitrary: acc w c)
  case Nil
  then show ?case by auto
next
  case (Cons op ops)
  have states: "tc_state c = kConnected \<or> tc_state c = kDisconnecting"
    using streamingD(7) [OF stream_stateD(2) [OF Cons.prems]] .
  show ?case
  proof (cases op)
    case (Send m)
    then have st: "stream_state tid (length m + total_sent ops) acc w c" using Cons.prems by simp
    from conn_send_stream [OF st assms(2,3)] obtain w1 c1 where
      "conn_send os cbs tid m w = Inr w1" "tc_state c1 = tc_state c"
      "stream_state tid (total_sent ops) (if tc_state c = kConnected then acc @ m else acc) w1 c1" .
    with Cons.IH [of _ w1 c1] Send states show ?thesis by fastforce
  next
    case Writable
    then have st: "stream_state tid (total_sent ops) acc w c" using Cons.prems by simp
    from handleWrite_stream [OF st assms(2,3)] obtain w1 c1 where
      "conn_handleWrite os cbs tid w = Inr w1" "tc_state c1 = tc_state c"
      "stream_state tid (total_sent ops) acc w1 c1" .
    with Cons.IH [of acc w1 c1] Writable states show ?thesis by fastforce
  next
    case Shutdown
    then have st: "stream_state tid (total_sent ops) acc w c" using Cons.prems by simp
    from conn_shutdown_stream [OF st] obtain w1 c1 where
      "conn_shutdown os cbs tid w = Inr w1" "tc_state c1 = kDisconnecting"
      "stream_state tid (total_sent ops) acc w1 c1" .
    with Cons.IH [of acc w1 c1] Shutdown show ?thesis by simp
  qed
qed

definition fresh_world :: "nat \<Rightarrow> int \<Rightarrow> ('e, 'o, 'u) world \<Rightarrow> bool" where
  "fresh_world tid fd w \<longleftrightarrow>
     w_conn w = Some (new_connection fd) \<and> isInLoopThread tid w \<and> 0 < w_refs w \<and>
     w_wire w = [] \<and> \<not> w_shut w"

lemma enableRead_stream:
  assumes "fresh_world tid fd w" and "benign (connectionCallback cbs)" and "k + kCheapPrepend \<le> kMaxSize"
  obtains w' c' where "conn_enableRead os cbs tid w = Inr w'" and "stream_state tid k [] w' c'"
    and "tc_state c' = kConnected" and "tc_inBuffer c' = new_buffer kInitialSize"
proof -
  let ?c = "(new_connection fd)\<lparr>tc_state := kConnected\<rparr>"
  let ?ch = "(new_channel fd)\<lparr>ch_events := EPOLLIN OR EPOLLPRI, ch_state := kAdded\<rparr>"
  let ?o = "fst (poll_update (os_ctl os) CtlAdd () ?ch (w_os w))"
  let ?c1 = "?c\<lparr>tc_channel := ?ch\<rparr>"
  let ?w = "w\<lparr>w_conn := Some ?c1, w_os := ?o\<rparr>"
  have mask: "(EPOLLIN OR EPOLLPRI) \<noteq> 0" by (simp add: epoll_consts)
  have w: "w_conn w = Some (new_connection fd)" "isInLoopThread tid w" "0 < w_refs w"
    using assms(1) by (simp_all add: fresh_world_def)
  have "conn_channel os tid EnableRead (upd_conn (\<lambda>c. c\<lparr>tc_state := kConnected\<rparr>) w) = Inr ?w"
    using w mask by (simp add: conn_channel_def upd_conn_def chan_do_update updateChannel_def
        new_connection_def new_channel_def mask_after_def isNoEvent_def Let_def split: prod.split)
  moreover obtain u where "notify os (connectionCallback cbs) ?w = Inr (?w\<lparr>w_user := u\<rparr>)"
    by (rule notify_benign [OF assms(2), of ?w ?c1 os]) (use w in simp_all)
  ultimately have run: "conn_enableRead os cbs tid w = Inr (?w\<lparr>w_user := u\<rparr>)"
    using w by (simp add: conn_enableRead_def) (simp add: new_connection_def)
  have "isReading ?ch \<and> \<not> isWriting ?ch"
    by (simp add: isReading_bit isWriting_bit bit_simps)
  then have "stream_state tid k [] (?w\<lparr>w_user := u\<rparr>) ?c1"
    using assms(1,3) by (simp add: stream_state_def streaming_def fresh_world_def new_connection_def
        new_buffer_ok new_buffer_empty new_buffer_room)
  then show ?thesis by (rule that [OF run]) (simp_all only: tcp_conn.simps new_connection_def)
qed

subsection \<open>Closing\<close>

text \<open>A close callback that gives up one \<open>shared_ptr\<close>, as the server's and the client's do.\<close>

definition drops_ref :: "('e, 'o, 'u) world callback \<Rightarrow> bool" where
  "drops_ref cb \<longleftrightarrow> (\<exists>f. cb = Some f \<and> (\<forall>w. \<exists>u. f w = Inr (w\<lparr>w_refs := w_refs w - 1, w_user := u\<rparr>)))"

definition closed_conn :: "tcp_conn \<Rightarrow> tcp_conn" where
  "closed_conn c = c\<lparr>tc_state := kDisconnected,
     tc_channel := (tc_channel c)\<lparr>ch_events := 0, ch_state := kDeleted\<rparr>\<rparr>"

lemma drop_last_ref:
  assumes "drops_ref cb" and "w_conn w = Some c" and "tc_state c = kDisconnected" and "0 < w_refs w"
  obtains w' where "notify os cb w = Inr w'"
    and "w_conn w' = (if w_refs w = 1 then None else Some c)"
proof -
  let ?w = "w\<lparr>w_refs := w_refs w + 1\<rparr>"
  from assms(1) obtain f where f: "cb = Some f"
    and drop: "\<And>w. \<exists>u. f w = Inr (w\<lparr>w_refs := w_refs w - 1, w_user := u\<rparr>)"
    by (auto simp: drops_ref_def)
  obtain u where "f ?w = Inr (?w\<lparr>w_refs := w_refs ?w - 1, w_user := u\<rparr>)" using drop by blast
  then have "notify os cb w = release os 1 (w\<lparr>w_refs := w_refs w, w_user := u\<rparr>)"
    using f assms(2) by (simp add: notify_def holding_def)
  then show ?thesis
    using assms(2-4) by (cases "w_refs w = 1")
      (auto intro!: that simp: release_def destroy_conn_def Let_def)
qed

lemma conn_handleClose_effect:
  assumes "w_conn w = Some c" and "isInLoopThread tid w" and "0 < w_refs w"
    and "tc_state c = kConnected \<or> tc_state c = kDisconnecting"
    and "ch_state (tc_channel c) = kAdded"
    and "benign (connectionCallback cbs)" and "drops_ref (closeCallback cbs)"
  obtains w' where "conn_handleClose os cbs tid w = Inr w'"
    and "w_conn w' = (if w_refs w = 1 then None else Some (closed_conn c))"
proof -
  let ?c = "closed_conn c"
  let ?ch = "(tc_channel c)\<lparr>ch_events := 0, ch_state := kDeleted\<rparr>"
  let ?o = "fst (poll_update (os_ctl os) CtlDel () ?ch (w_os w))"
  let ?w = "w\<lparr>w_conn := Some ?c, w_os := ?o\<rparr>"
  have "conn_channel os tid DisableAll (upd_conn (\<lambda>c. c\<lparr>tc_state := kDisconnected\<rparr>) w) = Inr ?w"
    using assms(1,2,5) by (simp add: conn_channel_def upd_conn_def chan_do_update updateChannel_def
        closed_conn_def mask_after_def isNoEvent_def Let_def split: prod.split)
  moreover obtain u where u: "notify os (connectionCallback cbs) ?w = Inr (?w\<lparr>w_user := u\<rparr>)"
    by (rule notify_benign [OF assms(6), of ?w ?c os]) (use assms(3) in simp_all)
  moreover obtain w' where "notify os (closeCallback cbs) (?w\<lparr>w_user := u\<rparr>) = Inr w'"
      "w_conn w' = (if w_refs w = 1 then None else Some ?c)"
    by (rule drop_last_ref [OF assms(7), of "?w\<lparr>w_user := u\<rparr>" ?c os])
      (use assms(3) in \<open>simp_all add: closed_conn_def\<close>)
  ultimately show ?thesis
    using assms(1,2,4) by (intro that [of w']) (simp_all add: conn_handleClose_def)
qed

lemma readFd_eof:
  "buffer_ok b \<Longrightarrow> readFd (\<lambda>_. ReadvData []) b = Inr (0, None, b)"
  using buffer_okD [of b] by (simp add: readFd_def Let_def mem_write_def beginWrite_def sz_add_small)

subsection \<open>Properties\<close>

text \<open>C1. A connection delivers its output as one stream, and closes it only at its end.  For
  every sequence of sends, writable events and shutdowns in the loop thread, whatever part
  of the data each \<open>write\<close> takes and however often it fails: no assert fails, the bytes
  the kernel took followed by those still in the output buffer are exactly the messages
  sent before the first \<open>shutdown\<close>, in order; write interest is on exactly while bytes
  are left; and \<open>shutdown(SHUT_WR)\<close> has been called exactly when a shutdown was asked for
  and no byte is left.  It relies on \<open>write\<close> taking at most the bytes it is given; the
  write-complete and connection callbacks may do what they like with the application's
  state.\<close>

theorem tcp_stream:
  assumes "fresh_world tid fd w" and "write_bounded os"
    and "benign (connectionCallback cbs)" and "benign (writeCompleteCallback cbs)"
    and "total_sent ops + kCheapPrepend \<le> kMaxSize"
  shows "\<exists>w' c. rbind (conn_enableRead os cbs tid w) (run_list (conn_step os cbs tid) ops) = Inr w' \<and>
     w_conn w' = Some c \<and> w_wire w' @ readable (tc_outBuffer c) = accepted ops \<and>
     (isWriting (tc_channel c) \<longleftrightarrow> readable (tc_outBuffer c) \<noteq> []) \<and>
     (w_shut w' \<longleftrightarrow> Shutdown \<in> set ops \<and> readable (tc_outBuffer c) = [])"
proof -
  obtain w1 c1 where w1: "conn_enableRead os cbs tid w = Inr w1"
      "stream_state tid (total_sent ops) [] w1 c1" "tc_state c1 = kConnected"
    using enableRead_stream [OF assms(1,3,5)] by metis
  from conn_run_stream [OF w1(2) assms(2,4)] w1(3) obtain w' c where
    w': "run_list (conn_step os cbs tid) ops w1 = Inr w'" "stream_state tid 0 (accepted ops) w' c"
      "tc_state c = kDisconnecting \<longleftrightarrow> Shutdown \<in> set ops"
    by auto
  note s = stream_stateD [OF w'(2)]
  show ?thesis
    using w1(1) w'(1,3) s(1,6,7) streamingD(5) [OF s(2)] by (intro exI [of _ w'] exI [of _ c]) simp
qed

text \<open>An operating system whose \<open>write\<close> takes at most three bytes and whose peer has closed.\<close>

definition slow_os :: "(nat, unit interest_list) os" where
  "slow_os = \<lparr> os_efd_write = counter_write, os_ctl = epoll_ref,
     os_write = (\<lambda>fd data k. (Inr (min 3 (length data)), k)),
     os_sendfile = (\<lambda>fd sfd k. (Inl EAGAIN, k)),
     os_readv = (\<lambda>fd lens k. (ReadvData [], k)),
     os_shutdown = (\<lambda>fd k. k), os_close = (\<lambda>fd k. k) \<rparr>"

definition first_world :: "nat \<Rightarrow> (nat, unit interest_list, nat) world" where
  "first_world refs = \<lparr> el_tid = 1, el_quit = False, el_tasks = [], el_runningTasks = False,
     el_looping = True, el_wakeupfd = 0, w_conn = Some (new_connection 5), w_os = Map.empty,
     w_refs = refs, w_user = 0, w_wire = [], w_shut = False \<rparr>"

definition quiet_callbacks :: "(nat, unit interest_list, nat) world conn_callbacks" where
  "quiet_callbacks = \<lparr> connectionCallback = None, messageCallback = None,
     closeCallback = Some (\<lambda>w. Inr (w\<lparr>w_refs := w_refs w - 1\<rparr>)), writeCompleteCallback = None \<rparr>"

lemma slow_os_bounded: "write_bounded slow_os"
  by (auto simp: write_bounded_def slow_os_def)

lemma quiet_benign: "benign (connectionCallback quiet_callbacks)"
    "benign (writeCompleteCallback quiet_callbacks)"
  by (simp_all add: benign_def quiet_callbacks_def)

lemma first_fresh: "0 < refs \<Longrightarrow> fresh_world 1 5 (first_world refs)"
  by (simp add: fresh_world_def first_world_def isInLoopThread_def)

theorem tcp_stream_witness:
  "\<exists>w' c. rbind (conn_enableRead slow_os quiet_callbacks 1 (first_world 1))
       (run_list (conn_step slow_os quiet_callbacks 1)
          [Send ''hello'', Shutdown, Send ''late'', Writable]) = Inr w' \<and>
     w_conn w' = Some c \<and> w_wire w' @ readable (tc_outBuffer c) = ''hello'' \<and>
     (isWriting (tc_channel c) \<longleftrightarrow> readable (tc_outBuffer c) \<noteq> []) \<and>
     (w_shut w' \<longleftrightarrow> readable (tc_outBuffer c) = [])"
  using tcp_stream [OF first_fresh slow_os_bounded quiet_benign,
      of 1 "[Send ''hello'', Shutdown, Send ''late'', Writable]"]
  by (simp add: kCheapPrepend_def kMaxSize_def)

text \<open>C32. Closing from inside \<open>handleEvents\<close>: when the peer closes and the close callback
  gives up the last \<open>shared_ptr\<close>, as the server in the loop's own thread does, the
  connection is destroyed inside its read callback and \<open>handleEvents\<close> then reads the
  \<open>revents_\<close> of the destroyed channel.  With a further \<open>shared_ptr\<close> elsewhere the same event
  ends normally, with the connection disconnected and its channel out of the poller.\<close>

theorem close_in_handleEvents:
  assumes "w_conn w = Some c" and "isInLoopThread tid w" and "0 < w_refs w"
    and "tc_state c = kConnected \<or> tc_state c = kDisconnecting"
    and "ch_state (tc_channel c) = kAdded" and "buffer_ok (tc_inBuffer c)"
    and "benign (connectionCallback cbs)" and "drops_ref (closeCallback cbs)"
    and "\<And>lens. fst (os_readv os (tc_cfd c) lens (w_os w)) = ReadvData []"
  shows "if w_refs w = 1 then conn_events os cbs tid EPOLLIN w = Inl UseAfterFree
         else \<exists>w' c'. conn_events os cbs tid EPOLLIN w = Inr w' \<and> w_conn w' = Some c' \<and>
                tc_state c' = kDisconnected \<and> ch_state (tc_channel c') = kDeleted"
proof -
  let ?c = "c\<lparr>tc_channel := setRevent EPOLLIN (tc_channel c)\<rparr>"
  let ?w = "w\<lparr>w_conn := Some ?c\<rparr>"
  obtain o' where rv: "os_readv os (tc_cfd c) (readFd_iov (tc_inBuffer c)) (w_os w) = (ReadvData [], o')"
    using assms(9) by (metis prod.collapse)
  obtain w' where w': "conn_handleClose os cbs tid (?w\<lparr>w_os := o'\<rparr>) = Inr w'"
      "w_conn w' = (if w_refs w = 1 then None else Some (closed_conn ?c))"
    by (rule conn_handleClose_effect [of "?w\<lparr>w_os := o'\<rparr>" ?c tid cbs os])
      (use assms(2-8) in \<open>simp_all add: setRevent_def\<close>)
  have "?c\<lparr>tc_inBuffer := tc_inBuffer c\<rparr> = ?c" by (cases c) simp
  then have read: "conn_handleRead os cbs tid ?w = Inr w'"
    using w'(1) readFd_eof [OF assms(6)] rv by (simp add: conn_handleRead_def)
  have mask: "EPOLLIN AND EPOLLHUP = 0" "EPOLLIN AND EPOLLERR = 0" "EPOLLIN AND EPOLLOUT = 0"
      "EPOLLIN AND (EPOLLIN OR EPOLLPRI OR EPOLLRDHUP) \<noteq> 0"
    by (simp_all add: epoll_consts)
  have "conn_events os cbs tid EPOLLIN w =
      when_revents (\<lambda>w. map_option tc_channel (w_conn w)) (\<lambda>r. r AND EPOLLOUT \<noteq> 0)
        (Some (conn_handleWrite os cbs tid)) w'"
    using assms(1,2) read mask
    by (simp add: conn_events_def upd_conn_def handleEvents_def when_revents_def channel_callbacks_def
        call_def setRevent_def)
  then show ?thesis
    using w'(2) mask by (auto simp: when_revents_def closed_conn_def setRevent_def)
qed

text \<open>A connected connection with one owner, and its two runs.\<close>

definition open_world :: "nat \<Rightarrow> (nat, unit interest_list, nat) world" where
  "open_world refs = (first_world refs)\<lparr>w_conn := Some ((new_connection 5)\<lparr>tc_state := kConnected,
     tc_channel := (new_channel 5)\<lparr>ch_events := EPOLLIN OR EPOLLPRI, ch_state := kAdded\<rparr>\<rparr>)\<rparr>"

theorem close_in_handleEvents_witness:
  "conn_events slow_os quiet_callbacks 1 EPOLLIN (open_world 1) = Inl UseAfterFree \<and>
   (\<exists>w' c'. conn_events slow_os quiet_callbacks 1 EPOLLIN (open_world 2) = Inr w' \<and>
      w_conn w' = Some c' \<and> tc_state c' = kDisconnected \<and> ch_state (tc_channel c') = kDeleted)"
proof -
  have "\<exists>u. w\<lparr>w_refs := w_refs w - 1\<rparr> = w\<lparr>w_refs := w_refs w - 1, w_user := u\<rparr>"
    for w :: "(nat, unit interest_list, nat) world"
    by (rule exI [of _ "w_user w"], cases w) simp
  then have "drops_ref (closeCallback quiet_callbacks)"
    by (simp add: drops_ref_def quiet_callbacks_def)
  note run = close_in_handleEvents [OF _ _ _ _ _ _ quiet_benign(1) this, of "open_world _" _ 1 slow_os]
  show ?thesis
    using run [of 1] run [of 2]
    by (simp add: open_world_def first_world_def isInLoopThread_def new_connection_def new_buffer_ok
        slow_os_def)
qed

end
