(* ===== verification/HttpServer.thy ===== *)
theory HttpServer
  imports HttpPrint HttpResponse TcpConnection
begin

text \<open>
  \<open>yvent/http/HttpServer.h\<close> and \<open>HttpServer.cpp\<close>: the server's reaction to the bytes of a
  connection.  The handlers use a connection only to send and to shut down; these
  operations are the record \<open>conn_ops\<close> on an arbitrary connection state.  The locale
  \<open>http_conn\<close> states what the server relies on, and is interpreted on the operations of
  \<open>TcpConnection\<close>.
\<close>

subsection \<open>Handlers\<close>

record 's conn_ops =
  co_send_buffer :: "buffer \<Rightarrow> 's \<Rightarrow> 's res"
  co_send :: "string \<Rightarrow> 's \<Rightarrow> 's res"
  co_shutdown :: "'s \<Rightarrow> 's res"

type_synonym 's http_callback =
  "(http_request \<Rightarrow> http_response \<Rightarrow> 's \<Rightarrow> (http_response \<times> 's) res) option"

definition bad_request :: string where
  "bad_request = ''HTTP/1.1 400 Bad Request'' @ kCRLF @ kCRLF"

definition wants_close :: "http_request \<Rightarrow> bool" where
  "wants_close req =
     (let connection = getHeader ''Connection'' req in
      connection = ''close'' \<or> (rq_version req = Http10 \<and> connection \<noteq> ''Keep-Alive''))"

text \<open>\<open>onConnection\<close>: a connection that has come up gets a fresh context.\<close>

definition http_onConnection :: "tcp_conn \<Rightarrow> http_context option \<Rightarrow> http_context option" where
  "http_onConnection conn context = (if conn_connected conn then Some new_context else context)"

definition onRequest ::
  "'s conn_ops \<Rightarrow> 's http_callback \<Rightarrow> http_request \<Rightarrow> 's \<Rightarrow> 's res" where
  "onRequest ops httpCallback req s =
     (let response = new_response (wants_close req) in
      rbind (case httpCallback of None \<Rightarrow> Inr (response, s) | Some cb \<Rightarrow> cb req response s) (\<lambda>(response, s1).
      rbind (appendToBuffer response (new_buffer kInitialSize)) (\<lambda>buf.
      rbind (co_send_buffer ops buf s1) (\<lambda>s2.
      if rs_closeConnection response then co_shutdown ops s2 else Inr s2))))"

text \<open>\<open>onMessage\<close> on the connection's context and input buffer; \<open>None\<close> when the parser does not
  return.\<close>

definition onMessage ::
  "'s conn_ops \<Rightarrow> 's http_callback \<Rightarrow> http_context \<Rightarrow> buffer \<Rightarrow> 's \<Rightarrow>
   (http_context \<times> buffer \<times> 's) res option" where
  "onMessage ops httpCallback ctx b s =
     (case parseRequest ctx b of
        None \<Rightarrow> None
      | Some (Inl e) \<Rightarrow> Some (Inl e)
      | Some (Inr (ok, ctx1, b1)) \<Rightarrow> Some (
          rbind (if ok then Inr s else rbind (co_send ops bad_request s) (co_shutdown ops)) (\<lambda>s1.
          if parseDone ctx1
          then rbind (onRequest ops httpCallback (ctx_request ctx1) s1) (\<lambda>s2.
               Inr (ctx_reset ctx1, b1, s2))
          else Inr (ctx1, b1, s1))))"

text \<open>A connection delivers its bytes in chunks, each followed by \<open>onMessage\<close>.\<close>

fun http_feed ::
  "'s conn_ops \<Rightarrow> 's http_callback \<Rightarrow> char list list \<Rightarrow> http_context \<Rightarrow> buffer \<Rightarrow> 's \<Rightarrow>
   (http_context \<times> buffer \<times> 's) res option" where
  "http_feed ops cb [] ctx b s = Some (Inr (ctx, b, s))"
| "http_feed ops cb (c # cs) ctx b s =
     (case append_buf c b of Inl e \<Rightarrow> Some (Inl e) | Inr b1 \<Rightarrow>
       (case onMessage ops cb ctx b1 s of None \<Rightarrow> None | Some (Inl e) \<Rightarrow> Some (Inl e)
        | Some (Inr (ctx2, b2, s2)) \<Rightarrow> http_feed ops cb cs ctx2 b2 s2))"

text \<open>The operations of a TCP connection.\<close>

definition tcp_ops ::
  "('e, 'o) os \<Rightarrow> ('e, 'o, 'u) world conn_callbacks \<Rightarrow> nat \<Rightarrow> ('e, 'o, 'u) world conn_ops" where
  "tcp_ops os cbs tid =
     \<lparr> co_send_buffer = (\<lambda>b w. rbind (conn_send_buffer os cbs tid b w) (\<lambda>(b', w'). Inr w')),
       co_send = conn_send os cbs tid, co_shutdown = conn_shutdown os cbs tid \<rparr>"

subsection \<open>One request, in any chunks\<close>

lemma parse_spec_error_append:
  assumes "parse_spec ctx q = Inl e" and "ctx_state ctx \<in> {RequestLine, Headers}"
  shows "parse_spec ctx (q @ x) = Inl e"
proof -
  from assms obtain l r where nl: "next_line q = Some (l, r)" and st: "ctx_state ctx = RequestLine"
    and line: "line_spec l (ctx_request ctx) = Inl e"
    by (auto simp: parse_spec_def res_simps split: option.splits if_splits)
  with next_line_append [OF nl, of x] show ?thesis by (simp add: parse_spec_def)
qed

lemma onMessage_waits:
  assumes "buffer_ok b" and "ctx_state ctx \<in> {RequestLine, Headers}" and "has_room n b"
    and "parse_spec ctx (readable b) = Inr (True, ctx', q)" and "\<not> parseDone ctx'"
  obtains b' where "onMessage ops cb ctx b s = Some (Inr (ctx', b', s))" and "buffer_ok b'"
    and "readable b' = q" and "has_room n b'"
proof -
  from parseRequest_refines [OF assms(1,2)] assms(4) obtain b' where
    "parseRequest ctx b = Some (Inr (True, ctx', b'))" "buffer_ok b'" "readable b' = q"
    "writerIndex b' \<le> writerIndex b" by auto
  with assms(3,5) show ?thesis by (intro that [of b']) (simp_all add: onMessage_def has_room_def)
qed

lemma onMessage_answers:
  assumes "buffer_ok b" and "ctx_state ctx \<in> {RequestLine, Headers}"
    and "parse_spec ctx (readable b) = Inr (True, ctx', q)" and "parseDone ctx'"
  obtains b' where "onMessage ops cb ctx b s =
      Some (rbind (onRequest ops cb (ctx_request ctx') s) (\<lambda>s'. Inr (ctx_reset ctx', b', s')))"
    and "buffer_ok b'" and "readable b' = q"
proof -
  from parseRequest_refines [OF assms(1,2)] assms(3) obtain b' where
    "parseRequest ctx b = Some (Inr (True, ctx', b'))" "buffer_ok b'" "readable b' = q" by auto
  with assms(4) show ?thesis by (intro that [of b']) (simp_all add: onMessage_def)
qed

lemma http_feed_one:
  assumes "buffer_ok b" and "has_room (length (concat cs)) b" and "ctx_state ctx \<in> {RequestLine, Headers}"
    and "parse_spec ctx (readable b @ concat cs) = Inr (True, ctx', [])" and "parseDone ctx'"
    and "[] \<notin> set cs" and "cs \<noteq> []"
  shows "\<exists>b'. http_feed ops cb cs ctx b s =
           Some (rbind (onRequest ops cb (ctx_request ctx') s) (\<lambda>s'. Inr (ctx_reset ctx', b', s'))) \<and>
         buffer_ok b' \<and> readable b' = []"
  using assms(1-4,6,7)
proof (induction cs arbitrary: ctx b)
  case (Cons c cs)
  note st = Cons.prems(3)
  from Cons.prems(1,2) obtain b1 where b1: "append_buf c b = Inr b1" "buffer_ok b1"
      "has_room (length (concat cs)) b1" "readable b1 = readable b @ c"
    using buf.enq_law [of b c "length (concat cs)"] by auto
  have whole: "parse_spec ctx (readable b1 @ concat cs) = Inr (True, ctx', [])"
    using Cons.prems(4) b1(4) by simp
  then obtain ok ctx1 q1 where first: "parse_spec ctx (readable b1) = Inr (ok, ctx1, q1)"
    using parse_spec_error_append [OF _ st, of "readable b1" _ "concat cs"]
    by (cases "parse_spec ctx (readable b1)") auto
  note split = parse_spec_append [OF first st, of "concat cs"]
  show ?case
  proof (cases "ok \<and> ctx_state ctx1 \<noteq> AllDone")
    case True
    with first have first': "parse_spec ctx (readable b1) = Inr (True, ctx1, q1)" by simp
    from True have nd: "\<not> parseDone ctx1" by (simp add: parseDone_def)
    from onMessage_waits [OF b1(2) st b1(3) first' nd, of ops cb s] obtain b2 where
      b2: "onMessage ops cb ctx b1 s = Some (Inr (ctx1, b2, s))" "buffer_ok b2" "readable b2 = q1"
        "has_room (length (concat cs)) b2" .
    have rest: "parse_spec ctx1 (readable b2 @ concat cs) = Inr (True, ctx', [])"
      using split whole True b2(3) by simp
    have st1: "ctx_state ctx1 \<in> {RequestLine, Headers}"
      using parse_spec_states [OF first st] True by auto
    have "cs \<noteq> []"
      using whole first' nd assms(5) by auto
    with Cons.IH [OF b2(2,4) st1 rest] Cons.prems(5) b1(1) b2(1) show ?thesis by simp
  next
    case False
    with split whole have fin: "ok" "ctx1 = ctx'" "q1 @ concat cs = []" by auto
    then have "cs = []" using Cons.prems(5) by (cases cs) auto
    from onMessage_answers [OF b1(2) st, of ctx' q1 ops cb s] first fin assms(5) obtain b2 where
      "onMessage ops cb ctx b1 s =
        Some (rbind (onRequest ops cb (ctx_request ctx') s) (\<lambda>s'. Inr (ctx_reset ctx', b2, s')))"
      "buffer_ok b2" "readable b2 = []" by auto
    with b1(1) \<open>cs = []\<close> show ?thesis
      by (cases "onRequest ops cb (ctx_request ctx') s") auto
  qed
qed simp

subsection \<open>The connection the server relies on\<close>

locale http_conn =
  fixes ops :: "'s conn_ops"
  assumes send_buffer_law: "buffer_ok b \<Longrightarrow> co_send_buffer ops b s = co_send ops (readable b) s"
begin

lemma onRequest_answers:
  assumes "(case cb of None \<Rightarrow> Inr (new_response (wants_close req), s)
            | Some f \<Rightarrow> f req (new_response (wants_close req)) s) = Inr (response, s1)"
    and "rs_closeConnection response \<or> content_length response < 10 ^ 13"
    and "length (print_response response) + kCheapPrepend \<le> kMaxSize"
  shows "onRequest ops cb req s =
     rbind (co_send ops (print_response response) s1) (\<lambda>s2.
       if rs_closeConnection response then co_shutdown ops s2 else Inr s2)"
proof -
  let ?b0 = "new_buffer kInitialSize"
  obtain b where b: "appendToBuffer response ?b0 = Inr b" "buffer_ok b"
      "readable b = print_response response"
    using append_all_correct [OF new_buffer_ok, of "response_pieces response" 0 kInitialSize]
      concat_response_pieces [OF assms(2)] assms(3)
    by (auto simp: appendToBuffer_def new_buffer_room new_buffer_empty)
  then show ?thesis
    using assms(1) send_buffer_law [OF b(2)] by (simp add: onRequest_def Let_def)
qed

lemma onRequest_sends:
  assumes "cb = Some (\<lambda>req response s. Inr (handler req response, s))"
    and "response = handler req (new_response (wants_close req))"
    and "rs_closeConnection response \<or> content_length response < 10 ^ 13"
    and "length (print_response response) + kCheapPrepend \<le> kMaxSize"
  shows "onRequest ops cb req s =
     rbind (co_send ops (print_response response) s) (\<lambda>s1.
       if rs_closeConnection response then co_shutdown ops s1 else Inr s1)"
  using assms by (intro onRequest_answers) simp_all

end

lemma tcp_send_buffer:
  assumes "buffer_ok b"
  shows "rbind (conn_send_buffer os cbs tid b w) (\<lambda>(b', w'). Inr w') = conn_send os cbs tid (readable b) w"
proof -
  have all: "readableBytes b = length (readable b)" by (rule readableBytes_length [OF assms])
  then have read: "mem_read (peek b) (readableBytes b) (buf_data b) = Inr (readable b)"
    using assms by (simp add: peek_def mem_simps)
  have ras: "\<exists>b'. retrieveAllAsString b = Inr (readable b, b')"
    using retrieveAsString_correct [OF assms, of "length (readable b)"] all
    by (auto simp: retrieveAllAsString_def)
  show ?thesis
    using read ras
    by (cases "w_conn w") (auto simp: conn_send_buffer_def conn_send_def with_conn_def rbind_assoc
        rbind_Inr_right)
qed

interpretation tcp: http_conn "tcp_ops os cbs tid"
  by unfold_locales (simp add: tcp_ops_def tcp_send_buffer)

subsection \<open>Properties\<close>

text \<open>C10. One request, one response: a well-formed request that arrives at a connected TCP
  connection in any non-empty chunks is answered exactly once, with exactly the bytes of
  the response that the application's handler made for the parsed request, behind
  everything sent before; no byte of the request is left in the input buffer, the
  context is back in its initial state, and the connection is shut down after the
  response exactly when the response says so.\<close>

theorem http_exchange:
  assumes "m \<noteq> Invalid" and "v \<noteq> Unknown" and "url_safe safe" and "query_ok query"
    and "\<forall>kv \<in> set hs. header_ok kv"
    and "concat cs = print_request safe m path query v hs" and "[] \<notin> set cs"
    and "length (concat cs) + kCheapPrepend \<le> kMaxSize"
    and "req = parsed_request m path query v hs"
    and "response = handler req (new_response (wants_close req))"
    and "rs_closeConnection response \<or> content_length response < 10 ^ 13"
    and "length (print_response response) + kCheapPrepend \<le> kMaxSize"
    and "stream_state tid (length (print_response response)) acc w c" and "tc_state c = kConnected"
    and "write_bounded os" and "benign (writeCompleteCallback cbs)"
  shows "\<exists>b' w' c'. http_feed (tcp_ops os cbs tid)
            (Some (\<lambda>req response s. Inr (handler req response, s))) cs new_context (new_buffer n) w
              = Some (Inr (new_context, b', w')) \<and> readable b' = [] \<and>
            stream_state tid 0 (acc @ print_response response) w' c' \<and>
            (tc_state c' = kDisconnecting \<longleftrightarrow> rs_closeConnection response)"
proof -
  let ?ops = "tcp_ops os cbs tid" and ?cb = "Some (\<lambda>req response s. Inr (handler req response, s))"
  let ?ctx = "\<lparr>ctx_state = AllDone, ctx_request = req\<rparr>"
  have parse: "parse_spec new_context (readable (new_buffer n) @ concat cs) = Inr (True, ?ctx, [])"
    using parse_spec_printed [OF assms(1-5), of path "[]"] assms(6,9) by (simp add: new_buffer_empty)
  have "concat cs \<noteq> []" using assms(6) by (simp add: print_request_def kCRLF_def)
  then have "cs \<noteq> []" by auto
  then obtain b' where feed: "http_feed ?ops ?cb cs new_context (new_buffer n) w =
      Some (rbind (onRequest ?ops ?cb req w) (\<lambda>s'. Inr (ctx_reset ?ctx, b', s')))"
      "readable b' = []"
    using http_feed_one [OF new_buffer_ok _ _ parse _ assms(7), of ?ops ?cb w] assms(8)
    by (auto simp: new_buffer_room new_context_def parseDone_def)
  have reset: "ctx_reset ?ctx = new_context"
    by (simp add: ctx_reset_def request_swap_def new_context_def new_request_def)
  have answer: "onRequest ?ops ?cb req w = rbind (conn_send os cbs tid (print_response response) w)
      (\<lambda>s1. if rs_closeConnection response then conn_shutdown os cbs tid s1 else Inr s1)"
    using tcp.onRequest_sends [of ?cb handler response req os cbs tid w] assms(10-12)
    by (simp add: tcp_ops_def cong: if_cong)
  have st: "stream_state tid (length (print_response response) + 0) acc w c"
    using assms(13) by simp
  from conn_send_stream [OF st assms(15,16)] assms(14) obtain w1 c1 where
    w1: "conn_send os cbs tid (print_response response) w = Inr w1" "tc_state c1 = kConnected"
      "stream_state tid 0 (acc @ print_response response) w1 c1" by auto
  from conn_shutdown_stream [OF w1(3), of os cbs] obtain w2 c2 where
    w2: "conn_shutdown os cbs tid w1 = Inr w2" "tc_state c2 = kDisconnecting"
      "stream_state tid 0 (acc @ print_response response) w2 c2" .
  have "\<exists>w' c'. onRequest ?ops ?cb req w = Inr w' \<and>
      stream_state tid 0 (acc @ print_response response) w' c' \<and>
      (tc_state c' = kDisconnecting \<longleftrightarrow> rs_closeConnection response)"
    using answer w1 w2 by (cases "rs_closeConnection response") auto
  then show ?thesis using feed reset by auto
qed

text \<open>The first bytes of a request, and its rest, on a connection of \<open>slow_os\<close>.\<close>

definition hello_handler :: "http_request \<Rightarrow> http_response \<Rightarrow> http_response" where
  "hello_handler req response = setBody (rq_path req) (setStatusCode k200Ok response)"

definition hello_response :: http_response where
  "hello_response = hello_handler (parsed_request Get ''/a'' [] Http10 []) (new_response True)"

lemma open_world_stream:
  "k + kCheapPrepend \<le> kMaxSize \<Longrightarrow>
   stream_state 1 k [] (open_world 1) (the (w_conn (open_world 1)))"
  by (simp add: stream_state_def streaming_def open_world_def first_world_def new_connection_def
      new_buffer_ok new_buffer_empty new_buffer_room isInLoopThread_def isReading_bit isWriting_bit
      bit_simps)

theorem http_exchange_witness:
  "\<exists>b' w' c'. http_feed (tcp_ops slow_os quiet_callbacks 1)
        (Some (\<lambda>req response s. Inr (hello_handler req response, s)))
        [''GET /a'', '' HTTP/1.0'' @ kCRLF, kCRLF] new_context (new_buffer 0) (open_world 1)
          = Some (Inr (new_context, b', w')) \<and> readable b' = [] \<and>
      stream_state 1 0 (print_response hello_response) w' c' \<and> tc_state c' = kDisconnecting"
proof -
  let ?req = "parsed_request Get ''/a'' [] Http10 []"
  have printed: "concat [''GET /a'', '' HTTP/1.0'' @ kCRLF, kCRLF]
      = print_request (\<lambda>c. c = CHR ''/'' \<or> c = CHR ''a'') Get ''/a'' [] Http10 []"
    by code_simp
  have rsp: "hello_response = hello_handler ?req (new_response (wants_close ?req))"
    and close: "rs_closeConnection hello_response"
    by code_simp+
  have "length (print_response hello_response) < 100" by code_simp
  then have len: "length (print_response hello_response) + kCheapPrepend \<le> kMaxSize"
    by (simp add: kCheapPrepend_def kMaxSize_def)
  have conn: "tc_state (the (w_conn (open_world 1))) = kConnected"
    by (simp add: open_world_def first_world_def new_connection_def)
  show ?thesis
    using http_exchange [where handler = hello_handler,
        OF _ _ _ _ _ printed _ _ refl rsp _ len open_world_stream [OF len] conn
        slow_os_bounded quiet_benign(2), of 0] close
    by (simp add: url_safe_def query_ok_def kCRLF_def kCheapPrepend_def kMaxSize_def)
qed

end
