(* ===== verification/HttpStream.thy ===== *)
theory HttpStream
  imports HttpServer
begin

text \<open>
  \<open>HttpServer\<close> on a connection whose peer may send anything: what it answers, as a function of the chunks in
  which the bytes arrive, and the proof that the handlers over buffers and connections compute it.
\<close>

subsection \<open>The answers to a stream\<close>

text \<open>
  \<open>answer\<close> is the response to a request.  The state is the parser's context, the bytes it has not consumed
  and whether the connection still takes output; each chunk leads to at most one answer.
\<close>

definition http_answer :: "(http_request \<Rightarrow> http_response) \<Rightarrow> bool \<Rightarrow> http_context \<Rightarrow> string" where
  "http_answer answer ok ctx =
     (if \<not> ok then bad_request else if parseDone ctx then print_response (answer (ctx_request ctx)) else [])"

definition stays_open :: "(http_request \<Rightarrow> http_response) \<Rightarrow> bool \<Rightarrow> http_context \<Rightarrow> bool" where
  "stays_open answer ok ctx \<longleftrightarrow> ok \<and> (parseDone ctx \<longrightarrow> \<not> rs_closeConnection (answer (ctx_request ctx)))"

definition next_context :: "http_context \<Rightarrow> http_context" where
  "next_context ctx = (if parseDone ctx then ctx_reset ctx else ctx)"

fun http_serve ::
  "(http_request \<Rightarrow> http_response) \<Rightarrow> string list \<Rightarrow> http_context \<Rightarrow> string \<Rightarrow> bool \<Rightarrow>
   string \<times> (bool \<times> http_context \<times> string) res" where
  "http_serve answer [] ctx q opn = ([], Inr (opn, ctx, q))"
| "http_serve answer (c # cs) ctx q opn =
     (case parse_spec ctx (q @ c) of
        Inl e \<Rightarrow> ([], Inl e)
      | Inr (ok, ctx1, q1) \<Rightarrow>
          (case http_serve answer cs (next_context ctx1) q1 (opn \<and> stays_open answer ok ctx1) of
             (out, r) \<Rightarrow> ((if opn then http_answer answer ok ctx1 else []) @ out, r)))"

text \<open>A response the server can serialise.\<close>

definition fits_buffer :: "http_response \<Rightarrow> bool" where
  "fits_buffer rsp \<longleftrightarrow> (rs_closeConnection rsp \<or> content_length rsp < 10 ^ 13) \<and>
     length (print_response rsp) + kCheapPrepend \<le> kMaxSize"

subsection \<open>The state of the parser between two chunks\<close>

lemma parse_spec_refuses:
  assumes "parse_spec ctx q = Inr (False, ctx', q')" and "ctx_state ctx \<in> {RequestLine, Headers}"
  shows "ctx_state ctx' = RequestLine"
proof -
  have "fst (headers_result c r)" for c r by (simp add: headers_result_def split: prod.split)
  then have "headers_result c r \<noteq> (False, ctx', q')" for c r by (metis fst_conv)
  then show ?thesis
    using assms by (auto simp: parse_spec_def res_simps split: if_splits option.splits)
qed

lemma next_context_states:
  assumes "parse_spec ctx q = Inr (ok, ctx', q')" and "ctx_state ctx \<in> {RequestLine, Headers}"
  shows "ctx_state (next_context ctx') \<in> {RequestLine, Headers}"
  using parse_spec_states [OF assms]
  by (auto simp: next_context_def parseDone_def ctx_reset_def)

subsection \<open>The handlers compute the answers\<close>

lemma send_when_closed:
  assumes "stream_state tid k acc w c" and "tc_state c \<noteq> kConnected"
  shows "conn_send os cbs tid m w = Inr w" and "conn_shutdown os cbs tid w = Inr w"
  using assms stream_stateD(1) [OF assms(1)] by (simp_all add: conn_send_def conn_shutdown_def)

text \<open>A send, followed by a shutdown or not, on a connection that may be shut down already.\<close>

lemma send_and_close:
  assumes st: "stream_state tid (length (if tc_state c = kConnected then m else []) + k) acc w c"
    and wb: "write_bounded os" and wc: "benign (writeCompleteCallback cbs)"
  shows "\<exists>w' c'. rbind (conn_send os cbs tid m w) (\<lambda>w1. if close then conn_shutdown os cbs tid w1 else Inr w1) = Inr w' \<and>
     stream_state tid k (acc @ (if tc_state c = kConnected then m else [])) w' c' \<and>
     (tc_state c' = kConnected \<longleftrightarrow> tc_state c = kConnected \<and> \<not> close)"
proof (cases "tc_state c = kConnected")
  case False
  with st have "stream_state tid k acc w c" by simp
  with send_when_closed [OF this False] False show ?thesis by auto
next
  case True
  with st have "stream_state tid (length m + k) acc w c" by simp
  from conn_send_stream [OF this wb wc] True obtain w1 c1 where
    w1: "conn_send os cbs tid m w = Inr w1" "tc_state c1 = kConnected" "stream_state tid k (acc @ m) w1 c1" by auto
  from conn_shutdown_stream [OF w1(3), of os cbs] obtain w2 c2 where
    w2: "conn_shutdown os cbs tid w1 = Inr w2" "tc_state c2 = kDisconnecting" "stream_state tid k (acc @ m) w2 c2" .
  show ?thesis
  proof (cases close)
    case True
    with w1 w2 \<open>tc_state c = kConnected\<close> show ?thesis by (intro exI [of _ w2] exI [of _ c2]) simp
  next
    case False
    with w1 \<open>tc_state c = kConnected\<close> show ?thesis by (intro exI [of _ w1] exI [of _ c1]) simp
  qed
qed

lemma stream_room: "stream_state tid (j + k) acc w c \<Longrightarrow> stream_state tid k acc w c"
  by (simp add: stream_state_def has_room_def)

text \<open>One call of \<open>onMessage\<close>.\<close>

lemma onMessage_answer:
  assumes ok: "buffer_ok b" and st: "ctx_state ctx \<in> {RequestLine, Headers}"
    and spec: "parse_spec ctx (readable b) = Inr (res, ctx1, q1)"
    and cb: "cb = Some (\<lambda>req response s. Inr (handler req response, s))"
    and answer: "answer = (\<lambda>req. handler req (new_response (wants_close req)))"
    and fits: "\<forall>req. fits_buffer (answer req)"
    and stream: "stream_state tid (length (if tc_state c = kConnected then http_answer answer res ctx1 else []) + k) acc w c"
    and wb: "write_bounded os" and wc: "benign (writeCompleteCallback cbs)"
  shows "\<exists>b' w' c'. onMessage (tcp_ops os cbs tid) cb ctx b w = Some (Inr (next_context ctx1, b', w')) \<and>
     buffer_ok b' \<and> readable b' = q1 \<and> writerIndex b' \<le> writerIndex b \<and>
     stream_state tid k (acc @ (if tc_state c = kConnected then http_answer answer res ctx1 else [])) w' c' \<and>
     (tc_state c' = kConnected \<longleftrightarrow> tc_state c = kConnected \<and> stays_open answer res ctx1)"
proof -
  from parseRequest_refines [OF ok st] spec obtain b' where
    b': "parseRequest ctx b = Some (Inr (res, ctx1, b'))" "buffer_ok b'" "readable b' = q1"
    "writerIndex b' \<le> writerIndex b" by auto
  let ?ops = "tcp_ops os cbs tid" and ?r = "answer (ctx_request ctx1)"
  show ?thesis
  proof (cases "res \<and> \<not> parseDone ctx1")
    case True
    then have "onMessage ?ops cb ctx b w = Some (Inr (next_context ctx1, b', w))"
      using b'(1) by (simp add: onMessage_def next_context_def)
    moreover have "http_answer answer res ctx1 = []" "stays_open answer res ctx1"
      using True by (simp_all add: http_answer_def stays_open_def)
    ultimately show ?thesis using b' stream
      by (intro exI [of _ b'] exI [of _ w] exI [of _ c]) (simp cong: if_cong)
  next
    case False
    define m where "m = http_answer answer res ctx1"
    define close where "close \<longleftrightarrow> \<not> stays_open answer res ctx1"
    have run: "onMessage ?ops cb ctx b w =
        Some (rbind (rbind (conn_send os cbs tid m w) (\<lambda>w1. if close then conn_shutdown os cbs tid w1 else Inr w1))
          (\<lambda>w1. Inr (next_context ctx1, b', w1)))"
    proof (cases res)
      case True
      with False have fin: "parseDone ctx1" by simp
      have "onRequest ?ops cb (ctx_request ctx1) w = rbind (conn_send os cbs tid (print_response ?r) w)
          (\<lambda>s1. if rs_closeConnection ?r then conn_shutdown os cbs tid s1 else Inr s1)"
        using tcp.onRequest_sends [OF cb, of ?r "ctx_request ctx1" os cbs tid w] fits
        by (simp add: answer fits_buffer_def tcp_ops_def cong: if_cong)
      with True fin b'(1) show ?thesis
        by (simp add: onMessage_def m_def close_def http_answer_def stays_open_def next_context_def cong: if_cong)
    next
      case False
      with spec have "parse_spec ctx (readable b) = Inr (False, ctx1, q1)" by simp
      from parse_spec_refuses [OF this st] have "ctx_state ctx1 = RequestLine" .
      with False b'(1) show ?thesis
        by (simp add: onMessage_def m_def close_def http_answer_def stays_open_def next_context_def parseDone_def
            tcp_ops_def rbind_assoc)
    qed
    have "stream_state tid (length (if tc_state c = kConnected then m else []) + k) acc w c"
      using stream by (simp only: m_def)
    from send_and_close [where close = close, OF this wb wc] obtain w' c' where
      "rbind (conn_send os cbs tid m w) (\<lambda>w1. if close then conn_shutdown os cbs tid w1 else Inr w1) = Inr w'"
      "stream_state tid k (acc @ (if tc_state c = kConnected then m else [])) w' c'"
      "tc_state c' = kConnected \<longleftrightarrow> tc_state c = kConnected \<and> \<not> close" by blast
    with run b' show ?thesis
      by (intro exI [of _ b'] exI [of _ w'] exI [of _ c']) (simp add: m_def close_def cong: if_cong)
  qed
qed


lemma http_feed_serves:
  assumes cb: "cb = Some (\<lambda>req response s. Inr (handler req response, s))"
    and answer: "answer = (\<lambda>req. handler req (new_response (wants_close req)))"
    and fits: "\<forall>req. fits_buffer (answer req)"
    and wb: "write_bounded os" and wc: "benign (writeCompleteCallback cbs)"
  shows "buffer_ok b \<Longrightarrow> has_room (length (concat cs)) b \<Longrightarrow> ctx_state ctx \<in> {RequestLine, Headers} \<Longrightarrow>
     http_serve answer cs ctx (readable b) (tc_state c = kConnected) = (out, r) \<Longrightarrow>
     stream_state tid (length out) acc w c \<Longrightarrow>
     (case r of
        Inl e \<Rightarrow> http_feed (tcp_ops os cbs tid) cb cs ctx b w = Some (Inl e)
      | Inr (opn, ctx', q') \<Rightarrow> \<exists>b' w' c'.
          http_feed (tcp_ops os cbs tid) cb cs ctx b w = Some (Inr (ctx', b', w')) \<and> readable b' = q' \<and>
          stream_state tid 0 (acc @ out) w' c' \<and> (tc_state c' = kConnected \<longleftrightarrow> opn))"
proof (induction cs arbitrary: b ctx w c acc out)
  case Nil
  then show ?case by auto
next
  case (Cons ch cs)
  let ?opn = "tc_state c = kConnected"
  from Cons.prems(1,2) obtain b1 where b1: "append_buf ch b = Inr b1" "buffer_ok b1"
      "has_room (length (concat cs)) b1" "readable b1 = readable b @ ch"
    using buf.enq_law [of b ch "length (concat cs)"] by auto
  show ?case
  proof (cases "parse_spec ctx (readable b1)")
    case (Inl e)
    with Cons.prems(4) b1(4) have "out = []" "r = Inl e" by auto
    moreover have "onMessage (tcp_ops os cbs tid) cb ctx b1 w = Some (Inl e)"
      using parseRequest_refines [OF b1(2) Cons.prems(3)] Inl by (simp add: onMessage_def)
    ultimately show ?thesis using b1(1) by simp
  next
    case (Inr res)
    obtain ok ctx1 q1 where res: "res = (ok, ctx1, q1)" by (cases res) auto
    note spec = Inr [unfolded res]
    let ?m = "if ?opn then http_answer answer ok ctx1 else []" and ?opn1 = "?opn \<and> stays_open answer ok ctx1"
    obtain out1 where serve: "http_serve answer cs (next_context ctx1) q1 ?opn1 = (out1, r)" and out: "out = ?m @ out1"
      using Cons.prems(4) spec b1(4) by (auto split: prod.splits)
    have "stream_state tid (length ?m + length out1) acc w c" using Cons.prems(5) out by simp
    from onMessage_answer [OF b1(2) Cons.prems(3) spec cb answer fits this wb wc] obtain b2 w2 c2 where
      b2: "onMessage (tcp_ops os cbs tid) cb ctx b1 w = Some (Inr (next_context ctx1, b2, w2))" "buffer_ok b2"
        "readable b2 = q1" "writerIndex b2 \<le> writerIndex b1"
        "stream_state tid (length out1) (acc @ ?m) w2 c2" "(tc_state c2 = kConnected) = ?opn1" by blast
    have room: "has_room (length (concat cs)) b2" using b1(3) b2(4) by (simp add: has_room_def)
    from Cons.IH [OF b2(2) room next_context_states [OF spec Cons.prems(3)] _ b2(5)] serve b2(3,6)
    have IH: "case r of
        Inl e \<Rightarrow> http_feed (tcp_ops os cbs tid) cb cs (next_context ctx1) b2 w2 = Some (Inl e)
      | Inr (opn, ctx', q') \<Rightarrow> \<exists>b' w' c'.
          http_feed (tcp_ops os cbs tid) cb cs (next_context ctx1) b2 w2 = Some (Inr (ctx', b', w')) \<and> readable b' = q' \<and>
          stream_state tid 0 ((acc @ ?m) @ out1) w' c' \<and> (tc_state c' = kConnected \<longleftrightarrow> opn)" by simp
    have feed: "http_feed (tcp_ops os cbs tid) cb (ch # cs) ctx b w
        = http_feed (tcp_ops os cbs tid) cb cs (next_context ctx1) b2 w2" using b1(1) b2(1) by simp
    have acc: "(acc @ ?m) @ out1 = acc @ out" by (simp only: out append_assoc)
    show ?thesis unfolding feed by (rule IH [unfolded acc])
  qed
qed

text \<open>Without a refused request line no call fails.\<close>

definition fresh_context :: "http_context \<Rightarrow> bool" where
  "fresh_context ctx \<longleftrightarrow> ctx_state ctx = Headers \<or> ctx_state ctx = RequestLine \<and> rq_method (ctx_request ctx) = Invalid"

lemma headers_fresh:
  "headers_result ctx q = (ok, ctx', q') \<Longrightarrow> ok \<and> (ctx_state ctx' = Headers \<or> ctx_state ctx' = AllDone)"
  by (auto simp: headers_result_def split: prod.splits if_splits)

lemma parse_spec_fresh:
  assumes "fresh_context ctx" and "parse_spec ctx q = Inr (True, ctx', q')"
  shows "fresh_context (next_context ctx')"
proof -
  have "ctx' = ctx \<or> ctx_state ctx' = Headers \<or> ctx_state ctx' = AllDone"
    using assms(2) headers_fresh by (auto simp: parse_spec_def res_simps split: if_splits option.splits) blast+
  then show ?thesis
    using assms(1) by (auto simp: fresh_context_def next_context_def parseDone_def ctx_reset_def request_swap_def
        new_request_def)
qed

fun refuses :: "string list \<Rightarrow> http_context \<Rightarrow> string \<Rightarrow> bool" where
  "refuses [] ctx q = False"
| "refuses (c # cs) ctx q =
     (case parse_spec ctx (q @ c) of
        Inl e \<Rightarrow> False
      | Inr (ok, ctx1, q1) \<Rightarrow> \<not> ok \<or> refuses cs (next_context ctx1) q1)"

lemma http_serve_refused:
  "fresh_context ctx \<Longrightarrow> http_serve answer cs ctx q opn = (out, Inl e) \<Longrightarrow> refuses cs ctx q"
proof (induction cs arbitrary: ctx q opn out)
  case (Cons c cs)
  have "parse_spec ctx (q @ c) \<noteq> Inl e'" for e'
    using parse_spec_total [of ctx "q @ c"] Cons.prems(1) by (auto simp: fresh_context_def)
  then obtain ok ctx1 q1 where spec: "parse_spec ctx (q @ c) = Inr (ok, ctx1, q1)"
    by (cases "parse_spec ctx (q @ c)") auto
  obtain out1 where serve: "http_serve answer cs (next_context ctx1) q1 (opn \<and> stays_open answer ok ctx1) = (out1, Inl e)"
    using Cons.prems(2) spec by (auto split: prod.splits)
  show ?case
  proof (cases ok)
    case True
    with spec have "parse_spec ctx (q @ c) = Inr (True, ctx1, q1)" by simp
    from Cons.IH [OF parse_spec_fresh [OF Cons.prems(1) this] serve] spec show ?thesis by simp
  qed (use spec in simp)
qed simp

subsection \<open>Properties\<close>

text \<open>C9. The server withstands any peer up to a refused request.  Whatever bytes arrive on a connection, in any
  chunks: the handlers over the buffers and the connection compute the list function \<open>http_serve\<close>; each
  chunk that completes a request is answered with the response to that request, a chunk with a malformed
  request line with the answer 400, and other chunks with nothing; everything is on the stream in order; after
  an answer that closes the connection nothing more is sent; and a call fails (by the assert of \<open>setMethod\<close>)
  only after a request line was refused.\<close>

theorem http_any_input:
  assumes "cb = Some (\<lambda>req response s. Inr (handler req response, s))"
    and "answer = (\<lambda>req. handler req (new_response (wants_close req)))"
    and "\<forall>req. fits_buffer (answer req)"
    and "http_serve answer cs new_context [] True = (out, r)"
    and "length (concat cs) + kCheapPrepend \<le> kMaxSize"
    and "stream_state tid (length out) acc w c" and "tc_state c = kConnected"
    and "write_bounded os" and "benign (writeCompleteCallback cbs)"
  shows "(case r of
        Inl e \<Rightarrow> http_feed (tcp_ops os cbs tid) cb cs new_context (new_buffer n) w = Some (Inl e) \<and> refuses cs new_context []
      | Inr (opn, ctx', q') \<Rightarrow> \<exists>b' w' c'.
          http_feed (tcp_ops os cbs tid) cb cs new_context (new_buffer n) w = Some (Inr (ctx', b', w')) \<and>
          readable b' = q' \<and> stream_state tid 0 (acc @ out) w' c' \<and> (tc_state c' = kConnected \<longleftrightarrow> opn))"
proof -
  have fresh: "fresh_context new_context" by (simp add: fresh_context_def new_context_def new_request_def)
  have states: "ctx_state new_context \<in> {RequestLine, Headers}" by (simp add: new_context_def)
  have serve: "http_serve answer cs new_context (readable (new_buffer n)) (tc_state c = kConnected) = (out, r)"
    using assms(4,7) by (simp add: new_buffer_empty)
  have room: "has_room (length (concat cs)) (new_buffer n)" using assms(5) by (simp add: new_buffer_room)
  note run = http_feed_serves [OF assms(1-3,8,9) new_buffer_ok room states serve assms(6)]
  show ?thesis
  proof (cases r)
    case (Inl e)
    with run http_serve_refused [OF fresh, of answer cs "[]" True out e] assms(4) show ?thesis by simp
  next
    case (Inr x)
    with run show ?thesis by simp
  qed
qed

text \<open>Two requests in one chunk, the first of which is answered at once and the second one with the next
  chunk; then a line that is no request.\<close>

definition path_handler :: "http_request \<Rightarrow> http_response \<Rightarrow> http_response" where
  "path_handler req response = setStatusCode k200Ok response"

definition get_a :: string where
  "get_a = print_request (\<lambda>c. c = CHR ''/'' \<or> c = CHR ''a'') Get ''/a'' [] Http11 []"

definition three_chunks :: "string list" where
  "three_chunks = [get_a @ get_a, ''BAD'', kCRLF]"

lemma path_handler_fits: "fits_buffer (path_handler req (new_response (wants_close req)))"
proof -
  have "length (print_response (setStatusCode k200Ok (new_response True))) < 100"
    and "length (print_response (setStatusCode k200Ok (new_response False))) < 100" by code_simp+
  then have "length (print_response (path_handler req (new_response (wants_close req)))) < 100"
    by (cases "wants_close req") (simp_all add: path_handler_def)
  moreover have "content_length (path_handler req (new_response (wants_close req))) < 10 ^ 13"
    by (simp add: path_handler_def new_response_def setStatusCode_def content_length_def)
  ultimately show ?thesis by (simp add: fits_buffer_def kCheapPrepend_def kMaxSize_def less_imp_le)
qed

lemma three_chunks_served:
  defines "answer \<equiv> \<lambda>req. path_handler req (new_response (wants_close req))"
    and "rsp \<equiv> print_response (path_handler (parsed_request Get ''/a'' [] Http11 []) (new_response False))"
  shows "http_serve answer three_chunks new_context [] True
     = (rsp @ rsp @ bad_request, Inr (False, new_context, ''BAD'' @ kCRLF))"
proof -
  let ?req = "parsed_request Get ''/a'' [] Http11 []"
  let ?done = "\<lparr>ctx_state = AllDone, ctx_request = ?req\<rparr>"
  have get: "parse_spec new_context (get_a @ x) = Inr (True, ?done, x)" for x
    unfolding get_a_def by (rule parse_spec_printed) (simp_all add: url_safe_def query_ok_def)
  have next': "next_context ?done = new_context"
    by (simp add: next_context_def parseDone_def ctx_reset_def request_swap_def new_context_def new_request_def)
  have close: "\<not> wants_close ?req" by code_simp
  have answer: "answer ?req = path_handler ?req (new_response False)" using close by (simp add: answer_def)
  have open': "stays_open answer True ?done"
    by (simp add: stays_open_def answer path_handler_def setStatusCode_def new_response_def)
  have out: "http_answer answer True ?done = rsp" by (simp add: http_answer_def parseDone_def answer rsp_def)
  have bad: "parse_spec new_context (''BAD'' @ kCRLF) = Inr (False, new_context, ''BAD'' @ kCRLF)" by code_simp
  show ?thesis
    using get [of get_a] get [of "''BAD''"] bad next' open' out
    by (simp add: three_chunks_def http_answer_def stays_open_def next_context_def parseDone_def new_context_def)
qed

theorem http_any_input_witness:
  "\<exists>b' w' c' rsp. http_feed (tcp_ops slow_os quiet_callbacks 1)
        (Some (\<lambda>req response s. Inr (path_handler req response, s))) three_chunks new_context (new_buffer 0) (open_world 1)
          = Some (Inr (new_context, b', w')) \<and>
     rsp = print_response (path_handler (parsed_request Get ''/a'' [] Http11 []) (new_response False)) \<and>
     readable b' = ''BAD'' @ kCRLF \<and> stream_state 1 0 (rsp @ rsp @ bad_request) w' c' \<and> tc_state c' \<noteq> kConnected"
proof -
  let ?req = "parsed_request Get ''/a'' [] Http11 []"
  let ?rsp = "print_response (path_handler ?req (new_response False))"
  have "length ?rsp < 100" by code_simp
  moreover have "length bad_request < 100" by code_simp
  ultimately have "length (?rsp @ ?rsp @ bad_request) + kCheapPrepend \<le> kMaxSize"
    by (simp add: kCheapPrepend_def kMaxSize_def)
  note stream = open_world_stream [OF this]
  have "length get_a < 100" by code_simp
  then have room: "length (concat three_chunks) + kCheapPrepend \<le> kMaxSize"
    by (simp add: three_chunks_def kCRLF_def kCheapPrepend_def kMaxSize_def)
  have conn: "tc_state (the (w_conn (open_world 1))) = kConnected"
    by (simp add: open_world_def first_world_def new_connection_def)
  have fits: "\<forall>req. fits_buffer (path_handler req (new_response (wants_close req)))"
    using path_handler_fits by blast
  from http_any_input [where handler = path_handler, OF refl refl fits three_chunks_served room stream conn
      slow_os_bounded quiet_benign(2), of 0]
  show ?thesis by auto
qed

end
