(* ===== verification/Codec.thy ===== *)
theory Codec
  imports Buffer
begin

text \<open>
  \<open>example/chat/codec.h\<close>: the length-prefixed message codec of the chat example.
  \<open>codec_send\<close> is the frame that \<open>LenHeaderCodec::send\<close> hands to the connection and
  \<open>codec_onMessage\<close> is the receive loop.  The connection is an arbitrary state \<open>'s\<close>: the
  user's message callback and \<open>conn->shutdown()\<close> are functions on it, passed as arguments.
  The loop is a partial function (\<open>None\<close> would be a run that never ends).
\<close>

definition kHeaderLen :: nat where
  "kHeaderLen = 4"

text \<open>The four bytes of an \<open>int32_t\<close> in memory, least significant first, and \<open>htonl\<close>.\<close>

definition bytes32 :: "32 word \<Rightarrow> char list" where
  "bytes32 w = map (\<lambda>i. char_of (unat w div 256 ^ i mod 256)) [0..<4]"

definition htonl :: "32 word \<Rightarrow> 32 word" where
  "htonl w = le32 (rev (bytes32 w))"

abbreviation ntohl :: "32 word \<Rightarrow> 32 word" where
  "ntohl \<equiv> htonl"

definition codec_send :: "string \<Rightarrow> buffer res" where
  "codec_send message =
     rbind (append_buf message (new_buffer kInitialSize)) (\<lambda>b.
     let len = word_of_nat (length message); netLen = htonl len in
     prepend (bytes32 netLen) b)"

partial_function (option) codec_onMessage ::
  "('s \<Rightarrow> string \<Rightarrow> 's) \<Rightarrow> ('s \<Rightarrow> 's) \<Rightarrow> 's \<Rightarrow> buffer \<Rightarrow> ('s \<times> buffer) res option" where
  "codec_onMessage cb shutdown s b =
     (if kHeaderLen \<le> readableBytes b
      then case peekInt32 b of Inl e \<Rightarrow> Some (Inl e) | Inr w \<Rightarrow>
        (let len = sint (ntohl w) in
         if 65536 < len \<or> len < 0 then Some (Inr (shutdown s, b))
         else if sz_add (nat len) kHeaderLen \<le> readableBytes b
         then (case retrieve kHeaderLen b of Inl e \<Rightarrow> Some (Inl e) | Inr b1 \<Rightarrow>
              (case retrieveAsString (nat len) b1 of Inl e \<Rightarrow> Some (Inl e) | Inr mb \<Rightarrow>
                 codec_onMessage cb shutdown (cb s (fst mb)) (snd mb)))
         else Some (Inr (s, b)))
      else Some (Inr (s, b)))"

text \<open>
  A connection delivers its bytes in chunks: each chunk is appended to the input buffer
  and the receive loop runs.
\<close>

fun codec_feed ::
  "('s \<Rightarrow> string \<Rightarrow> 's) \<Rightarrow> ('s \<Rightarrow> 's) \<Rightarrow> char list list \<Rightarrow> 's \<Rightarrow> buffer \<Rightarrow> ('s \<times> buffer) res option"
where
  "codec_feed cb shutdown [] s b = Some (Inr (s, b))"
| "codec_feed cb shutdown (c # cs) s b =
     (case append_buf c b of Inl e \<Rightarrow> Some (Inl e) | Inr b1 \<Rightarrow>
       (case codec_onMessage cb shutdown s b1 of None \<Rightarrow> None | Some (Inl e) \<Rightarrow> Some (Inl e)
        | Some (Inr (s', b2)) \<Rightarrow> codec_feed cb shutdown cs s' b2))"

subsection \<open>The specification: splitting a byte stream into frames\<close>

definition frame :: "string \<Rightarrow> char list" where
  "frame m = rev (bytes32 (word_of_nat (length m))) @ m"

definition frame_len :: "char list \<Rightarrow> int" where
  "frame_len q = sint (le32 (rev (take 4 q)))"

text \<open>The messages of a stream, whether a bad length stopped it, and the bytes left.\<close>

function frames :: "char list \<Rightarrow> string list \<times> bool \<times> char list" where
  "frames q =
     (if length q < 4 then ([], False, q)
      else if 65536 < frame_len q \<or> frame_len q < 0 then ([], True, q)
      else if length q < 4 + nat (frame_len q) then ([], False, q)
      else (case frames (drop (4 + nat (frame_len q)) q) of (ms, bad, r) \<Rightarrow>
              (take (nat (frame_len q)) (drop 4 q) # ms, bad, r)))"
  by pat_completeness auto
termination
  by (relation "measure length") auto

declare frames.simps [simp del]

subsection \<open>Bytes and words\<close>

lemma foldr_bytes:
  "foldr (\<lambda>c acc. of_char c + 256 * acc) (map (\<lambda>i. char_of (n div 256 ^ i mod 256)) [k..<k + m]) 0
   = (n div 256 ^ k) mod (256 ^ m :: nat)"
proof (induction m arbitrary: k)
  case (Suc m)
  have "[k..<k + Suc m] = k # [Suc k..<Suc k + m]"
    by (simp add: upt_conv_Cons)
  then have "foldr (\<lambda>c acc. of_char c + 256 * acc)
      (map (\<lambda>i. char_of (n div 256 ^ i mod 256)) [k..<k + Suc m]) 0
      = n div 256 ^ k mod 256 + 256 * (n div 256 ^ Suc k mod 256 ^ m)"
    using Suc.IH [of "Suc k"] by (simp add: of_char_of)
  also have "\<dots> = (n div 256 ^ k) mod 256 ^ Suc m"
    by (simp add: mod_mult2_eq div_mult2_eq [symmetric] mult.commute)
  finally show ?case .
qed simp

lemma le32_bytes32 [simp]: "le32 (bytes32 w) = w"
proof -
  have "unat w < 256 ^ 4"
    by (rule order_less_le_trans [OF unsigned_less]) simp
  then show ?thesis
    using foldr_bytes [of "unat w" 0 4] by (simp add: le32_def bytes32_def)
qed

lemma length_bytes32 [simp]: "length (bytes32 w) = 4"
  by (simp add: bytes32_def)

lemma of_char_less: "(of_char c :: nat) < 256"
  by (metis nat_of_char_less_256)

lemma digits256:
  fixes a b c d :: nat
  assumes "a < 256" and "b < 256" and "c < 256" and "d < 256"
  defines "n \<equiv> a + 256 * (b + 256 * (c + 256 * d))"
  shows "n < 2 ^ 32" and "n mod 256 = a" and "n div 256 mod 256 = b"
    and "n div 65536 mod 256 = c" and "n div 16777216 mod 256 = d"
proof -
  have step: "(x + 256 * y) mod 256 = x" "(x + 256 * y) div 256 = y" if "x < 256" for x y :: nat
    using that by simp_all
  have "n div 65536 = n div 256 div 256" and "n div 16777216 = n div 256 div 256 div 256"
    by (simp_all add: div_mult2_eq [symmetric])
  with assms(1-4) show "n mod 256 = a" and "n div 256 mod 256 = b"
    and "n div 65536 mod 256 = c" and "n div 16777216 mod 256 = d"
    by (simp_all only: n_def step) simp
  show "n < 2 ^ 32" using assms(1-4) by (simp add: n_def)
qed

lemma bytes32_le32: "length bs = 4 \<Longrightarrow> bytes32 (le32 bs) = bs"
proof -
  assume "length bs = 4"
  then obtain a b c d where bs: "bs = [a, b, c, d]"
    by (auto simp: length_Suc_conv eval_nat_numeral)
  define n :: nat where "n = of_char a + 256 * (of_char b + 256 * (of_char c + 256 * of_char d))"
  note digits = digits256 [OF of_char_less [of a] of_char_less [of b] of_char_less [of c]
      of_char_less [of d], folded n_def]
  have "unat (le32 bs) = n"
    using digits(1) unat_of_nat [of n, where 'a = 32] by (simp add: le32_def bs n_def)
  with digits(2-5) show ?thesis
    by (simp add: bytes32_def bs upt_rec char_of_eq_iff take_bit_eq_mod)
qed

lemma ntohl_le32: "length bs = 4 \<Longrightarrow> ntohl (le32 bs) = le32 (rev bs)"
  by (simp add: htonl_def bytes32_le32)

lemma bytes32_htonl: "bytes32 (htonl w) = rev (bytes32 w)"
  by (simp add: htonl_def bytes32_le32)

lemma sint_word_of_nat: "n < 2 ^ 31 \<Longrightarrow> sint (word_of_nat n :: 32 word) = int n"
  by (simp add: sint_uint uint_nat unat_of_nat signed_take_bit_int_eq_self)

subsection \<open>Frames\<close>

lemma frame_len_frame: "length m < 2 ^ 31 \<Longrightarrow> frame_len (frame m @ q) = int (length m)"
  by (simp add: frame_len_def frame_def sint_word_of_nat)

lemma length_frame [simp]: "length (frame m) = 4 + length m"
  by (simp add: frame_def)

lemma drop_frame [simp]: "drop 4 (frame m) = m"
  by (simp add: frame_def)

text \<open>Whether a stream starts with a whole frame, or with a length the codec refuses.\<close>

definition has_frame :: "char list \<Rightarrow> bool" where
  "has_frame q \<longleftrightarrow> 4 \<le> length q \<and> 0 \<le> frame_len q \<and> frame_len q \<le> 65536 \<and>
     4 + nat (frame_len q) \<le> length q"

definition bad_frame :: "char list \<Rightarrow> bool" where
  "bad_frame q \<longleftrightarrow> 4 \<le> length q \<and> (65536 < frame_len q \<or> frame_len q < 0)"

lemma frames_stop: "\<not> has_frame q \<Longrightarrow> frames q = ([], bad_frame q, q)"
  by (subst frames.simps) (auto simp: has_frame_def bad_frame_def)

lemma frames_next:
  "has_frame q \<Longrightarrow> frames q =
     (case frames (drop (4 + nat (frame_len q)) q) of (ms, bad, r) \<Rightarrow>
        (take (nat (frame_len q)) (drop 4 q) # ms, bad, r))"
  by (subst frames.simps) (auto simp: has_frame_def)

lemma frames_frame:
  assumes "length m \<le> 65536"
  shows "frames (frame m @ q) = (case frames q of (ms, bad, r) \<Rightarrow> (m # ms, bad, r))"
proof -
  have len: "frame_len (frame m @ q) = int (length m)"
    using assms by (intro frame_len_frame) simp
  have rest: "drop (4 + length m) (frame m @ q) = q"
    and body: "take (length m) (drop 4 (frame m @ q)) = m"
    by (simp_all add: frame_def)
  show ?thesis
    using assms by (subst frames.simps) (simp add: len rest body)
qed

lemma frames_concat:
  "\<forall>m \<in> set ms. length m \<le> 65536 \<Longrightarrow>
   frames (concat (map frame ms) @ q) = (case frames q of (ms', bad, r) \<Rightarrow> (ms @ ms', bad, r))"
  by (induction ms) (auto simp: frames_frame split: prod.splits)

lemma frames_Nil [simp]: "frames [] = ([], False, [])"
  by (subst frames.simps) simp

text \<open>Splitting a stream in two at any point and keeping the unread rest gives the same frames.\<close>

lemma has_frame_append:
  assumes "has_frame q"
  shows "has_frame (q @ ys)" and "frame_len (q @ ys) = frame_len q"
  using assms by (auto simp: has_frame_def frame_len_def)

lemma frames_append:
  "frames xs = (ms, False, r) \<Longrightarrow>
   frames (xs @ ys) = (case frames (r @ ys) of (ms', bad, r') \<Rightarrow> (ms @ ms', bad, r'))"
proof (induction "length xs" arbitrary: xs ms r rule: less_induct)
  case less
  show ?case
  proof (cases "has_frame xs")
    case False
    with less.prems show ?thesis by (auto simp: frames_stop split: prod.splits)
  next
    case True
    let ?len = "nat (frame_len xs)"
    from True less.prems obtain ms1 where
      rest: "frames (drop (4 + ?len) xs) = (ms1, False, r)" and
      ms: "ms = take ?len (drop 4 xs) # ms1"
      by (auto simp: frames_next split: prod.splits)
    have len: "4 + ?len \<le> length xs" using True by (simp add: has_frame_def)
    then have "frames (drop (4 + ?len) xs @ ys)
        = (case frames (r @ ys) of (ms', bad, r') \<Rightarrow> (ms1 @ ms', bad, r'))"
      by (intro less.hyps rest) auto
    then show ?thesis
      using len has_frame_append [OF True, of ys] ms
      by (auto simp: frames_next split: prod.splits)
  qed
qed

lemma frames_rest: "frames q = (ms, bad, r) \<Longrightarrow> \<not> has_frame r \<and> bad_frame r = bad"
proof (induction "length q" arbitrary: q ms rule: less_induct)
  case less
  show ?case
  proof (cases "has_frame q")
    case False
    with less.prems show ?thesis by (auto simp: frames_stop)
  next
    case True
    then have "length (drop (4 + nat (frame_len q)) q) < length q"
      by (auto simp: has_frame_def)
    from less.hyps [OF this] True less.prems show ?thesis
      by (auto simp: frames_next split: prod.splits)
  qed
qed

lemma frames_bad_append:
  "frames xs = (ms, True, r) \<Longrightarrow> frames (xs @ ys) = (ms, True, r @ ys)"
proof (induction "length xs" arbitrary: xs ms rule: less_induct)
  case less
  show ?case
  proof (cases "has_frame xs")
    case False
    with less.prems have "ms = []" "bad_frame xs" "r = xs" by (auto simp: frames_stop)
    moreover from this have "\<not> has_frame (xs @ ys) \<and> bad_frame (xs @ ys)"
      by (auto simp: bad_frame_def has_frame_def frame_len_def)
    ultimately show ?thesis by (simp add: frames_stop)
  next
    case True
    then have len: "4 + nat (frame_len xs) \<le> length xs"
      and less_len: "length (drop (4 + nat (frame_len xs)) xs) < length xs"
      by (auto simp: has_frame_def)
    with True less.prems less.hyps [OF less_len] show ?thesis
      using has_frame_append [OF True, of ys] by (auto simp: frames_next split: prod.splits)
  qed
qed

lemma frames_messages:
  "\<forall>m \<in> set ms. length m \<le> 65536 \<Longrightarrow> frames (concat (map frame ms)) = (ms, False, [])"
  using frames_concat [of ms "[]"] by simp

subsection \<open>The receive loop refines the frame splitter\<close>

lemma codec_peek:
  assumes "buffer_ok b" and "4 \<le> length (readable b)"
  obtains w where "peekInt32 b = Inr w" and "sint (ntohl w) = frame_len (readable b)"
  using assms by (intro that [of "le32 (take 4 (readable b))"])
    (simp_all add: peekInt32_correct ntohl_le32 frame_len_def)

lemma frame_size:
  "0 \<le> frame_len q \<Longrightarrow> frame_len q \<le> 65536 \<Longrightarrow>
   sz_add (nat (frame_len q)) kHeaderLen = nat (frame_len q) + 4"
  by (subst sz_add_small) (auto simp: kHeaderLen_def kMaxSize_def)

lemma codec_stop:
  assumes ok: "buffer_ok b" and no: "\<not> has_frame (readable b)"
  shows "codec_onMessage cb shutdown s b =
           Some (Inr (if bad_frame (readable b) then shutdown s else s, b))"
proof (cases "4 \<le> length (readable b)")
  case True
  with ok obtain w where w: "peekInt32 b = Inr w" "sint (ntohl w) = frame_len (readable b)"
    by (rule codec_peek)
  have size: "sz_add (nat (frame_len (readable b))) kHeaderLen = nat (frame_len (readable b)) + 4"
    if "\<not> bad_frame (readable b)"
    using that True by (intro frame_size) (auto simp: bad_frame_def)
  show ?thesis
  proof (cases "bad_frame (readable b)")
    case bad: True
    with True w show ?thesis
      using readableBytes_length [OF ok]
      by (subst codec_onMessage.simps) (simp add: kHeaderLen_def bad_frame_def)
  next
    case good: False
    then have "\<not> sz_add (nat (frame_len (readable b))) kHeaderLen \<le> length (readable b)"
      using size no True by (auto simp: bad_frame_def has_frame_def)
    with good True w show ?thesis
      using readableBytes_length [OF ok]
      by (subst codec_onMessage.simps) (auto simp: kHeaderLen_def bad_frame_def)
  qed
next
  case False
  with ok show ?thesis
    by (subst codec_onMessage.simps) (simp add: kHeaderLen_def readableBytes_length bad_frame_def)
qed

lemma codec_next:
  assumes ok: "buffer_ok b" and room: "has_room n b" and fr: "has_frame (readable b)"
  defines "k \<equiv> nat (frame_len (readable b))"
  obtains b' where "codec_onMessage cb shutdown s b
      = codec_onMessage cb shutdown (cb s (take k (drop 4 (readable b)))) b'"
    and "buffer_ok b'" and "has_room n b'" and "readable b' = drop (4 + k) (readable b)"
proof -
  have four: "4 \<le> length (readable b)" and k: "4 + k \<le> length (readable b)"
    using fr by (simp_all add: has_frame_def k_def)
  from ok four obtain w where w: "peekInt32 b = Inr w" "sint (ntohl w) = frame_len (readable b)"
    by (rule codec_peek)
  from retrieve_correct [OF ok four] obtain b1 where b1: "retrieve 4 b = Inr b1"
      "buffer_ok b1" "readable b1 = drop 4 (readable b)" "writerIndex b1 \<le> writerIndex b" .
  have "k \<le> length (readable b1)" using b1(3) k by simp
  from retrieveAsString_correct [OF b1(2) this] obtain b2 where
    b2: "retrieveAsString k b1 = Inr (take k (readable b1), b2)" "buffer_ok b2"
      "readable b2 = drop k (readable b1)" "writerIndex b2 \<le> writerIndex b1" .
  have "codec_onMessage cb shutdown s b
      = codec_onMessage cb shutdown (cb s (take k (drop 4 (readable b)))) b2"
    using fr w b1 b2 frame_size [of "readable b"] readableBytes_length [OF ok]
    by (subst codec_onMessage.simps) (auto simp: kHeaderLen_def has_frame_def k_def)
  then show ?thesis
    using b1 b2 room by (intro that) (simp_all add: has_room_def add.commute)
qed

lemma codec_onMessage_refines:
  assumes "buffer_ok b" and "has_room n b" and "frames (readable b) = (ms, bad, r)"
  shows "\<exists>b'. codec_onMessage cb shutdown s b =
            Some (Inr ((if bad then shutdown else id) (foldl cb s ms), b')) \<and>
           buffer_ok b' \<and> has_room n b' \<and> readable b' = r"
  using assms
proof (induction "length (readable b)" arbitrary: b s ms rule: less_induct)
  case less
  note ok = less.prems(1) and room = less.prems(2)
  show ?case
  proof (cases "has_frame (readable b)")
    case False
    with less.prems show ?thesis by (auto simp: codec_stop frames_stop)
  next
    case True
    let ?k = "nat (frame_len (readable b))"
    let ?m = "take ?k (drop 4 (readable b))"
    from codec_next [OF ok room True] obtain b' where
      step: "codec_onMessage cb shutdown s b = codec_onMessage cb shutdown (cb s ?m) b'" and
      b': "buffer_ok b'" "has_room n b'" "readable b' = drop (4 + ?k) (readable b)" .
    from True less.prems(3) b'(3) obtain ms1 where
      "frames (readable b') = (ms1, bad, r)" and ms: "ms = ?m # ms1"
      by (auto simp: frames_next split: prod.splits)
    moreover have "length (readable b') < length (readable b)"
      using True b'(3) by (auto simp: has_frame_def)
    ultimately show ?thesis
      using less.hyps [of b' ms1 "cb s ?m"] b' by (simp add: step ms)
  qed
qed

lemma codec_feed_refines:
  assumes "buffer_ok b" and "has_room (length (concat cs)) b"
    and "\<not> has_frame (readable b)" and "frames (readable b @ concat cs) = (ms, False, r)"
  shows "\<exists>b'. codec_feed cb shutdown cs s b = Some (Inr (foldl cb s ms, b')) \<and>
           buffer_ok b' \<and> readable b' = r"
  using assms
proof (induction cs arbitrary: b s ms)
  case Nil
  then show ?case by (simp add: frames_stop)
next
  case (Cons c cs)
  from Cons.prems(1,2) obtain b1 where b1: "append_buf c b = Inr b1" "buffer_ok b1"
      "has_room (length (concat cs)) b1" "readable b1 = readable b @ c"
    using buf.enq_law [of b c "length (concat cs)"] by auto
  obtain ms1 bad r1 where f1: "frames (readable b1) = (ms1, bad, r1)"
    by (cases "frames (readable b1)") auto
  have whole: "frames (readable b1 @ concat cs) = (ms, False, r)"
    using Cons.prems(4) b1(4) by simp
  have "\<not> bad"
    using frames_bad_append [of "readable b1" ms1 r1 "concat cs"] f1 whole by (cases bad) auto
  with f1 whole obtain ms2 where f2: "frames (r1 @ concat cs) = (ms2, False, r)"
    and ms: "ms = ms1 @ ms2"
    using frames_append [of "readable b1" ms1 r1 "concat cs"] by (auto split: prod.splits)
  obtain b2 where b2: "codec_onMessage cb shutdown s b1 = Some (Inr (foldl cb s ms1, b2))"
      "buffer_ok b2" "has_room (length (concat cs)) b2" "readable b2 = r1"
    using codec_onMessage_refines [OF b1(2,3) f1, of cb shutdown s] \<open>\<not> bad\<close> by auto
  have "\<not> has_frame (readable b2)" using frames_rest [OF f1] b2(4) by simp
  with Cons.IH [OF b2(2,3), of ms2 "foldl cb s ms1"] f2 b1 b2 ms show ?case by simp
qed

lemma codec_send_frame:
  assumes "length m + kCheapPrepend \<le> kMaxSize"
  shows "\<exists>b. codec_send m = Inr b \<and> buffer_ok b \<and> readable b = frame m"
proof -
  let ?b0 = "new_buffer kInitialSize"
  have "has_room (length m) ?b0"
    using assms by (simp add: new_buffer_room)
  with new_buffer_ok obtain b1 where b1: "append_buf m ?b0 = Inr b1" "buffer_ok b1"
      "readable b1 = readable ?b0 @ m" "min (readerIndex ?b0) kCheapPrepend \<le> readerIndex b1"
    by (rule append_buf_correct)
  have "length (bytes32 w) \<le> readerIndex b1" for w
    using b1(4) by (simp add: new_buffer_def kCheapPrepend_def)
  from prepend_correct [OF b1(2) this] obtain b2 where
    "prepend (bytes32 (htonl (word_of_nat (length m)))) b1 = Inr b2" "buffer_ok b2"
    "readable b2 = bytes32 (htonl (word_of_nat (length m))) @ readable b1" .
  with b1 show ?thesis
    by (simp add: codec_send_def Let_def bytes32_htonl frame_def new_buffer_empty)
qed

subsection \<open>Properties\<close>

text \<open>C13. What is sent is what is received, however the network cuts it: messages of at
  most 65536 bytes are turned into frames by \<open>send\<close> without a failure, and whenever a
  receiver gets the concatenation of these frames in any chunks at all, its receive loop
  ends after every chunk, hands over exactly these messages in order, never shuts down,
  and leaves no byte behind.\<close>

theorem codec_roundtrip:
  assumes "\<forall>m \<in> set ms. length m \<le> 65536"
  shows "\<exists>bufs. map codec_send ms = map Inr bufs \<and>
     (\<forall>cs. concat cs = concat (map readable bufs) \<and> length (concat cs) + kCheapPrepend \<le> kMaxSize \<longrightarrow>
        (\<exists>b. codec_feed cb shutdown cs s (new_buffer n) = Some (Inr (foldl cb s ms, b)) \<and>
             buffer_ok b \<and> readable b = []))"
proof -
  have small: "length m + kCheapPrepend \<le> kMaxSize" if "length m \<le> 65536" for m :: string
    using that by (simp add: kCheapPrepend_def kMaxSize_def)
  from assms have "\<exists>bufs. map codec_send ms = map Inr bufs \<and> map readable bufs = map frame ms"
  proof (induction ms)
    case (Cons m ms)
    then obtain bufs b where "map codec_send ms = map Inr bufs" "map readable bufs = map frame ms"
      "codec_send m = Inr b" "readable b = frame m"
      using codec_send_frame [OF small, of m] by auto
    then show ?case by (intro exI [of _ "b # bufs"]) simp
  qed simp
  then obtain bufs where bufs: "map codec_send ms = map Inr bufs"
    and frs: "map readable bufs = map frame ms" by blast
  have "\<exists>b. codec_feed cb shutdown cs s (new_buffer n) = Some (Inr (foldl cb s ms, b)) \<and>
          buffer_ok b \<and> readable b = []"
    if "concat cs = concat (map readable bufs)" "length (concat cs) + kCheapPrepend \<le> kMaxSize" for cs
    using that frs assms new_buffer_ok codec_feed_refines [of "new_buffer n" cs ms "[]"]
    by (simp add: new_buffer_empty frames_messages has_frame_def new_buffer_room)
  with bufs show ?thesis by blast
qed

theorem codec_roundtrip_witness:
  "\<exists>bufs. map codec_send [''hi'', ''''] = map Inr bufs \<and>
     (\<forall>cs. concat cs = concat (map readable bufs) \<and> length (concat cs) + kCheapPrepend \<le> kMaxSize \<longrightarrow>
        (\<exists>b. codec_feed (\<lambda>s m. s @ [m]) (\<lambda>s. []) cs [] (new_buffer 0)
               = Some (Inr ([''hi'', ''''], b)) \<and> buffer_ok b \<and> readable b = []))"
  using codec_roundtrip [of "[''hi'', '''']" "\<lambda>s m. s @ [m]" "\<lambda>s. []" "[]" 0] by simp

text \<open>C34. The receive loop ends on every buffer, with no failing assert and no access outside
  the buffer: it delivers the messages of the whole frames at the front of the unread
  bytes, keeps the incomplete rest, and calls \<open>shutdown\<close> exactly when the next length field
  is negative or above 65536.\<close>

theorem codec_onMessage_total:
  assumes "buffer_ok b"
  shows "case frames (readable b) of (ms, bad, r) \<Rightarrow>
     (\<exists>b'. codec_onMessage cb shutdown s b
             = Some (Inr ((if bad then shutdown else id) (foldl cb s ms), b')) \<and>
           buffer_ok b' \<and> readable b' = r)"
proof -
  have "has_room 0 b" using buffer_okD [OF assms] by (simp add: has_room_def)
  then show ?thesis
    using codec_onMessage_refines [OF assms, of 0 _ _ _ cb shutdown s] by (fastforce split: prod.split)
qed

theorem codec_onMessage_total_witness:
  "case frames (readable (new_buffer 0)) of (ms, bad, r) \<Rightarrow>
     (\<exists>b'. codec_onMessage (\<lambda>s m. s @ [m]) (\<lambda>s. []) [] (new_buffer 0)
             = Some (Inr ((if bad then (\<lambda>s. []) else id) (foldl (\<lambda>s m. s @ [m]) [] ms), b')) \<and>
           buffer_ok b' \<and> readable b' = r)"
  by (rule codec_onMessage_total [OF new_buffer_ok])

text \<open>The sender does not apply the receiver's limit: a message longer than 65536 bytes
  (and shorter than \<open>2 ^ 31\<close>) is framed and sent, and the receiver then delivers nothing
  and shuts the connection down.\<close>

lemma codec_oversize:
  assumes "65536 < length m" and "length m < 2 ^ 31"
  shows "\<exists>b. codec_send m = Inr b \<and>
     (\<exists>b'. codec_onMessage cb shutdown s b = Some (Inr (shutdown s, b')) \<and> readable b' = frame m)"
proof -
  have "length m + kCheapPrepend \<le> kMaxSize"
    using assms(2) by (simp add: kCheapPrepend_def kMaxSize_def)
  then obtain b where b: "codec_send m = Inr b" "buffer_ok b" "readable b = frame m"
    using codec_send_frame by blast
  have "frame_len (frame m) = int (length m)"
    using frame_len_frame [OF assms(2), of "[]"] by simp
  then have "\<not> has_frame (readable b) \<and> bad_frame (readable b)"
    using assms(1) b(3) by (simp add: has_frame_def bad_frame_def)
  with b codec_stop [OF b(2), of cb shutdown s] show ?thesis by simp
qed

end
