(* ===== verification/InetAddr.thy ===== *)
theory InetAddr
  imports Codec Format
begin

text \<open>
  \<open>yvent/InetAddr.h\<close> and \<open>InetAddr.cpp\<close>: an IPv4 address and port.  The fields hold their
  values in network byte order, as the code stores them.  \<open>inet_ntop\<close> is the dotted decimal
  notation of the four bytes; \<open>inet_pton\<close> is a parameter, from a string to the address in
  network order if the string is one.
\<close>

record sockaddr_in =
  sin_family :: nat
  sin_addr :: "32 word"
  sin_port :: "16 word"

definition AF_INET :: nat where "AF_INET = 2"
definition INADDR_ANY :: "32 word" where "INADDR_ANY = 0"
definition INADDR_LOOPBACK :: "32 word" where "INADDR_LOOPBACK = 0x7F000001"

definition htons :: "16 word \<Rightarrow> 16 word" where
  "htons w = push_bit 8 w OR drop_bit 8 w"

definition inet_ntop :: "32 word \<Rightarrow> string" where
  "inet_ntop w = concat (map (\<lambda>c. dec_nat (of_char c) @ ''.'') (butlast (bytes32 w)))
                 @ dec_nat (of_char (last (bytes32 w)))"

definition inet_port :: "16 word \<Rightarrow> bool \<Rightarrow> sockaddr_in" where
  "inet_port port loopback =
     (let ip = (if loopback then INADDR_LOOPBACK else INADDR_ANY) in
      \<lparr> sin_family = AF_INET, sin_addr = htonl ip, sin_port = htons port \<rparr>)"

definition inet_string ::
  "(string \<Rightarrow> 32 word option) \<Rightarrow> string \<Rightarrow> 16 word \<Rightarrow> sockaddr_in res" where
  "inet_string inet_pton ip port =
     (case inet_pton ip of
        None \<Rightarrow> Inl Aborted
      | Some a \<Rightarrow> Inr \<lparr> sin_family = AF_INET, sin_addr = a, sin_port = htons port \<rparr>)"

definition setAddr :: "sockaddr_in \<Rightarrow> sockaddr_in \<Rightarrow> sockaddr_in" where
  "setAddr addr self = addr"

definition inet_port_of :: "sockaddr_in \<Rightarrow> 16 word" where
  "inet_port_of a = htons (sin_port a)"

definition inet_ip_of :: "sockaddr_in \<Rightarrow> string" where
  "inet_ip_of a = inet_ntop (sin_addr a)"

lemma htons_htons [simp]: "htons (htons w) = w"
proof (rule bit_eqI)
  fix n assume "possible_bit TYPE(16 word) n"
  then have n: "n < 16" by simp
  show "bit (htons (htons w)) n = bit w n"
  proof (cases "n < 8")
    case True
    then show ?thesis using n by (auto simp: htons_def bit_simps dest: bit_imp_le_length)
  next
    case False
    then show ?thesis using n by (auto simp: htons_def bit_simps dest: bit_imp_le_length)
  qed
qed

lemma bytes32_four: "\<exists>a b c d. bytes32 w = [a, b, c, d]"
  by (simp add: bytes32_def upt_rec)

lemma dec_byte: "length (dec_nat (of_char c)) \<le> 3"
proof (rule dec_nat_length)
  show "of_char c < (10::nat) ^ 3" by (rule less_trans [OF of_char_less]) simp
qed simp

lemma inet_ntop_length: "length (inet_ntop w) \<le> 15"
proof -
  obtain a b c d where "bytes32 w = [a, b, c, d]" using bytes32_four by blast
  with dec_byte [of a] dec_byte [of b] dec_byte [of c] dec_byte [of d] show ?thesis
    by (simp add: inet_ntop_def)
qed

text \<open>An address made from a port gives the port back through the two byte-order
  conversions, and its text is the loopback or the wildcard address; the text of any
  address has at most 15 characters.\<close>

lemma inet_port_text:
  "inet_port_of (inet_port p loopback) = p \<and>
   inet_ip_of (inet_port p loopback) = (if loopback then ''127.0.0.1'' else ''0.0.0.0'') \<and>
   length (inet_ip_of a) \<le> 15"
proof -
  have "bytes32 INADDR_ANY = map char_of [0, 0, 0, 0 :: nat]"
    and "bytes32 INADDR_LOOPBACK = map char_of [1, 0, 0, 127 :: nat]"
    by (simp_all add: bytes32_def INADDR_ANY_def INADDR_LOOPBACK_def upt_rec)
  then have any: "inet_ntop (htonl INADDR_ANY) = ''0.0.0.0''"
    and loop: "inet_ntop (htonl INADDR_LOOPBACK) = ''127.0.0.1''"
    by (simp_all add: inet_ntop_def bytes32_htonl of_char_of dec_nat.simps char_of_eq_iff)
  show ?thesis
    by (simp add: inet_port_of_def inet_port_def inet_ip_of_def inet_ntop_length any loop)
qed

end
