(* ===== verification/Acceptor.thy ===== *)
theory Acceptor
  imports InetAddr Channel
begin

text \<open>
  \<open>yvent/Socket.{h,cpp}\<close> and \<open>Acceptor.{h,cpp}\<close>: the socket calls that abort the program on an
  error, and the listening socket.  The calls are the record \<open>sock_os\<close> on the state \<open>'o\<close> of
  the operating system, each with the C function's return value; \<open>epoll_ctl\<close> is the one of
  \<open>Channel\<close>.
\<close>

subsection \<open>Socket calls\<close>

record 'o sock_os =
  so_socket :: "int \<Rightarrow> int \<Rightarrow> int \<Rightarrow> 'o \<Rightarrow> int \<times> 'o"
  so_bind :: "int \<Rightarrow> sockaddr_in \<Rightarrow> 'o \<Rightarrow> int \<times> 'o"
  so_connect :: "int \<Rightarrow> sockaddr_in \<Rightarrow> 'o \<Rightarrow> int \<times> 'o"
  so_accept :: "int \<Rightarrow> 'o \<Rightarrow> int \<times> 'o"
  so_listen :: "int \<Rightarrow> int \<Rightarrow> 'o \<Rightarrow> int \<times> 'o"
  so_setsockopt :: "int \<Rightarrow> int \<Rightarrow> int \<Rightarrow> int \<Rightarrow> 'o \<Rightarrow> int \<times> 'o"

text \<open>\<open>if (ret == -1) LOG_SYSFATAL(...); return ret;\<close>\<close>

definition or_abort :: "int \<times> 'o \<Rightarrow> (int \<times> 'o) res" where
  "or_abort r = (if fst r = -1 then Inl Aborted else Inr r)"

definition Socket :: "'o sock_os \<Rightarrow> int \<Rightarrow> int \<Rightarrow> int \<Rightarrow> 'o \<Rightarrow> (int \<times> 'o) res" where
  "Socket os domain type protocol s = or_abort (so_socket os domain type protocol s)"

definition Bind :: "'o sock_os \<Rightarrow> int \<Rightarrow> sockaddr_in \<Rightarrow> 'o \<Rightarrow> (int \<times> 'o) res" where
  "Bind os fd addr s = or_abort (so_bind os fd addr s)"

definition Connect :: "'o sock_os \<Rightarrow> int \<Rightarrow> sockaddr_in \<Rightarrow> 'o \<Rightarrow> (int \<times> 'o) res" where
  "Connect os fd addr s = or_abort (so_connect os fd addr s)"

definition Accept :: "'o sock_os \<Rightarrow> int \<Rightarrow> 'o \<Rightarrow> (int \<times> 'o) res" where
  "Accept os fd s = or_abort (so_accept os fd s)"

definition Listen :: "'o sock_os \<Rightarrow> int \<Rightarrow> int \<Rightarrow> 'o \<Rightarrow> (int \<times> 'o) res" where
  "Listen os fd n s = or_abort (so_listen os fd n s)"

definition Setsockopt :: "'o sock_os \<Rightarrow> int \<Rightarrow> int \<Rightarrow> int \<Rightarrow> int \<Rightarrow> 'o \<Rightarrow> (int \<times> 'o) res" where
  "Setsockopt os sockfd level optname optval s = or_abort (so_setsockopt os sockfd level optname optval s)"

subsection \<open>The acceptor\<close>

definition SOL_SOCKET :: int where "SOL_SOCKET = 1"
definition SO_REUSEADDR :: int where "SO_REUSEADDR = 2"
definition SO_REUSEPORT :: int where "SO_REUSEPORT = 15"
definition SOMAXCONN :: int where "SOMAXCONN = 4096"

text \<open>\<open>SOCK_STREAM | SOCK_NONBLOCK | SOCK_CLOEXEC\<close>.\<close>

definition sock_type :: int where
  "sock_type = 1 OR (0x800 OR 0x80000)"

record acceptor =
  ac_lfd :: int
  ac_host :: sockaddr_in
  ac_channel :: channel

definition new_acceptor :: "'o sock_os \<Rightarrow> sockaddr_in \<Rightarrow> 'o \<Rightarrow> (acceptor \<times> 'o) res" where
  "new_acceptor os host s =
     rbind (Socket os (int AF_INET) sock_type 0 s) (\<lambda>(lfd, s1).
     let a = \<lparr> ac_lfd = lfd, ac_host = host, ac_channel = new_channel lfd \<rparr> in
     rbind (assert (ac_lfd a = ch_fd (ac_channel a))) (\<lambda>_.
     rbind (Setsockopt os lfd SOL_SOCKET SO_REUSEADDR 1 s1) (\<lambda>(_, s2).
     rbind (Setsockopt os lfd SOL_SOCKET SO_REUSEPORT 1 s2) (\<lambda>(_, s3).
     rbind (Bind os lfd host s3) (\<lambda>(_, s4). Inr (a, s4))))))"

definition acceptor_listen ::
  "'o sock_os \<Rightarrow> ('o, 'p) epoll_ctl \<Rightarrow> 'p \<Rightarrow> bool \<Rightarrow> acceptor \<Rightarrow> 'o \<Rightarrow> (acceptor \<times> 'o) res" where
  "acceptor_listen os ctl self inLoop a s =
     rbind (assert inLoop) (\<lambda>_.
     rbind (Listen os (ac_lfd a) SOMAXCONN s) (\<lambda>(_, s1).
     rbind (enableRead ctl inLoop self (ac_channel a) s1) (\<lambda>(c, s2, err).
     Inr (a\<lparr>ac_channel := c\<rparr>, s2))))"

definition ECONNABORTED :: int where "ECONNABORTED = 103"
definition EMFILE :: int where "EMFILE = 24"

text \<open>\<open>Acceptor::handleRead\<close>: \<open>accepted\<close> is the answer of \<open>accept4\<close>, the callback may be unset.\<close>

definition acceptor_handleRead ::
  "bool \<Rightarrow> (int \<Rightarrow> sockaddr_in \<Rightarrow> 's \<Rightarrow> 's res) option \<Rightarrow> (int \<Rightarrow> 's \<Rightarrow> 's) \<Rightarrow>
   int + int \<times> sockaddr_in \<Rightarrow> 's \<Rightarrow> 's res" where
  "acceptor_handleRead inLoop newConnectionCallback close accepted s =
     rbind (assert inLoop) (\<lambda>_.
     case accepted of
       Inl savedErrno \<Rightarrow>
         if savedErrno = ECONNABORTED \<or> savedErrno = EMFILE then Inr s else Inl Aborted
     | Inr (cfd, addr) \<Rightarrow>
         let inetAddrPeer = setAddr addr (inet_port 0 False) in
         (case newConnectionCallback of
            Some cb \<Rightarrow> cb cfd inetAddrPeer s
          | None \<Rightarrow> Inr (close cfd s)))"

subsection \<open>Facts\<close>

lemma or_abort_Inr [res_simps]: "or_abort r = Inr r' \<longleftrightarrow> fst r \<noteq> -1 \<and> r' = r"
  by (auto simp: or_abort_def)

lemma new_acceptor_channel:
  "new_acceptor os host s = Inr (a, s') \<Longrightarrow>
   ac_host a = host \<and> ac_channel a = new_channel (ac_lfd a) \<and> ac_lfd a \<noteq> -1"
  by (auto simp: new_acceptor_def Socket_def res_simps Let_def split: prod.splits)

text \<open>A listening acceptor is registered for reading, when \<open>epoll_ctl\<close> is as documented.\<close>

lemma acceptor_listen_registered:
  assumes "epoll_kernel ctl interest" and "ac_channel a = new_channel (ac_lfd a)"
    and "Listen os (ac_lfd a) SOMAXCONN s = Inr (ret, s1)" and "interest s1 (ac_lfd a) = None"
  obtains s' where
    "acceptor_listen os ctl self True a s = Inr (a\<lparr>ac_channel := (ac_channel a)\<lparr>ch_events := EPOLLIN OR EPOLLPRI,
        ch_state := kAdded\<rparr>\<rparr>, s')"
    and "interest s' = (interest s1)(ac_lfd a \<mapsto> (EPOLLIN OR EPOLLPRI, self))"
proof -
  let ?c = "(new_channel (ac_lfd a))\<lparr>ch_events := EPOLLIN OR EPOLLPRI\<rparr>"
  have "ch_events ?c \<noteq> 0" by (simp add: epoll_consts)
  then obtain s' where "updateChannel ctl True self ?c s1 = Inr (?c\<lparr>ch_state := kAdded\<rparr>, s', None)"
    "interest s' = (interest s1)(ch_fd ?c \<mapsto> (ch_events ?c, self))"
    using epoll_kernel.update_new [OF assms(1), of s1 ?c self] assms(4) by (auto simp: new_channel_def)
  then show ?thesis
    using assms(2,3) by (intro that [of s']) (simp_all add: acceptor_listen_def enableRead_def new_channel_def)
qed

subsection \<open>Properties\<close>

text \<open>The acceptor hands every accepted connection on, or closes it when there is no
  callback, and survives exactly two errors of \<open>accept4\<close>: any other one, such as the
  \<open>EAGAIN\<close> of a client that has already gone, aborts the program.\<close>

lemma acceptor_branches:
  "acceptor_handleRead True cb close acc s =
     (case acc of
        Inl err \<Rightarrow> if err \<in> {ECONNABORTED, EMFILE} then Inr s else Inl Aborted
      | Inr (cfd, addr) \<Rightarrow> (case cb of Some f \<Rightarrow> f cfd addr s | None \<Rightarrow> Inr (close cfd s)))"
  by (auto simp: acceptor_handleRead_def setAddr_def Let_def split: sum.split option.split)

end
