(* ===== verification/Client.thy ===== *)
theory Client
  imports TcpConnection Acceptor
begin

text \<open>
  \<open>yvent/Connector.{h,cpp}\<close> and \<open>TcpClient.{h,cpp}\<close>: making a connection and the client that
  owns it.  The state is the \<open>world\<close> of \<open>TcpConnection\<close> with the client as its application
  state: the connector, whether \<open>connection_\<close> is set, the tasks that other threads have
  queued, and the state of the application proper.  The connector and the connection use
  the same descriptor, one after the other, through two channels.
\<close>

subsection \<open>State\<close>

record connector =
  cn_server :: sockaddr_in
  cn_cfd :: int
  cn_connected :: bool
  cn_started :: bool
  cn_channel :: channel

datatype client_task = CStart | CSend string

record 'a client =
  cl_connector :: connector
  cl_connection :: bool
  cl_name :: string
  cl_tasks :: "client_task list"
  cl_app :: 'a

type_synonym ('e, 'o, 'a) cworld = "('e, 'o, 'a client) world"

text \<open>
  The calls on the socket: \<open>connect\<close> gives 0 or an errno, \<open>getsockopt(SO_ERROR)\<close> its own errno
  or the pending error, the last two the addresses of the two ends.
\<close>

record 'o net_os =
  no_connect :: "int \<Rightarrow> sockaddr_in \<Rightarrow> 'o \<Rightarrow> int \<times> 'o"
  no_so_error :: "int \<Rightarrow> 'o \<Rightarrow> (int + int) \<times> 'o"
  no_getsockname :: "int \<Rightarrow> 'o \<Rightarrow> sockaddr_in"
  no_getpeername :: "int \<Rightarrow> 'o \<Rightarrow> sockaddr_in"

definition EINPROGRESS :: int where "EINPROGRESS = 115"

text \<open>The callbacks given to the client.\<close>

record 'w client_callbacks =
  clientConnection :: "'w callback"
  clientMessage :: "'w callback"
  clientWriteComplete :: "'w callback"
  clientError :: "'w callback"

definition upd_connector ::
  "(connector \<Rightarrow> connector) \<Rightarrow> ('e, 'o, 'a) cworld \<Rightarrow> ('e, 'o, 'a) cworld" where
  "upd_connector f w = w\<lparr>w_user := (w_user w)\<lparr>cl_connector := f (cl_connector (w_user w))\<rparr>\<rparr>"

definition new_connector :: "'o sock_os \<Rightarrow> sockaddr_in \<Rightarrow> 'o \<Rightarrow> (connector \<times> 'o) res" where
  "new_connector sos server o1 =
     rbind (Socket sos (int AF_INET) sock_type 0 o1) (\<lambda>(fd, o2).
     Inr (\<lparr> cn_server = server, cn_cfd = fd, cn_connected = False, cn_started = False,
            cn_channel = new_channel fd \<rparr>, o2))"

definition new_client :: "'o sock_os \<Rightarrow> sockaddr_in \<Rightarrow> 'a \<Rightarrow> 'o \<Rightarrow> ('a client \<times> 'o) res" where
  "new_client sos server app o1 =
     rbind (new_connector sos server o1) (\<lambda>(cn, o2).
     Inr (\<lparr> cl_connector = cn, cl_connection = False, cl_name = [], cl_tasks = [], cl_app = app \<rparr>, o2))"

subsection \<open>The connection of a client\<close>

text \<open>\<open>closeConnection\<close>: \<open>connection_.reset()\<close> gives up the client's \<open>shared_ptr\<close>.\<close>

definition closeConnection ::
  "('e, 'o) os \<Rightarrow> ('e, 'o, 'a) cworld client_callbacks \<Rightarrow> nat \<Rightarrow>
   ('e, 'o, 'a) cworld \<Rightarrow> ('e, 'o, 'a) cworld res" where
  "closeConnection os cbs tid w =
     rbind (assert (isInLoopThread tid w)) (\<lambda>_.
     rbind (assert (cl_connection (w_user w))) (\<lambda>_.
     rbind (release os 1 (w\<lparr>w_user := (w_user w)\<lparr>cl_connection := False\<rparr>\<rparr>)) (call (clientConnection cbs))))"

definition client_conn_callbacks ::
  "('e, 'o) os \<Rightarrow> ('e, 'o, 'a) cworld client_callbacks \<Rightarrow> nat \<Rightarrow> ('e, 'o, 'a) cworld conn_callbacks" where
  "client_conn_callbacks os cbs tid =
     \<lparr> connectionCallback = None, messageCallback = clientMessage cbs,
       closeCallback = Some (closeConnection os cbs tid), writeCompleteCallback = clientWriteComplete cbs \<rparr>"

definition client_name :: "sockaddr_in \<Rightarrow> string" where
  "client_name peer = snprintf 32 ('':'' @ inet_ip_of peer @ ''#'' @ fmt_int (int (unat (inet_port_of peer))))"

text \<open>
  \<open>newConnection\<close>: a former connection is given up by the assignment to \<open>connection_\<close>; the
  connection callback gets a reference to \<open>connection_\<close> itself, so no further owner.
\<close>

definition client_newConnection ::
  "('e, 'o) os \<Rightarrow> 'o net_os \<Rightarrow> ('e, 'o, 'a) cworld client_callbacks \<Rightarrow> nat \<Rightarrow> int \<Rightarrow> sockaddr_in \<Rightarrow>
   ('e, 'o, 'a) cworld \<Rightarrow> ('e, 'o, 'a) cworld res" where
  "client_newConnection os net cbs tid cfd local w =
     rbind (assert (isInLoopThread tid w)) (\<lambda>_.
     let peer = no_getpeername net cfd (w_os w) in
     rbind (if cl_connection (w_user w) then release os 1 w else Inr w) (\<lambda>w1.
     let w2 = w1\<lparr>w_conn := Some (new_connection cfd), w_refs := 1,
                 w_user := (w_user w1)\<lparr>cl_connection := True, cl_name := client_name peer\<rparr>\<rparr> in
     rbind (conn_enableRead os (client_conn_callbacks os cbs tid) tid w2) (call (clientConnection cbs))))"

subsection \<open>The connector\<close>

definition connector_channel ::
  "('e, 'o) os \<Rightarrow> nat \<Rightarrow> chan_op \<Rightarrow> ('e, 'o, 'a) cworld \<Rightarrow> ('e, 'o, 'a) cworld res" where
  "connector_channel os tid op w =
     rbind (chan_do (os_ctl os) (isInLoopThread tid w) () op (cn_channel (cl_connector (w_user w))) (w_os w))
       (\<lambda>(ch, o', err). Inr (upd_connector (\<lambda>c. c\<lparr>cn_channel := ch\<rparr>) (w\<lparr>w_os := o'\<rparr>)))"

text \<open>\<open>onError\<close> and \<open>onNew\<close> are \<open>errorCallback_\<close> and \<open>newConnectionCallback_\<close>.\<close>

definition connector_handleWrite ::
  "('e, 'o) os \<Rightarrow> 'o net_os \<Rightarrow> ('e, 'o, 'a) cworld callback \<Rightarrow>
   (int \<Rightarrow> sockaddr_in \<Rightarrow> ('e, 'o, 'a) cworld \<Rightarrow> ('e, 'o, 'a) cworld res) option \<Rightarrow> nat \<Rightarrow>
   ('e, 'o, 'a) cworld \<Rightarrow> ('e, 'o, 'a) cworld res" where
  "connector_handleWrite os net onError onNew tid w =
     rbind (assert (isInLoopThread tid w)) (\<lambda>_.
     let cfd = cn_cfd (cl_connector (w_user w)) in
     rbind (assert (cn_started (cl_connector (w_user w)))) (\<lambda>_.
     rbind (connector_channel os tid DisableAll w) (\<lambda>w1.
     case no_so_error net cfd (w_os w1) of (r, o') \<Rightarrow>
       let errno = (case r of Inl e \<Rightarrow> e | Inr err \<Rightarrow> err); w2 = w1\<lparr>w_os := o'\<rparr> in
       if errno \<noteq> 0 then call onError w2
       else
         case onNew of
           None \<Rightarrow> Inr w2
         | Some newConnection \<Rightarrow>
             let local = setAddr (no_getsockname net cfd (w_os w2)) (inet_port 0 False) in
             newConnection cfd local (upd_connector (\<lambda>c. c\<lparr>cn_connected := True\<rparr>) w2))))"

definition connector_start ::
  "('e, 'o) os \<Rightarrow> 'o net_os \<Rightarrow> ('e, 'o, 'a) cworld callback \<Rightarrow>
   (int \<Rightarrow> sockaddr_in \<Rightarrow> ('e, 'o, 'a) cworld \<Rightarrow> ('e, 'o, 'a) cworld res) option \<Rightarrow> nat \<Rightarrow>
   ('e, 'o, 'a) cworld \<Rightarrow> ('e, 'o, 'a) cworld res" where
  "connector_start os net onError onNew tid w =
     rbind (assert (isInLoopThread tid w)) (\<lambda>_.
     rbind (assert (\<not> cn_started (cl_connector (w_user w)))) (\<lambda>_.
     let w1 = upd_connector (\<lambda>c. c\<lparr>cn_started := True\<rparr>) w; cn = cl_connector (w_user w1) in
     case no_connect net (cn_cfd cn) (cn_server cn) (w_os w1) of (err, o') \<Rightarrow>
       let w2 = w1\<lparr>w_os := o'\<rparr> in
       if err \<noteq> 0 then
         if err \<noteq> EINPROGRESS then connector_handleWrite os net onError onNew tid w2
         else connector_channel os tid EnableWrite w2
       else connector_handleWrite os net onError onNew tid w2))"

text \<open>The event handler of a client's connector, with the callbacks \<open>TcpClient::TcpClient\<close> gives it.\<close>

abbreviation client_handleWrite ::
  "('e, 'o) os \<Rightarrow> 'o net_os \<Rightarrow> ('e, 'o, 'a) cworld client_callbacks \<Rightarrow> nat \<Rightarrow>
   ('e, 'o, 'a) cworld \<Rightarrow> ('e, 'o, 'a) cworld res" where
  "client_handleWrite os net cbs tid \<equiv>
     connector_handleWrite os net (clientError cbs) (Some (client_newConnection os net cbs tid)) tid"

definition destroy_connector :: "('e, 'o) os \<Rightarrow> connector \<Rightarrow> 'o \<Rightarrow> 'o" where
  "destroy_connector os cn o1 = (if \<not> cn_connected cn then os_close os (cn_cfd cn) o1 else o1)"

subsection \<open>The client's interface, from any thread\<close>

definition exec_client_task ::
  "('e, 'o) os \<Rightarrow> 'o net_os \<Rightarrow> ('e, 'o, 'a) cworld client_callbacks \<Rightarrow> nat \<Rightarrow> client_task \<Rightarrow>
   ('e, 'o, 'a) cworld \<Rightarrow> ('e, 'o, 'a) cworld res" where
  "exec_client_task os net cbs tid task w =
     (case task of
        CStart \<Rightarrow>
          connector_start os net (clientError cbs) (Some (client_newConnection os net cbs tid)) tid w
      | CSend message \<Rightarrow>
          if cl_connection (w_user w) then conn_send os (client_conn_callbacks os cbs tid) tid message w
          else Inl NullDeref)"

definition client_runInLoop ::
  "('e, 'o) os \<Rightarrow> 'o net_os \<Rightarrow> ('e, 'o, 'a) cworld client_callbacks \<Rightarrow> nat \<Rightarrow> client_task \<Rightarrow>
   ('e, 'o, 'a) cworld \<Rightarrow> ('e, 'o, 'a) cworld res" where
  "client_runInLoop os net cbs tid task w =
     (if isInLoopThread tid w then exec_client_task os net cbs tid task w
      else Inr (wakeup (os_efd_write os)
             (w\<lparr>w_user := (w_user w)\<lparr>cl_tasks := cl_tasks (w_user w) @ [task]\<rparr>\<rparr>)))"

definition client_start ::
  "('e, 'o) os \<Rightarrow> 'o net_os \<Rightarrow> ('e, 'o, 'a) cworld client_callbacks \<Rightarrow> nat \<Rightarrow>
   ('e, 'o, 'a) cworld \<Rightarrow> ('e, 'o, 'a) cworld res" where
  "client_start os net cbs tid w = client_runInLoop os net cbs tid CStart w"

definition client_send ::
  "('e, 'o) os \<Rightarrow> 'o net_os \<Rightarrow> ('e, 'o, 'a) cworld client_callbacks \<Rightarrow> nat \<Rightarrow> string \<Rightarrow>
   ('e, 'o, 'a) cworld \<Rightarrow> ('e, 'o, 'a) cworld res" where
  "client_send os net cbs tid message w = client_runInLoop os net cbs tid (CSend message) w"

text \<open>The queued tasks, run by the loop.\<close>

definition client_runTasks ::
  "('e, 'o) os \<Rightarrow> 'o net_os \<Rightarrow> ('e, 'o, 'a) cworld client_callbacks \<Rightarrow> nat \<Rightarrow>
   ('e, 'o, 'a) cworld \<Rightarrow> ('e, 'o, 'a) cworld res" where
  "client_runTasks os net cbs tid w =
     run_list (exec_client_task os net cbs tid) (cl_tasks (w_user w))
       (w\<lparr>w_user := (w_user w)\<lparr>cl_tasks := []\<rparr>\<rparr>)"

subsection \<open>Facts\<close>

text \<open>A client before its start, in its loop's thread.\<close>

definition client_fresh :: "nat \<Rightarrow> int \<Rightarrow> ('e, 'o, 'a) cworld \<Rightarrow> bool" where
  "client_fresh tid fd w \<longleftrightarrow>
     isInLoopThread tid w \<and> w_conn w = None \<and> w_wire w = [] \<and> \<not> w_shut w \<and>
     \<not> cl_connection (w_user w) \<and> cn_cfd (cl_connector (w_user w)) = fd \<and>
     \<not> cn_connected (cl_connector (w_user w)) \<and> \<not> cn_started (cl_connector (w_user w)) \<and>
     cn_channel (cl_connector (w_user w)) = new_channel fd"

text \<open>Connecting and reading the pending error do not touch the interest list.\<close>

definition keeps_interest :: "'o net_os \<Rightarrow> ('o \<Rightarrow> unit interest_list) \<Rightarrow> bool" where
  "keeps_interest net interest \<longleftrightarrow>
     (\<forall>fd a o1. interest (snd (no_connect net fd a o1)) = interest o1) \<and>
     (\<forall>fd o1. interest (snd (no_so_error net fd o1)) = interest o1)"

text \<open>A callback that only changes the state of the application proper.\<close>

definition app_only :: "('e, 'o, 'a) cworld callback \<Rightarrow> bool" where
  "app_only cb \<longleftrightarrow> (\<forall>f. cb = Some f \<longrightarrow> (\<forall>w. \<exists>a. f w = Inr (w\<lparr>w_user := (w_user w)\<lparr>cl_app := a\<rparr>\<rparr>)))"

lemma call_app_only:
  assumes "app_only cb"
  obtains a where "call cb w = Inr (w\<lparr>w_user := (w_user w)\<lparr>cl_app := a\<rparr>\<rparr>)"
proof (cases cb)
  case None
  then show ?thesis by (intro that [of "cl_app (w_user w)"]) (simp add: call_def)
next
  case (Some f)
  with assms that show ?thesis by (auto simp: app_only_def call_def)
qed

lemma enableRead_registers:
  assumes ep: "epoll_kernel (os_ctl os) interest" and w: "fresh_world tid fd w"
    and fd: "interest (w_os w) fd = None" and cb: "connectionCallback cbs = None"
    and k: "k + kCheapPrepend \<le> kMaxSize"
  obtains w' c where "conn_enableRead os cbs tid w = Inr w'" and "stream_state tid k [] w' c"
    and "tc_state c = kConnected" and "w_user w' = w_user w"
    and "interest (w_os w') = (interest (w_os w))(fd \<mapsto> (EPOLLIN OR EPOLLPRI, ()))"
proof -
  let ?ch = "(new_channel fd)\<lparr>ch_events := EPOLLIN OR EPOLLPRI\<rparr>"
  have "ch_events ?ch \<noteq> 0" by (simp add: epoll_consts)
  then obtain o' where o': "updateChannel (os_ctl os) True () ?ch (w_os w) = Inr (?ch\<lparr>ch_state := kAdded\<rparr>, o', None)"
      "interest o' = (interest (w_os w))(fd \<mapsto> (EPOLLIN OR EPOLLPRI, ()))"
    using epoll_kernel.update_new [OF ep, of "w_os w" ?ch "()"] fd by (auto simp: new_channel_def)
  let ?c = "(new_connection fd)\<lparr>tc_state := kConnected, tc_channel := ?ch\<lparr>ch_state := kAdded\<rparr>\<rparr>"
  let ?w = "w\<lparr>w_conn := Some ?c, w_os := o'\<rparr>"
  have run: "conn_enableRead os cbs tid w = Inr ?w"
    using w o'(1) cb by (simp add: conn_enableRead_def fresh_world_def conn_channel_def upd_conn_def notify_def
        chan_do_update new_connection_def new_channel_def mask_after_def)
  have "isReading (tc_channel ?c) \<and> \<not> isWriting (tc_channel ?c)"
    by (simp add: isReading_bit isWriting_bit bit_simps)
  then have st: "stream_state tid k [] ?w ?c"
    using w k by (simp add: stream_state_def streaming_def fresh_world_def new_connection_def
        new_buffer_ok new_buffer_empty new_buffer_room)
  show ?thesis by (rule that [OF run st]) (simp_all add: o'(2))
qed

text \<open>Starting a connection attempt that is under way registers the descriptor for writing.\<close>

lemma connector_start_pending:
  assumes ep: "epoll_kernel (os_ctl os) interest" and net: "keeps_interest net interest"
    and fresh: "client_fresh tid fd w" and fd: "interest (w_os w) fd = None"
    and pend: "fst (no_connect net fd (cn_server (cl_connector (w_user w))) (w_os w)) = EINPROGRESS"
  obtains w1 where "connector_start os net onError onNew tid w = Inr w1"
    and "interest (w_os w1) = (interest (w_os w))(fd \<mapsto> (EPOLLOUT, ()))"
    and "cn_channel (cl_connector (w_user w1)) = (new_channel fd)\<lparr>ch_events := EPOLLOUT, ch_state := kAdded\<rparr>"
    and "cn_started (cl_connector (w_user w1))" and "cn_cfd (cl_connector (w_user w1)) = fd"
    and "\<not> cn_connected (cl_connector (w_user w1))" and "\<not> cl_connection (w_user w1)"
    and "isInLoopThread tid w1" and "w_conn w1 = None" and "w_wire w1 = []" and "\<not> w_shut w1"
proof -
  let ?ch = "(new_channel fd)\<lparr>ch_events := EPOLLOUT\<rparr>"
  obtain o1 where o1: "no_connect net fd (cn_server (cl_connector (w_user w))) (w_os w) = (EINPROGRESS, o1)"
    using pend by (metis prod.collapse)
  have i1: "interest o1 = interest (w_os w)"
    using net o1 unfolding keeps_interest_def by (metis snd_conv)
  have "ch_events ?ch \<noteq> 0" by (simp add: epoll_consts)
  then obtain o2 where o2: "updateChannel (os_ctl os) True () ?ch o1 = Inr (?ch\<lparr>ch_state := kAdded\<rparr>, o2, None)"
      "interest o2 = (interest o1)(fd \<mapsto> (EPOLLOUT, ()))"
    using epoll_kernel.update_new [OF ep, of o1 ?ch "()"] fd i1 by (auto simp: new_channel_def)
  let ?w = "w\<lparr>w_os := o2, w_user := (w_user w)\<lparr>cl_connector := (cl_connector (w_user w))\<lparr>cn_started := True,
      cn_channel := ?ch\<lparr>ch_state := kAdded\<rparr>\<rparr>\<rparr>\<rparr>"
  have upd: "upd_connector (\<lambda>c. c\<lparr>cn_channel := ch\<rparr>) (upd_connector (\<lambda>c. c\<lparr>cn_started := True\<rparr>) w\<lparr>w_os := x, w_os := y\<rparr>)
      = w\<lparr>w_os := y, w_user := (w_user w)\<lparr>cl_connector := (cl_connector (w_user w))\<lparr>cn_started := True,
          cn_channel := ch\<rparr>\<rparr>\<rparr>" for ch x y
    by (cases w) (simp add: upd_connector_def)
  have "connector_channel os tid EnableWrite ((upd_connector (\<lambda>c. c\<lparr>cn_started := True\<rparr>) w)\<lparr>w_os := o1\<rparr>) = Inr ?w"
    using fresh o2(1) upd [of "?ch\<lparr>ch_state := kAdded\<rparr>" o1 o2]
    by (simp add: connector_channel_def client_fresh_def chan_do_update mask_after_def new_channel_def upd_connector_def)
  then have "connector_start os net onError onNew tid w = Inr ?w"
    using fresh o1 by (simp add: connector_start_def client_fresh_def upd_connector_def EINPROGRESS_def)
  then show ?thesis by (rule that) (use fresh o2(2) i1 in \<open>simp_all add: client_fresh_def\<close>)
qed

lemma client_start_in_loop:
  "isInLoopThread tid w \<Longrightarrow> client_start os net cbs tid w =
     connector_start os net (clientError cbs) (Some (client_newConnection os net cbs tid)) tid w"
  by (simp add: client_start_def client_runInLoop_def exec_client_task_def)

lemma client_fresh_thread: "client_fresh tid fd w \<Longrightarrow> isInLoopThread tid w"
  by (simp add: client_fresh_def)

lemma upd_connector_os [simp]: "w_os (upd_connector f w) = w_os w"
  by (simp add: upd_connector_def)

text \<open>The end of the attempt: the descriptor leaves the poller before anything else happens.\<close>

lemma connector_disable:
  assumes ep: "epoll_kernel (os_ctl os) interest" and "isInLoopThread tid w"
    and "cn_channel (cl_connector (w_user w)) = (new_channel fd)\<lparr>ch_events := EPOLLOUT, ch_state := kAdded\<rparr>"
    and "interest (w_os w) fd = Some e"
  obtains o' where "connector_channel os tid DisableAll w
      = Inr (upd_connector (\<lambda>c. c\<lparr>cn_channel := (new_channel fd)\<lparr>ch_state := kDeleted\<rparr>\<rparr>) (w\<lparr>w_os := o'\<rparr>))"
    and "interest o' = (interest (w_os w))(fd := None)"
proof -
  let ?ch = "(new_channel fd)\<lparr>ch_state := kAdded\<rparr>"
  obtain o' where "updateChannel (os_ctl os) True () ?ch (w_os w) = Inr (?ch\<lparr>ch_state := kDeleted\<rparr>, o', None)"
      "interest o' = (interest (w_os w))(fd := None)"
    using epoll_kernel.update_del [OF ep, of "w_os w" ?ch e "()"] assms(4) by (auto simp: new_channel_def)
  then show ?thesis
    using assms(2,3) by (intro that [of o']) (simp_all add: connector_channel_def chan_do_update mask_after_def new_channel_def)
qed

lemma client_newConnection_streams:
  assumes ep: "epoll_kernel (os_ctl os) interest" and w: "isInLoopThread tid w" "w_wire w = []" "\<not> w_shut w"
    and fd: "interest (w_os w) fd = None" and conn: "\<not> cl_connection (w_user w)"
    and cb: "app_only (clientConnection cbs)" and k: "k + kCheapPrepend \<le> kMaxSize"
  obtains w' c where "client_newConnection os net cbs tid fd local w = Inr w'" and "stream_state tid k [] w' c"
    and "tc_state c = kConnected" and "cl_connection (w_user w')"
    and "cl_connector (w_user w') = cl_connector (w_user w)"
    and "interest (w_os w') = (interest (w_os w))(fd \<mapsto> (EPOLLIN OR EPOLLPRI, ()))"
proof -
  let ?w2 = "w\<lparr>w_conn := Some (new_connection fd), w_refs := 1, w_user := (w_user w)\<lparr>cl_connection := True,
      cl_name := client_name (no_getpeername net fd (w_os w))\<rparr>\<rparr>"
  have "fresh_world tid fd ?w2" using w by (simp add: fresh_world_def isInLoopThread_def)
  from enableRead_registers [OF ep this, of "client_conn_callbacks os cbs tid" k] fd k obtain w3 c where
    w3: "conn_enableRead os (client_conn_callbacks os cbs tid) tid ?w2 = Inr w3" "stream_state tid k [] w3 c"
      "tc_state c = kConnected" "w_user w3 = w_user ?w2"
      "interest (w_os w3) = (interest (w_os w))(fd \<mapsto> (EPOLLIN OR EPOLLPRI, ()))"
    by (auto simp: client_conn_callbacks_def)
  obtain a where a: "call (clientConnection cbs) w3 = Inr (w3\<lparr>w_user := (w_user w3)\<lparr>cl_app := a\<rparr>\<rparr>)"
    by (rule call_app_only [OF cb])
  have "client_newConnection os net cbs tid fd local w = Inr (w3\<lparr>w_user := (w_user w3)\<lparr>cl_app := a\<rparr>\<rparr>)"
    using w(1) conn w3(1) a by (simp add: client_newConnection_def)
  then show ?thesis by (rule that) (use w3 in simp_all)
qed

subsection \<open>Properties\<close>

text \<open>C27. A connection attempt ends in exactly one of two ways, and the descriptor has exactly
  one owner throughout.  If \<open>connect\<close> is under way, \<open>start\<close> registers the socket for writing;
  when it becomes writable it leaves the poller, and then either the client has a
  connection that is connected, registered for reading and ready to stream, with the
  descriptor handed over to it, or (the pending error is not 0) there is no connection, the
  interest list is as it was, and the connector still owns the descriptor, which its
  destructor closes.  It relies on \<open>epoll_ctl\<close> as documented and on callbacks that leave
  the client alone.\<close>

theorem client_connects:
  assumes "epoll_kernel (os_ctl os) interest" and "keeps_interest net interest"
    and "client_fresh tid fd w" and "interest (w_os w) fd = None"
    and "fst (no_connect net fd (cn_server (cl_connector (w_user w))) (w_os w)) = EINPROGRESS"
    and "\<And>o1. fst (no_so_error net fd o1) = r" and "r \<noteq> Inl 0"
    and "app_only (clientConnection cbs)" and "app_only (clientError cbs)" and "k + kCheapPrepend \<le> kMaxSize"
  shows "\<exists>w1 w2. client_start os net cbs tid w = Inr w1 \<and>
     interest (w_os w1) = (interest (w_os w))(fd \<mapsto> (EPOLLOUT, ())) \<and>
     client_handleWrite os net cbs tid w1 = Inr w2 \<and>
     (if r = Inr 0
      then (\<exists>c. stream_state tid k [] w2 c \<and> tc_state c = kConnected) \<and> cl_connection (w_user w2) \<and>
           interest (w_os w2) = (interest (w_os w))(fd \<mapsto> (EPOLLIN OR EPOLLPRI, ())) \<and>
           destroy_connector os (cl_connector (w_user w2)) (w_os w2) = w_os w2
      else w_conn w2 = None \<and> \<not> cl_connection (w_user w2) \<and> interest (w_os w2) = interest (w_os w) \<and>
           destroy_connector os (cl_connector (w_user w2)) (w_os w2) = os_close os fd (w_os w2))"
proof -
  obtain w1 where w1: "client_start os net cbs tid w = Inr w1"
    "interest (w_os w1) = (interest (w_os w))(fd \<mapsto> (EPOLLOUT, ()))"
    "cn_channel (cl_connector (w_user w1)) = (new_channel fd)\<lparr>ch_events := EPOLLOUT, ch_state := kAdded\<rparr>"
    "cn_started (cl_connector (w_user w1))" "cn_cfd (cl_connector (w_user w1)) = fd"
    "\<not> cn_connected (cl_connector (w_user w1))" "\<not> cl_connection (w_user w1)"
    "isInLoopThread tid w1" "w_conn w1 = None" "w_wire w1 = []" "\<not> w_shut w1"
    unfolding client_start_in_loop [OF client_fresh_thread [OF assms(3)]] by (rule connector_start_pending [OF assms(1-5)])
  obtain o2 where o2: "connector_channel os tid DisableAll w1
      = Inr (upd_connector (\<lambda>c. c\<lparr>cn_channel := (new_channel fd)\<lparr>ch_state := kDeleted\<rparr>\<rparr>) (w1\<lparr>w_os := o2\<rparr>))"
    "interest o2 = (interest (w_os w1))(fd := None)"
    by (rule connector_disable [OF assms(1) w1(8,3), of "(EPOLLOUT, ())"]) (use w1(2) in simp)
  obtain o3 where o3: "no_so_error net fd o2 = (r, o3)" using assms(6) by (metis prod.collapse)
  have i3: "interest o3 = interest (w_os w)"
    using assms(2,4) o2(2) w1(2) o3 unfolding keeps_interest_def by (metis fun_upd_triv fun_upd_upd snd_conv)
  let ?w3 = "upd_connector (\<lambda>c. c\<lparr>cn_channel := (new_channel fd)\<lparr>ch_state := kDeleted\<rparr>\<rparr>) (w1\<lparr>w_os := o3\<rparr>)"
  have same: "(upd_connector f (w1\<lparr>w_os := o2\<rparr>))\<lparr>w_os := o3\<rparr> = upd_connector f (w1\<lparr>w_os := o3\<rparr>)" for f
    by (cases w1) (simp add: upd_connector_def)
  show ?thesis
  proof (cases "r = Inr 0")
    case True
    let ?w4 = "upd_connector (\<lambda>c. c\<lparr>cn_connected := True\<rparr>) ?w3"
    have w4: "isInLoopThread tid ?w4" "w_wire ?w4 = []" "\<not> w_shut ?w4" "interest (w_os ?w4) fd = None"
      "\<not> cl_connection (w_user ?w4)" "cn_connected (cl_connector (w_user ?w4))" "w_os ?w4 = o3"
      using w1 i3 assms(4) by (simp_all add: upd_connector_def isInLoopThread_def)
    let ?local = "setAddr (no_getsockname net fd o3) (inet_port 0 False)"
    obtain w5 c where w5: "client_newConnection os net cbs tid fd ?local ?w4 = Inr w5" "stream_state tid k [] w5 c"
      "tc_state c = kConnected" "cl_connection (w_user w5)" "cl_connector (w_user w5) = cl_connector (w_user ?w4)"
      "interest (w_os w5) = (interest (w_os ?w4))(fd \<mapsto> (EPOLLIN OR EPOLLPRI, ()))"
      by (rule client_newConnection_streams [OF assms(1) w4(1-5) assms(8,10)])
    have "client_handleWrite os net cbs tid w1 = Inr w5"
      using w1(4,5,8) o2(1) o3 True w5(1) same
      by (simp add: connector_handleWrite_def)
    then show ?thesis using w1(1,2) w5 w4(6,7) i3 True by (auto simp: destroy_connector_def)
  next
    case False
    then have err: "(case r of Inl e \<Rightarrow> e | Inr e \<Rightarrow> e) \<noteq> 0" using assms(7) by (cases r) auto
    obtain a where "call (clientError cbs) ?w3 = Inr (?w3\<lparr>w_user := (w_user ?w3)\<lparr>cl_app := a\<rparr>\<rparr>)"
      by (rule call_app_only [OF assms(9)])
    then have "client_handleWrite os net cbs tid w1 = Inr (?w3\<lparr>w_user := (w_user ?w3)\<lparr>cl_app := a\<rparr>\<rparr>)"
      using w1(4,5,8) o2(1) o3 err same
      by (simp add: connector_handleWrite_def)
    then show ?thesis using w1 i3 False by (auto simp: destroy_connector_def upd_connector_def)
  qed
qed

text \<open>A network on which every attempt is under way at first and then ends with the error \<open>err\<close>,
  and a client with descriptor 5 on it.\<close>

definition pending_net :: "int \<Rightarrow> unit interest_list net_os" where
  "pending_net err = \<lparr> no_connect = (\<lambda>fd a k. (EINPROGRESS, k)), no_so_error = (\<lambda>fd k. (Inr err, k)),
     no_getsockname = (\<lambda>fd k. inet_port 0 True), no_getpeername = (\<lambda>fd k. inet_port 80 True) \<rparr>"

definition some_client :: "nat client" where
  "some_client = \<lparr> cl_connector = \<lparr> cn_server = inet_port 80 True, cn_cfd = 5, cn_connected = False,
       cn_started = False, cn_channel = new_channel 5 \<rparr>,
     cl_connection = False, cl_name = [], cl_tasks = [], cl_app = 0 \<rparr>"

definition client_world :: "(nat, unit interest_list, nat) cworld" where
  "client_world = \<lparr> el_tid = 1, el_quit = False, el_tasks = [], el_runningTasks = False,
     el_looping = True, el_wakeupfd = 0, w_conn = None, w_os = Map.empty, w_refs = 0,
     w_user = some_client, w_wire = [], w_shut = False \<rparr>"

definition counting_callbacks :: "(nat, unit interest_list, nat) cworld client_callbacks" where
  "counting_callbacks = \<lparr> clientConnection = Some (\<lambda>w. Inr (w\<lparr>w_user := (w_user w)\<lparr>cl_app := cl_app (w_user w) + 1\<rparr>\<rparr>)),
     clientMessage = None, clientWriteComplete = None, clientError = None \<rparr>"

lemma client_world_fresh: "client_fresh 1 5 client_world"
  by (simp add: client_fresh_def client_world_def some_client_def isInLoopThread_def)

lemma counting_app_only: "app_only (clientConnection counting_callbacks)" "app_only (clientError counting_callbacks)"
proof -
  show "app_only (clientConnection counting_callbacks)"
    unfolding app_only_def counting_callbacks_def client_callbacks.simps by (simp, blast)
qed (simp add: app_only_def counting_callbacks_def)

theorem client_connects_witness:
  "(\<exists>w1 w2. client_start slow_os (pending_net 0) counting_callbacks 1 client_world = Inr w1 \<and>
      client_handleWrite slow_os (pending_net 0) counting_callbacks 1 w1 = Inr w2 \<and>
      cl_connection (w_user w2) \<and> w_os w2 = [5 \<mapsto> (EPOLLIN OR EPOLLPRI, ())]) \<and>
   (\<exists>w1 w2. client_start slow_os (pending_net 111) counting_callbacks 1 client_world = Inr w1 \<and>
      client_handleWrite slow_os (pending_net 111) counting_callbacks 1 w1 = Inr w2 \<and>
      \<not> cl_connection (w_user w2) \<and> w_os w2 = Map.empty)"
proof -
  have ep: "epoll_kernel (os_ctl slow_os) (\<lambda>k. k)"
    using eref.epoll_kernel_axioms by (simp add: slow_os_def)
  have "keeps_interest (pending_net e) (\<lambda>k. k)" for e by (simp add: keeps_interest_def pending_net_def)
  note run = client_connects [OF ep this client_world_fresh _ _ _ _ counting_app_only, of _ _ 0]
  show ?thesis
    using run [of 0 "Inr 0"] run [of 111 "Inr 111"]
    by (simp add: pending_net_def client_world_def kCheapPrepend_def kMaxSize_def) blast
qed

text \<open>A connection attempt whose \<open>connect\<close> answers at once, with success or with any error
  other than \<open>EINPROGRESS\<close>, always fails: \<open>start\<close> calls \<open>handleWrite\<close> directly, and there
  \<open>disableAll\<close> on the channel that was never registered fails the assert of
  \<open>Poll::updateChannel\<close> before either callback can run.\<close>

lemma connect_at_once_asserts:
  assumes "client_fresh tid fd w"
    and "fst (no_connect net fd (cn_server (cl_connector (w_user w))) (w_os w)) \<noteq> EINPROGRESS"
  shows "client_start os net cbs tid w = Inl AssertFail"
proof -
  have "client_handleWrite os net cbs tid ((upd_connector (\<lambda>c. c\<lparr>cn_started := True\<rparr>) w)\<lparr>w_os := o'\<rparr>)
      = Inl AssertFail" for o'
    using assms(1)
    by (simp add: connector_handleWrite_def connector_channel_def client_fresh_def upd_connector_def
        chan_do_update updateChannel_def isNoEvent_def mask_after_def new_channel_def)
  then show ?thesis
    using assms by (auto simp: client_start_def client_runInLoop_def exec_client_task_def connector_start_def
        client_fresh_def upd_connector_def Let_def split: prod.split)
qed

text \<open>Sending through a client without a connection, before it is established or after it was
  closed, dereferences the null pointer \<open>connection_\<close>: at once in the loop's thread, and in
  the next round of tasks when the call came from another thread, which itself only queues
  the message.\<close>

lemma client_send_unconnected:
  assumes "\<not> cl_connection (w_user w)" and "cl_tasks (w_user w) = []" and "tid \<noteq> el_tid w"
  shows "client_send os net cbs (el_tid w) message w = Inl NullDeref \<and>
         (\<exists>w'. client_send os net cbs tid message w = Inr w' \<and>
               client_runTasks os net cbs (el_tid w') w' = Inl NullDeref)"
  using assms
  by (simp add: client_send_def client_runInLoop_def isInLoopThread_def exec_client_task_def wakeup_def
      client_runTasks_def split: sum.split)

end
