(* ===== verification/Chat.thy ===== *)
theory Chat
  imports Codec HttpServer Client
begin

text \<open>
  \<open>example/chat/server.cpp\<close> and \<open>client.cpp\<close> on top of the codec.  The server keeps the set of its
  connections, ordered by their addresses; each connection is the \<open>world\<close> of \<open>TcpConnection\<close>
  under its address.  The output to the terminal is left out.
\<close>

subsection \<open>The server\<close>

record ('e, 'o, 'u) chat_server =
  cs_connections :: "nat list"
  cs_conns :: "nat \<Rightarrow> ('e, 'o, 'u) world"

definition chat_onConnection ::
  "nat \<Rightarrow> ('e, 'o, 'u) chat_server \<Rightarrow> ('e, 'o, 'u) chat_server res" where
  "chat_onConnection conn s =
     with_conn (cs_conns s conn) (\<lambda>c.
       Inr (if conn_connected c then s\<lparr>cs_connections := sset_insert conn (cs_connections s)\<rparr>
            else s\<lparr>cs_connections := sset_erase conn (cs_connections s)\<rparr>))"

text \<open>\<open>codec_.send(c, message)\<close>.\<close>

definition chat_send_to ::
  "('e, 'o) os \<Rightarrow> ('e, 'o, 'u) world conn_callbacks \<Rightarrow> nat \<Rightarrow> nat \<Rightarrow> string \<Rightarrow>
   ('e, 'o, 'u) chat_server \<Rightarrow> ('e, 'o, 'u) chat_server res" where
  "chat_send_to os cbs tid c message s =
     rbind (codec_send message) (\<lambda>b.
     rbind (conn_send_buffer os cbs tid b (cs_conns s c)) (\<lambda>(b', w).
     Inr (s\<lparr>cs_conns := (cs_conns s)(c := w)\<rparr>)))"

fun chat_broadcast ::
  "('e, 'o) os \<Rightarrow> ('e, 'o, 'u) world conn_callbacks \<Rightarrow> nat \<Rightarrow> nat \<Rightarrow> string \<Rightarrow> nat list \<Rightarrow>
   ('e, 'o, 'u) chat_server \<Rightarrow> ('e, 'o, 'u) chat_server res" where
  "chat_broadcast os cbs tid conn message [] s = Inr s"
| "chat_broadcast os cbs tid conn message (c # cs) s =
     (if conn \<noteq> c
      then rbind (chat_send_to os cbs tid c message s) (chat_broadcast os cbs tid conn message cs)
      else chat_broadcast os cbs tid conn message cs s)"

definition chat_onMessage ::
  "('e, 'o) os \<Rightarrow> ('e, 'o, 'u) world conn_callbacks \<Rightarrow> nat \<Rightarrow> nat \<Rightarrow> string \<Rightarrow>
   ('e, 'o, 'u) chat_server \<Rightarrow> ('e, 'o, 'u) chat_server res" where
  "chat_onMessage os cbs tid conn message s =
     chat_broadcast os cbs tid conn message (cs_connections s) s"

text \<open>The callbacks the constructor installs in the codec: the message handler and the shutdown of
  the connection, on a server that may already have failed.\<close>

definition chat_message_callback ::
  "('e, 'o) os \<Rightarrow> ('e, 'o, 'u) world conn_callbacks \<Rightarrow> nat \<Rightarrow> nat \<Rightarrow>
   ('e, 'o, 'u) chat_server res \<Rightarrow> string \<Rightarrow> ('e, 'o, 'u) chat_server res" where
  "chat_message_callback os cbs tid conn r message = rbind r (chat_onMessage os cbs tid conn message)"

definition chat_shutdown ::
  "('e, 'o) os \<Rightarrow> ('e, 'o, 'u) world conn_callbacks \<Rightarrow> nat \<Rightarrow> nat \<Rightarrow>
   ('e, 'o, 'u) chat_server res \<Rightarrow> ('e, 'o, 'u) chat_server res" where
  "chat_shutdown os cbs tid conn r =
     rbind r (\<lambda>s. rbind (conn_shutdown os cbs tid (cs_conns s conn)) (\<lambda>w.
       Inr (s\<lparr>cs_conns := (cs_conns s)(conn := w)\<rparr>)))"

subsection \<open>The client\<close>

text \<open>Whether \<open>connection_\<close> is set; the connection callback of \<open>TcpClient\<close> sets and resets it.\<close>

definition chat_client_onConnection :: "('e, 'o, 'u) world \<Rightarrow> bool \<Rightarrow> bool res" where
  "chat_client_onConnection w connection = with_conn w (\<lambda>c. Inr (conn_connected c))"

definition chat_client_send ::
  "('e, 'o) os \<Rightarrow> ('e, 'o, 'u) world conn_callbacks \<Rightarrow> nat \<Rightarrow> string \<Rightarrow> bool \<Rightarrow>
   ('e, 'o, 'u) world \<Rightarrow> ('e, 'o, 'u) world res" where
  "chat_client_send os cbs tid message connection w =
     rbind (codec_send message) (\<lambda>b.
     if connection then rbind (conn_send_buffer os cbs tid b w) (\<lambda>(b', w'). Inr w') else Inl NullDeref)"

subsection \<open>Relaying\<close>

text \<open>The other connections are up, have been sent \<open>acc c\<close> so far, and have room for \<open>k\<close> bytes.\<close>

definition chat_ready ::
  "nat \<Rightarrow> nat \<Rightarrow> (nat \<Rightarrow> char list) \<Rightarrow> nat set \<Rightarrow> ('e, 'o, 'u) chat_server \<Rightarrow> bool" where
  "chat_ready tid k acc C s \<longleftrightarrow>
     (\<forall>c \<in> C. \<exists>tc. stream_state tid k (acc c) (cs_conns s c) tc \<and> tc_state tc = kConnected)"

lemma chat_send_to_stream:
  assumes st: "stream_state tid (length (frame m) + k) acc (cs_conns s c) tc" and conn: "tc_state tc = kConnected"
    and m: "length m \<le> 65536" and wb: "write_bounded os" and wc: "benign (writeCompleteCallback cbs)"
  obtains w tc' where "chat_send_to os cbs tid c m s = Inr (s\<lparr>cs_conns := (cs_conns s)(c := w)\<rparr>)"
    and "stream_state tid k (acc @ frame m) w tc'" and "tc_state tc' = kConnected"
proof -
  obtain b where b: "codec_send m = Inr b" "buffer_ok b" "readable b = frame m"
    using codec_send_frame [of m] m by (auto simp: kCheapPrepend_def kMaxSize_def)
  from conn_send_stream [OF st wb wc] conn obtain w tc' where
    w: "conn_send os cbs tid (frame m) (cs_conns s c) = Inr w" "tc_state tc' = kConnected"
      "stream_state tid k (acc @ frame m) w tc'" by auto
  have "rbind (conn_send_buffer os cbs tid b (cs_conns s c)) (\<lambda>(b', w'). Inr w') = Inr w"
    using tcp_send_buffer [OF b(2), of os cbs tid "cs_conns s c"] w(1) b(3) by simp
  then have "chat_send_to os cbs tid c m s = Inr (s\<lparr>cs_conns := (cs_conns s)(c := w)\<rparr>)"
    using b(1) by (auto simp: chat_send_to_def rbind_eq_Inr)
  then show ?thesis using w(3,2) by (rule that)
qed

lemma chat_broadcast_stream:
  assumes "chat_ready tid (length (frame m) + k) acc (set cs - {a}) s" and "distinct cs"
    and "length m \<le> 65536" and "write_bounded os" and "benign (writeCompleteCallback cbs)"
  shows "\<exists>s'. chat_broadcast os cbs tid a m cs s = Inr s' \<and> cs_connections s' = cs_connections s \<and>
     chat_ready tid k (\<lambda>c. acc c @ frame m) (set cs - {a}) s' \<and>
     (\<forall>c. c \<notin> set cs - {a} \<longrightarrow> cs_conns s' c = cs_conns s c)"
  using assms(1,2)
proof (induction cs arbitrary: s)
  case (Cons c cs)
  show ?case
  proof (cases "a = c")
    case True
    with Cons.prems have "chat_ready tid (length (frame m) + k) acc (set cs - {a}) s" "distinct cs"
      by (auto simp: chat_ready_def)
    with Cons.IH [of s] True Cons.prems(2) show ?thesis by auto
  next
    case False
    with Cons.prems(1) obtain tc where "stream_state tid (length (frame m) + k) (acc c) (cs_conns s c) tc"
      "tc_state tc = kConnected" by (auto simp: chat_ready_def)
    from chat_send_to_stream [OF this assms(3-5)] obtain w tc' where
      w: "chat_send_to os cbs tid c m s = Inr (s\<lparr>cs_conns := (cs_conns s)(c := w)\<rparr>)"
        "stream_state tid k (acc c @ frame m) w tc'" "tc_state tc' = kConnected" .
    let ?s = "s\<lparr>cs_conns := (cs_conns s)(c := w)\<rparr>"
    have c: "c \<notin> set cs" "distinct cs" using Cons.prems(2) by simp_all
    have "chat_ready tid (length (frame m) + k) acc (set cs - {a}) ?s"
      using Cons.prems(1) c(1) unfolding chat_ready_def by auto
    from Cons.IH [OF this c(2)] obtain s' where
      s': "chat_broadcast os cbs tid a m cs ?s = Inr s'" "cs_connections s' = cs_connections s"
        "chat_ready tid k (\<lambda>c. acc c @ frame m) (set cs - {a}) s'"
        "\<forall>c. c \<notin> set cs - {a} \<longrightarrow> cs_conns s' c = cs_conns ?s c" by auto
    have "cs_conns s' c = w" using s'(4) c(1) by simp
    then have "chat_ready tid k (\<lambda>c. acc c @ frame m) (set (c # cs) - {a}) s'"
      using s'(3) w(2,3) unfolding chat_ready_def by auto
    with s' w(1) False show ?thesis by (intro exI [of _ s']) auto
  qed
qed (simp add: chat_ready_def)

lemma chat_relay_fold:
  assumes "chat_ready tid (length (concat (map frame ms)) + k) acc (set (cs_connections s) - {a}) s"
    and "distinct (cs_connections s)" and "\<forall>m \<in> set ms. length m \<le> 65536"
    and "write_bounded os" and "benign (writeCompleteCallback cbs)"
  shows "\<exists>s'. foldl (chat_message_callback os cbs tid a) (Inr s) ms = Inr s' \<and>
     cs_connections s' = cs_connections s \<and>
     chat_ready tid k (\<lambda>c. acc c @ concat (map frame ms)) (set (cs_connections s) - {a}) s' \<and>
     (\<forall>c. c \<notin> set (cs_connections s) - {a} \<longrightarrow> cs_conns s' c = cs_conns s c)"
  using assms(1-3)
proof (induction ms arbitrary: s acc)
  case (Cons m ms)
  have "chat_ready tid (length (frame m) + (length (concat (map frame ms)) + k)) acc
      (set (cs_connections s) - {a}) s" using Cons.prems(1) by (simp add: add.assoc)
  from chat_broadcast_stream [OF this Cons.prems(2) _ assms(4,5)] Cons.prems(3) obtain s1 where
    s1: "chat_onMessage os cbs tid a m s = Inr s1" "cs_connections s1 = cs_connections s"
      "chat_ready tid (length (concat (map frame ms)) + k) (\<lambda>c. acc c @ frame m) (set (cs_connections s) - {a}) s1"
      "\<forall>c. c \<notin> set (cs_connections s) - {a} \<longrightarrow> cs_conns s1 c = cs_conns s c"
    by (auto simp: chat_onMessage_def)
  have "\<exists>s'. foldl (chat_message_callback os cbs tid a) (Inr s1) ms = Inr s' \<and>
     cs_connections s' = cs_connections s1 \<and>
     chat_ready tid k (\<lambda>c. (acc c @ frame m) @ concat (map frame ms)) (set (cs_connections s1) - {a}) s' \<and>
     (\<forall>c. c \<notin> set (cs_connections s1) - {a} \<longrightarrow> cs_conns s' c = cs_conns s1 c)"
    by (rule Cons.IH) (use s1(2,3) Cons.prems(2,3) in simp_all)
  moreover have "chat_message_callback os cbs tid a (Inr s) m = Inr s1"
    using s1(1) by (simp add: chat_message_callback_def)
  ultimately show ?case using s1(2-4) by auto
qed simp

subsection \<open>Properties\<close>

text \<open>C8. The chat server relays: messages that arrive on one connection, cut into any chunks, go to
  every other connection, each exactly once, in order, and to no other.  The receive loop on
  the sender's connection ends after every chunk without a failure; every other connection
  has then been sent the frames of exactly these messages behind what it was sent before,
  the sender's own connection and those outside the set are untouched; and a client that
  receives these bytes, again in any chunks, is handed exactly these messages.\<close>

theorem chat_relay:
  assumes "chat_ready tid (length (concat (map frame ms))) acc (set (cs_connections s) - {a}) s"
    and "distinct (cs_connections s)" and "\<forall>m \<in> set ms. length m \<le> 65536"
    and "write_bounded os" and "benign (writeCompleteCallback cbs)"
    and "concat chunks = concat (map frame ms)" and "concat chunks' = concat (map frame ms)"
    and "length (concat (map frame ms)) + kCheapPrepend \<le> kMaxSize"
  shows "\<exists>s' b. codec_feed (chat_message_callback os cbs tid a) (chat_shutdown os cbs tid a) chunks (Inr s) (new_buffer n)
        = Some (Inr (Inr s', b)) \<and> readable b = [] \<and>
     chat_ready tid 0 (\<lambda>c. acc c @ concat (map frame ms)) (set (cs_connections s) - {a}) s' \<and>
     (\<forall>c. c \<notin> set (cs_connections s) - {a} \<longrightarrow> cs_conns s' c = cs_conns s c) \<and>
     (\<exists>b'. codec_feed (\<lambda>got m. got @ [m]) shut chunks' [] (new_buffer n) = Some (Inr (ms, b')) \<and> readable b' = [])"
proof -
  have feed: "\<exists>b. codec_feed cb sh cs t (new_buffer n) = Some (Inr (foldl cb t ms, b)) \<and> buffer_ok b \<and> readable b = []"
    if "concat cs = concat (map frame ms)" for cb :: "'t \<Rightarrow> string \<Rightarrow> 't" and sh t cs
    using that codec_feed_refines [of "new_buffer n" cs ms "[]" cb sh t] new_buffer_ok assms(3,8)
    by (simp add: new_buffer_empty frames_messages has_frame_def new_buffer_room)
  obtain s' where s': "foldl (chat_message_callback os cbs tid a) (Inr s) ms = Inr s'"
    "chat_ready tid 0 (\<lambda>c. acc c @ concat (map frame ms)) (set (cs_connections s) - {a}) s'"
    "\<forall>c. c \<notin> set (cs_connections s) - {a} \<longrightarrow> cs_conns s' c = cs_conns s c"
    using chat_relay_fold [of tid ms 0 acc s a os cbs] assms(1-5) by auto
  have "foldl (\<lambda>got m. got @ [m]) got xs = got @ xs" for got xs :: "string list"
    by (induction xs arbitrary: got) simp_all
  then have "foldl (\<lambda>got m. got @ [m]) [] ms = ms" by simp
  with feed [OF assms(7), of "\<lambda>got m. got @ [m]" shut "[]"]
    feed [OF assms(6), of "chat_message_callback os cbs tid a" "chat_shutdown os cbs tid a" "Inr s"] s'
  show ?thesis by fastforce
qed

text \<open>A server with two connections, and one message from the first to the second.\<close>

definition two_users :: "(nat, unit interest_list, nat) chat_server" where
  "two_users = \<lparr> cs_connections = [1, 2], cs_conns = (\<lambda>c. open_world 1) \<rparr>"

theorem chat_relay_witness:
  "\<exists>s' b. codec_feed (chat_message_callback slow_os quiet_callbacks 1 1) (chat_shutdown slow_os quiet_callbacks 1 1)
        [frame ''hello''] (Inr two_users) (new_buffer 0) = Some (Inr (Inr s', b)) \<and>
     chat_ready 1 0 (\<lambda>c. frame ''hello'') {2} s' \<and> cs_conns s' 1 = open_world 1"
proof -
  have "stream_state 1 9 [] (open_world 1) (the (w_conn (open_world 1)))"
    by (rule open_world_stream) (simp add: kCheapPrepend_def kMaxSize_def)
  moreover have "tc_state (the (w_conn (open_world 1))) = kConnected"
    by (simp add: open_world_def first_world_def new_connection_def)
  ultimately have "chat_ready 1 9 (\<lambda>c. []) ({1, 2} - {1}) two_users"
    by (auto simp: chat_ready_def two_users_def)
  then show ?thesis
    using chat_relay [of 1 "[''hello'']" "\<lambda>c. []" two_users 1 slow_os quiet_callbacks "[frame ''hello'']"
        "[frame ''hello'']" 0 "\<lambda>x. x"] slow_os_bounded quiet_benign(2)
    by (auto simp: two_users_def kCheapPrepend_def kMaxSize_def insert_Diff_if)
qed

text \<open>The server's set of users is in order and lists exactly the connections that came up and
  have not gone down: a connection callback adds a connected connection and removes any
  other, whatever the set was.\<close>

lemma chat_users:
  assumes "sset_ok (cs_connections s)" and "w_conn (cs_conns s conn) = Some c"
  shows "\<exists>s'. chat_onConnection conn s = Inr s' \<and> sset_ok (cs_connections s') \<and> cs_conns s' = cs_conns s \<and>
     set (cs_connections s') = (if tc_state c = kConnected then insert conn (set (cs_connections s))
                                else set (cs_connections s) - {conn})"
  using assms by (simp add: chat_onConnection_def conn_connected_def sset_insert_ok sset_erase_ok)

end
