(* ===== verification/CrossThread.thy ===== *)
theory CrossThread
  imports TcpConnection
begin

text \<open>
  \<open>yvent/TcpConnection.cpp\<close> used from several threads at once: \<open>send\<close> and \<open>shutdown\<close> in another thread
  only queue a task (\<open>EventLoop::runInLoop\<close>) that keeps the connection alive, and the loop runs the
  queue between its rounds of events.  Each step below is one call or one round.
\<close>

subsection \<open>Steps\<close>

datatype cross_op = Here conn_op | From nat conn_op | Round

fun cross_step ::
  "('e, 'o) os \<Rightarrow> ('e, 'o, 'u) world conn_callbacks \<Rightarrow> nat \<Rightarrow> cross_op \<Rightarrow>
   ('e, 'o, 'u) world \<Rightarrow> ('e, 'o, 'u) world res" where
  "cross_step os cbs tid (Here op) w = conn_step os cbs tid op w"
| "cross_step os cbs tid (From t op) w = conn_step os cbs t op w"
| "cross_step os cbs tid Round w = conn_runTasks os cbs tid w"

text \<open>
  What is expected of a run without a shutdown: the stream, and the messages still queued.
\<close>

fun cross_spec :: "cross_op \<Rightarrow> string \<times> string list \<Rightarrow> string \<times> string list" where
  "cross_spec (Here (Send m)) (acc, queue) = (acc @ m, queue)"
| "cross_spec (From t (Send m)) (acc, queue) = (acc, queue @ [m])"
| "cross_spec Round (acc, queue) = (acc @ concat queue, [])"
| "cross_spec _ (acc, queue) = (acc, queue)"

fun cross_sent :: "cross_op list \<Rightarrow> nat" where
  "cross_sent [] = 0"
| "cross_sent (Here (Send m) # ops) = length m + cross_sent ops"
| "cross_sent (From t (Send m) # ops) = length m + cross_sent ops"
| "cross_sent (op # ops) = cross_sent ops"

text \<open>The loop thread sends and handles writable events, the other threads send.\<close>

definition sends_only :: "nat \<Rightarrow> cross_op \<Rightarrow> bool" where
  "sends_only tid op \<longleftrightarrow> (case op of Here op \<Rightarrow> op \<noteq> Shutdown | From t op \<Rightarrow> t \<noteq> tid \<and> (\<exists>m. op = Send m) | Round \<Rightarrow> True)"

subsection \<open>What an operation of the loop thread leaves alone\<close>

definition same_queue :: "('e, 'o, 'u) world \<Rightarrow> ('e, 'o, 'u) world \<Rightarrow> bool" where
  "same_queue w w' \<longleftrightarrow> el_tasks w' = el_tasks w \<and> w_refs w' = w_refs w \<and> el_tid w' = el_tid w"

lemma same_queue_refl [simp]: "same_queue w w"
  by (simp add: same_queue_def)

lemma same_queue_trans: "same_queue w w1 \<Longrightarrow> same_queue w1 w2 \<Longrightarrow> same_queue w w2"
  by (simp add: same_queue_def)

lemma same_queue_fields [simp]:
  "same_queue w (w'\<lparr>w_conn := c\<rparr>) = same_queue w w'" "same_queue w (w'\<lparr>w_os := x\<rparr>) = same_queue w w'"
  "same_queue w (w'\<lparr>w_wire := y\<rparr>) = same_queue w w'" "same_queue w (w'\<lparr>w_user := u\<rparr>) = same_queue w w'"
  "same_queue w (w'\<lparr>w_shut := b\<rparr>) = same_queue w w'"
  by (simp_all add: same_queue_def)

lemma conn_channel_queue: "conn_channel os tid op w = Inr w' \<Longrightarrow> same_queue w w'"
  by (auto simp: conn_channel_def with_conn_def res_simps split: option.splits)

lemma holding_benign_queue:
  assumes "benign (Some f)" and "0 < w_refs w" and "holding os f w = Inr w'"
  shows "same_queue w w'"
  using holding_benign [OF assms(1,2), of os] assms(3) by (metis Inr_inject same_queue_fields(4) same_queue_refl)

lemma notify_benign_queue:
  assumes "benign cb" and "0 < w_refs w" and "notify os cb w = Inr w'"
  shows "same_queue w w'"
proof (cases cb)
  case None
  with assms(3) show ?thesis by (auto simp: notify_def with_conn_def split: option.splits)
next
  case (Some f)
  with assms(3) have "holding os f w = Inr w'"
    by (auto simp: notify_def with_conn_def split: option.splits)
  with assms(1,2) Some show ?thesis using holding_benign_queue by blast
qed

lemma sendInLoop_queue:
  assumes st: "stream_state tid k acc w c" and wb: "write_bounded os"
    and wc: "benign (writeCompleteCallback cbs)" and run: "sendInLoop os cbs tid data w = Inr w'"
  shows "same_queue w w'"
proof -
  note s = stream_stateD [OF st]
  from direct_write_cases [OF s(1) streamingD(1) [OF s(2)] s(4) wb wc, of data] obtain n o' u where
    dw: "direct_write os cbs data w = Inr (n, w\<lparr>w_os := o', w_wire := w_wire w @ take n data, w_user := u\<rparr>)" .
  let ?w = "w\<lparr>w_os := o', w_wire := w_wire w @ take n data, w_user := u\<rparr>"
  have w: "w_conn ?w = Some c" using s(1) by simp
  have "w' = w \<or> w' = ?w \<or> (\<exists>b. w' = upd_conn (\<lambda>c. c\<lparr>tc_outBuffer := b\<rparr>) ?w \<or>
      conn_channel os tid EnableWrite (upd_conn (\<lambda>c. c\<lparr>tc_outBuffer := b\<rparr>) ?w) = Inr w')"
    using run s(1,3) by (auto simp: sendInLoop_def dw w res_simps Let_def split: if_splits)
  then consider "w' = w" | "w' = ?w" | b where "w' = upd_conn (\<lambda>c. c\<lparr>tc_outBuffer := b\<rparr>) ?w"
    | b where "conn_channel os tid EnableWrite (upd_conn (\<lambda>c. c\<lparr>tc_outBuffer := b\<rparr>) ?w) = Inr w'" by blast
  then show ?thesis
    by cases (auto simp: upd_conn_def same_queue_def dest!: conn_channel_queue)
qed

lemma shutdownInLoop_queue: "shutdownInLoop os tid w = Inr w' \<Longrightarrow> same_queue w w'"
  by (cases "w_conn w") (auto simp: shutdownInLoop_def with_conn_def res_simps split: if_splits)

lemma output_done_queue:
  assumes "output_done os tid w = Inr w'"
  shows "same_queue w w'"
proof -
  from assms obtain w1 where w1: "conn_channel os tid DisableWrite w = Inr w1"
    and rest: "with_conn w1 (\<lambda>c. if tc_state c = kDisconnecting then shutdownInLoop os tid w1 else Inr w1) = Inr w'"
    by (auto simp: output_done_def res_simps)
  from rest have "w' = w1 \<or> shutdownInLoop os tid w1 = Inr w'"
    by (cases "w_conn w1") (auto simp: with_conn_def split: if_splits)
  with conn_channel_queue [OF w1] show ?thesis using shutdownInLoop_queue same_queue_trans by blast
qed

lemma handleWrite_queue:
  assumes st: "stream_state tid k acc w c" and wc: "benign (writeCompleteCallback cbs)"
    and run: "conn_handleWrite os cbs tid w = Inr w'"
  shows "same_queue w w'"
proof -
  note s = stream_stateD [OF st]
  have "\<exists>w1. same_queue w w1 \<and> (w' = w1 \<or> (\<exists>w2. output_done os tid w1 = Inr w2 \<and>
      notify os (writeCompleteCallback cbs) w2 = Inr w'))"
  proof (cases "isWriting (tc_channel c) \<and> readableBytes (tc_outBuffer c) \<noteq> 0")
    case False
    with run s(1,3) streamingD(2) [OF s(2)] have "w' = w" by (auto simp: conn_handleWrite_def split: if_splits)
    then show ?thesis by (intro exI [of _ w]) simp
  next
    case True
    obtain data r o' where d: "mem_read (peek (tc_outBuffer c)) (readableBytes (tc_outBuffer c))
        (buf_data (tc_outBuffer c)) = Inr data" "os_write os (ch_fd (tc_channel c)) data (w_os w) = (r, o')"
      using run s(1,3) True by (fastforce simp: conn_handleWrite_def res_simps)
    show ?thesis
    proof (cases r)
      case (Inl err)
      with run s(1,3) True d show ?thesis by (intro exI [of _ w']) (auto simp: conn_handleWrite_def)
    next
      case (Inr n)
      with run s(1,3) True d obtain b where b: "retrieve n (tc_outBuffer c) = Inr b"
        by (auto simp: conn_handleWrite_def res_simps)
      let ?w = "w\<lparr>w_os := o', w_wire := w_wire w @ take n data, w_conn := Some (c\<lparr>tc_outBuffer := b\<rparr>)\<rparr>"
      from Inr run s(1,3) True d b have "w' = ?w \<or> (\<exists>w2. output_done os tid ?w = Inr w2 \<and>
          notify os (writeCompleteCallback cbs) w2 = Inr w')"
        by (auto simp: conn_handleWrite_def res_simps Let_def split: if_splits)
      then show ?thesis by (intro exI [of _ ?w]) simp
    qed
  qed
  then obtain w1 where w1: "same_queue w w1" "w' = w1 \<or> (\<exists>w2. output_done os tid w1 = Inr w2 \<and>
      notify os (writeCompleteCallback cbs) w2 = Inr w')" by blast
  from w1(2) show ?thesis
  proof (elim disjE exE conjE)
    fix w2 assume w2: "output_done os tid w1 = Inr w2" "notify os (writeCompleteCallback cbs) w2 = Inr w'"
    with w1(1) have q: "same_queue w w2" using output_done_queue same_queue_trans by blast
    then have "0 < w_refs w2" using s(4) by (simp add: same_queue_def)
    with notify_benign_queue [OF wc _ w2(2)] q show ?thesis using same_queue_trans by blast
  qed (use w1(1) in simp)
qed

subsection \<open>The stream of all threads\<close>

text \<open>\<open>refs\<close> are the owners apart from the queued tasks; \<open>room\<close> is left for what is still sent.\<close>

definition cross_state ::
  "nat \<Rightarrow> nat \<Rightarrow> nat \<Rightarrow> string \<times> string list \<Rightarrow> ('e, 'o, 'u) world \<Rightarrow> tcp_conn \<Rightarrow> bool" where
  "cross_state tid refs room spec w c \<longleftrightarrow>
     stream_state tid (length (concat (snd spec)) + room) (fst spec) w c \<and> tc_state c = kConnected \<and>
     el_tasks w = map TSend (snd spec) \<and> w_refs w = refs + length (snd spec) \<and> 0 < refs"

lemma stream_state_loop [simp]:
  "stream_state tid k acc (w\<lparr>el_wakeupfd := e\<rparr>) c = stream_state tid k acc w c"
  "stream_state tid k acc (w\<lparr>el_tasks := ts\<rparr>) c = stream_state tid k acc w c"
  "stream_state tid k acc (w\<lparr>el_runningTasks := b\<rparr>) c = stream_state tid k acc w c"
  "0 < n \<Longrightarrow> 0 < w_refs w \<Longrightarrow> stream_state tid k acc (w\<lparr>w_refs := n\<rparr>) c = stream_state tid k acc w c"
  for w :: "('e, 'o, 'u) world"
  by (simp_all add: stream_state_def isInLoopThread_def)

lemma remote_send:
  assumes st: "cross_state tid refs (length m + k) (acc, queue) w c" and t: "t \<noteq> tid"
  shows "\<exists>w'. conn_send os cbs t m w = Inr w' \<and> cross_state tid refs k (acc, queue @ [m]) w' c"
proof -
  have c: "w_conn w = Some c" "tc_state c = kConnected" "isInLoopThread tid w"
    using st by (simp_all add: cross_state_def stream_state_def)
  then have "\<not> isInLoopThread t w" using t by (simp add: isInLoopThread_def)
  then have "conn_send os cbs t m w = Inr (addTask (os_efd_write os) t (TSend m) (w\<lparr>w_refs := w_refs w + 1\<rparr>))"
    using c by (simp add: conn_send_def run_task_def runInLoop_def isInLoopThread_def)
  moreover have "cross_state tid refs k (acc, queue @ [m])
      (addTask (os_efd_write os) t (TSend m) (w\<lparr>w_refs := w_refs w + 1\<rparr>)) c"
    using st t by (simp add: cross_state_def addTask_def push_task_def wakeup_def isInLoopThread_def Let_def
        add.assoc split: sum.split)
  ultimately show ?thesis by blast
qed

lemma round_sends:
  assumes "stream_state tid (length (concat ms) + k) acc w c" and "tc_state c = kConnected"
    and "write_bounded os" and "benign (writeCompleteCallback cbs)"
  shows "\<exists>w' c'. run_list (exec_task os cbs tid) (map TSend ms) w = Inr w' \<and>
     stream_state tid k (acc @ concat ms) w' c' \<and> tc_state c' = kConnected \<and> same_queue w w'"
  using assms(1,2)
proof (induction ms arbitrary: acc w c)
  case Nil
  then show ?case by auto
next
  case (Cons m ms)
  from Cons.prems(1) have st: "stream_state tid (length m + (length (concat ms) + k)) acc w c"
    by (simp add: add.assoc)
  from sendInLoop_stream [OF st assms(3,4) Cons.prems(2)] obtain w1 c1 where
    w1: "sendInLoop os cbs tid m w = Inr w1" "stream_state tid (length (concat ms) + k) (acc @ m) w1 c1"
    "tc_state c1 = kConnected" .
  from sendInLoop_queue [OF st assms(3,4) w1(1)] have q: "same_queue w w1" .
  from Cons.IH [OF w1(2,3)] obtain w' c' where
    "run_list (exec_task os cbs tid) (map TSend ms) w1 = Inr w'"
    "stream_state tid k ((acc @ m) @ concat ms) w' c'" "tc_state c' = kConnected" "same_queue w1 w'" by blast
  moreover have "exec_task os cbs tid (TSend m) w = Inr w1" using w1(1) by (simp add: exec_task_def)
  ultimately show ?case using same_queue_trans [OF q] by auto
qed

lemma round_state:
  assumes st: "cross_state tid refs k (acc, queue) w c"
    and "write_bounded os" and "benign (writeCompleteCallback cbs)"
  shows "\<exists>w' c'. conn_runTasks os cbs tid w = Inr w' \<and> cross_state tid refs k (acc @ concat queue, []) w' c'"
proof -
  let ?w = "w\<lparr>el_runningTasks := True, el_tasks := []\<rparr>"
  from st have "stream_state tid (length (concat queue) + k) acc ?w c" "tc_state c = kConnected"
    by (simp_all add: cross_state_def)
  from round_sends [OF this assms(2,3)] obtain w1 c1 where
    w1: "run_list (exec_task os cbs tid) (map TSend queue) ?w = Inr w1"
    "stream_state tid k (acc @ concat queue) w1 c1" "tc_state c1 = kConnected" "same_queue ?w w1" by blast
  let ?w' = "w1\<lparr>el_runningTasks := False, w_refs := refs\<rparr>"
  have "conn_runTasks os cbs tid w = release os (length queue) (w1\<lparr>el_runningTasks := False\<rparr>)"
    using st w1(1) by (simp add: conn_runTasks_def runTasks_def cross_state_def)
  also have "\<dots> = Inr ?w'"
    using st w1(4) by (simp add: release_def cross_state_def same_queue_def Let_def)
  finally show ?thesis
    using st w1(2-4) by (intro exI [of _ ?w'] exI [of _ c1]) (simp add: cross_state_def same_queue_def)
qed

lemma cross_step_state:
  assumes st: "cross_state tid refs (cross_sent [op] + k) spec w c" and op: "sends_only tid op"
    and wb: "write_bounded os" and wc: "benign (writeCompleteCallback cbs)"
  shows "\<exists>w' c'. cross_step os cbs tid op w = Inr w' \<and> cross_state tid refs k (cross_spec op spec) w' c'"
proof -
  obtain acc queue where spec: "spec = (acc, queue)" by (cases spec)
  show ?thesis
  proof (cases op)
    case (Here lop)
    show ?thesis
    proof (cases lop)
      case (Send m)
      let ?k = "length (concat queue) + k"
      from st Send Here spec have s: "stream_state tid (length m + ?k) acc w c" and cn: "tc_state c = kConnected"
        by (simp_all add: cross_state_def add_ac)
      from sendInLoop_stream [OF s wb wc cn] obtain w' c' where
        w': "sendInLoop os cbs tid m w = Inr w'" "stream_state tid ?k (acc @ m) w' c'" "tc_state c' = kConnected" .
      have "conn_send os cbs tid m w = Inr w'"
        using w'(1) cn stream_stateD(1,3) [OF s] by (simp add: conn_send_def)
      with w' sendInLoop_queue [OF s wb wc w'(1)] st Here Send spec show ?thesis
        by (auto simp: cross_state_def same_queue_def)
    next
      case Writable
      from st Writable Here spec have s: "stream_state tid (length (concat queue) + k) acc w c"
        by (simp add: cross_state_def)
      from handleWrite_stream [OF s wb wc] obtain w' c' where
        w': "conn_handleWrite os cbs tid w = Inr w'" "tc_state c' = tc_state c"
        "stream_state tid (length (concat queue) + k) acc w' c'" .
      with handleWrite_queue [OF s wc w'(1)] st Here Writable spec show ?thesis
        by (auto simp: cross_state_def same_queue_def)
    next
      case Shutdown
      with op Here show ?thesis by (simp add: sends_only_def)
    qed
  next
    case (From t rop)
    with op obtain m where m: "rop = Send m" "t \<noteq> tid" by (auto simp: sends_only_def)
    with remote_send [of tid refs m k acc queue w c t os cbs] st From spec show ?thesis by auto
  next
    case Round
    with round_state [of tid refs k acc queue w c os cbs] st wb wc spec show ?thesis by simp
  qed
qed

lemma cross_sent_Cons: "cross_sent (op # ops) = cross_sent [op] + cross_sent ops"
proof (cases op)
  case (Here lop)
  then show ?thesis by (cases lop) simp_all
next
  case (From t rop)
  then show ?thesis by (cases rop) simp_all
qed simp

lemma cross_run_state:
  assumes "write_bounded os" and "benign (writeCompleteCallback cbs)"
  shows "cross_state tid refs (cross_sent ops + k) spec w c \<Longrightarrow> \<forall>op \<in> set ops. sends_only tid op \<Longrightarrow>
   \<exists>w' c'. run_list (cross_step os cbs tid) ops w = Inr w' \<and> cross_state tid refs k (fold cross_spec ops spec) w' c'"
proof (induction ops arbitrary: spec w c)
  case Nil
  then show ?case by auto
next
  case (Cons op ops)
  from Cons.prems(1) have "cross_state tid refs (cross_sent [op] + (cross_sent ops + k)) spec w c"
    by (subst (asm) cross_sent_Cons) (simp add: add.assoc)
  from cross_step_state [OF this _ assms] Cons.prems(2) obtain w1 c1 where
    "cross_step os cbs tid op w = Inr w1" "cross_state tid refs (cross_sent ops + k) (cross_spec op spec) w1 c1"
    by auto
  with Cons.IH Cons.prems(2) show ?case by simp
qed

lemma enableRead_queue:
  assumes "benign (connectionCallback cbs)" and "0 < w_refs w" and "conn_enableRead os cbs tid w = Inr w'"
  shows "same_queue w w'"
proof -
  let ?w = "upd_conn (\<lambda>c. c\<lparr>tc_state := kConnected\<rparr>) w"
  from assms(3) obtain w1 where w1: "conn_channel os tid EnableRead ?w = Inr w1"
    "notify os (connectionCallback cbs) w1 = Inr w'"
    by (auto simp: conn_enableRead_def with_conn_def res_simps Let_def split: option.splits)
  have "same_queue w ?w" by (simp add: upd_conn_def)
  with conn_channel_queue [OF w1(1)] have q: "same_queue w w1" using same_queue_trans by blast
  then have "0 < w_refs w1" using assms(2) by (simp add: same_queue_def)
  with notify_benign_queue [OF assms(1) _ w1(2)] q show ?thesis using same_queue_trans by blast
qed

text \<open>A write that takes everything empties the output buffer.\<close>

lemma handleWrite_drains:
  assumes st: "stream_state tid k acc w c" and wb: "write_bounded os"
    and wc: "benign (writeCompleteCallback cbs)" and more: "readable (tc_outBuffer c) \<noteq> []"
    and all: "os_write os (ch_fd (tc_channel c)) (readable (tc_outBuffer c)) (w_os w)
        = (Inr (length (readable (tc_outBuffer c))), o')"
  obtains w' c' where "conn_handleWrite os cbs tid w = Inr w'" and "tc_state c' = tc_state c"
    and "stream_state tid k acc w' c'" and "readable (tc_outBuffer c') = []"
proof -
  note s = stream_stateD [OF st] and c = streamingD [OF stream_stateD(2) [OF st]]
  let ?q = "readable (tc_outBuffer c)"
  have rd: "mem_read (peek (tc_outBuffer c)) (readableBytes (tc_outBuffer c)) (buf_data (tc_outBuffer c)) = Inr ?q"
    using c by (simp add: peek_def mem_simps)
  from retrieve_correct [OF c(1), of "length ?q"] obtain b where b: "retrieve (length ?q) (tc_outBuffer c) = Inr b"
    "buffer_ok b" "readable b = []" by auto
  let ?w = "w\<lparr>w_os := o', w_wire := w_wire w @ ?q, w_conn := Some (c\<lparr>tc_outBuffer := b\<rparr>)\<rparr>"
  from handleWrite_stream [OF st wb wc] obtain w' c' where
    w': "conn_handleWrite os cbs tid w = Inr w'" "tc_state c' = tc_state c" "stream_state tid k acc w' c'" .
  have "conn_handleWrite os cbs tid w
      = rbind (output_done os tid ?w) (notify os (writeCompleteCallback cbs))"
    using s(1,3) c more rd all b by (simp add: conn_handleWrite_def Let_def readableBytes_length)
  with w'(1) obtain w1 where w1: "output_done os tid ?w = Inr w1"
    "notify os (writeCompleteCallback cbs) w1 = Inr w'" by (auto simp: res_simps)
  have "same_queue ?w w1" using output_done_queue [OF w1(1)] .
  then have "0 < w_refs w1" using s(4) by (simp add: same_queue_def)
  moreover obtain c1 where "w_conn w1 = Some c1"
    using w1(2) by (auto simp: notify_def with_conn_def split: option.splits)
  ultimately obtain u where "w' = w1\<lparr>w_user := u\<rparr>"
    using notify_benign [OF wc, of w1 c1 os] w1(2) by (metis Inr_inject)
  with output_done_wire [OF w1(1)] have "w_wire w' = w_wire w @ ?q" by simp
  also have "\<dots> = acc" using s(6) .
  finally have "readable (tc_outBuffer c') = []" using stream_stateD(6) [OF w'(3)] by simp
  with w' show ?thesis by (rule that)
qed

subsection \<open>Properties\<close>

text \<open>C11. Several threads can send on one connection at the same time.  For every interleaving of
  sends in the loop thread, sends in other threads, writable events and rounds of tasks, whatever part
  of the data each \<open>write\<close> takes: no assert fails, the bytes taken by the kernel and those in the
  output buffer are the loop thread's messages and, from their round on, the others' messages, each
  whole and in the order in which it was sent or queued; the messages still queued are in the task
  list; each queued message holds one \<open>shared_ptr\<close> to the connection, and a round gives them back.\<close>

theorem cross_thread_stream:
  assumes "fresh_world tid fd w" and "el_tasks w = []" and "write_bounded os"
    and "benign (connectionCallback cbs)" and "benign (writeCompleteCallback cbs)"
    and "\<forall>op \<in> set ops. sends_only tid op" and "cross_sent ops + kCheapPrepend \<le> kMaxSize"
    and "fold cross_spec ops ([], []) = (acc, queue)"
  shows "\<exists>w' c. rbind (conn_enableRead os cbs tid w) (run_list (cross_step os cbs tid) ops) = Inr w' \<and>
     w_conn w' = Some c \<and> w_wire w' @ readable (tc_outBuffer c) = acc \<and>
     el_tasks w' = map TSend queue \<and> w_refs w' = w_refs w + length queue \<and> \<not> w_shut w'"
proof -
  obtain w1 c1 where w1: "conn_enableRead os cbs tid w = Inr w1" "stream_state tid (cross_sent ops) [] w1 c1"
    "tc_state c1 = kConnected"
    using enableRead_stream [OF assms(1,4,7)] by metis
  have refs: "0 < w_refs w" using assms(1) by (simp add: fresh_world_def)
  with enableRead_queue [OF assms(4) _ w1(1)] have "same_queue w w1" by simp
  with w1 refs assms(2) have "cross_state tid (w_refs w) (cross_sent ops + 0) ([], []) w1 c1"
    by (simp add: cross_state_def same_queue_def)
  from cross_run_state [OF assms(3,5) this assms(6)] obtain w' c where
    w': "run_list (cross_step os cbs tid) ops w1 = Inr w'" "cross_state tid (w_refs w) 0 (acc, queue) w' c"
    using assms(8) by auto
  then have "stream_state tid (length (concat queue)) acc w' c" by (simp add: cross_state_def)
  note s = stream_stateD [OF this]
  show ?thesis
    using w1(1) w' s(1,6,7) by (intro exI [of _ w'] exI [of _ c]) (simp add: cross_state_def)
qed

theorem cross_thread_stream_witness:
  "\<exists>w' c. rbind (conn_enableRead slow_os quiet_callbacks 1 (first_world 1))
       (run_list (cross_step slow_os quiet_callbacks 1)
          [From 2 (Send ''abc''), Here (Send ''hello''), From 3 (Send ''de''), Round, Here Writable,
           From 2 (Send ''x'')]) = Inr w' \<and>
     w_conn w' = Some c \<and> w_wire w' @ readable (tc_outBuffer c) = ''helloabcde'' \<and>
     el_tasks w' = [TSend ''x''] \<and> w_refs w' = 2 \<and> \<not> w_shut w'"
proof -
  let ?ops = "[From 2 (Send ''abc''), Here (Send ''hello''), From 3 (Send ''de''), Round, Here Writable,
     From 2 (Send ''x'')]"
  have tasks: "el_tasks (first_world 1) = []" and refs: "w_refs (first_world 1) + length [''x''] = 2"
    by (simp_all add: first_world_def)
  have ops: "\<forall>op \<in> set ?ops. sends_only 1 op" by (simp add: sends_only_def)
  have room: "cross_sent ?ops + kCheapPrepend \<le> kMaxSize" by (simp add: kCheapPrepend_def kMaxSize_def)
  have spec: "fold cross_spec ?ops ([], []) = (''helloabcde'', [''x''])" by simp
  note run = cross_thread_stream [OF first_fresh tasks slow_os_bounded quiet_benign ops room spec, OF zero_less_one]
  show ?thesis using run unfolding refs list.map .
qed

text \<open>C37. A \<open>shutdown\<close> from another thread can overtake the messages sent before it.  It changes the state of
  the connection at once but queues the rest; when earlier output drains before the queue is run,
  \<open>handleWrite\<close> sees \<open>kDisconnecting\<close> and shuts the write side down while the other thread's last
  message is still in the queue, to be written after \<open>SHUT_WR\<close>.\<close>

theorem shutdown_overtakes:
  assumes "cross_state tid refs (length m + k) (acc, queue) w c" and "t \<noteq> tid"
    and "write_bounded os" and "benign (writeCompleteCallback cbs)" and "readable (tc_outBuffer c) \<noteq> []"
    and "os_write os (ch_fd (tc_channel c)) (readable (tc_outBuffer c)) (w_os w)
        = (Inr (length (readable (tc_outBuffer c))), o')"
  shows "\<exists>w'. run_list (cross_step os cbs tid) [From t (Send m), From t Shutdown, Here Writable] w = Inr w' \<and>
     w_shut w' \<and> w_wire w' = acc \<and> el_tasks w' = map TSend (queue @ [m]) @ [TShutdown]"
proof -
  let ?wake = "\<lambda>w. addTask (os_efd_write os) t"
  from remote_send [OF assms(1,2)] obtain w1 where
    w1: "conn_send os cbs t m w = Inr w1" "cross_state tid refs k (acc, queue @ [m]) w1 c" by blast
  have st1: "stream_state tid (length (concat (queue @ [m])) + k) acc w1 c" and cn: "tc_state c = kConnected"
    and tasks: "el_tasks w1 = map TSend (queue @ [m])" and refs: "0 < w_refs w1"
    using w1(2) by (simp_all add: cross_state_def)
  note s = stream_stateD [OF st1]
  have os1: "w_os w1 = w_os w"
    using w1(1) assms(1,2) by (auto simp: cross_state_def stream_state_def conn_send_def run_task_def
        runInLoop_def isInLoopThread_def addTask_def push_task_def wakeup_def Let_def split: sum.splits)
  let ?c = "c\<lparr>tc_state := kDisconnecting\<rparr>"
  let ?w2 = "addTask (os_efd_write os) t TShutdown (w1\<lparr>w_conn := Some ?c, w_refs := w_refs w1 + 1\<rparr>)"
  have "conn_shutdown os cbs t w1 = Inr ?w2"
    using s(1,3) cn assms(2) by (simp add: conn_shutdown_def upd_conn_def run_task_def runInLoop_def
        isInLoopThread_def)
  moreover have st2: "stream_state tid k acc ?w2 ?c"
    using st1 cn assms(2,5) by (auto simp: stream_state_def streaming_def addTask_def push_task_def wakeup_def
        isInLoopThread_def has_room_def Let_def split: sum.split)
  moreover have "w_os ?w2 = w_os w" and t2: "el_tasks ?w2 = map TSend (queue @ [m]) @ [TShutdown]"
    using os1 tasks by (simp_all add: addTask_def push_task_def wakeup_def Let_def split: sum.split)
  moreover obtain w3 c3 where w3: "conn_handleWrite os cbs tid ?w2 = Inr w3" "tc_state c3 = kDisconnecting"
    "stream_state tid k acc w3 c3" "readable (tc_outBuffer c3) = []"
    using handleWrite_drains [OF st2 assms(3,4), of o'] assms(5,6) \<open>w_os ?w2 = w_os w\<close> by auto
  moreover have "el_tasks w3 = el_tasks ?w2"
    using handleWrite_queue [OF st2 assms(4) w3(1)] by (simp add: same_queue_def)
  ultimately show ?thesis
    using w1(1) stream_stateD(6,7) [OF w3(3)] by (intro exI [of _ w3]) simp
qed

text \<open>A connection with two bytes left in its output buffer.\<close>

definition half_sent :: "(nat, unit interest_list, nat) world" where
  "half_sent = (first_world 1)\<lparr>w_conn := Some ((new_connection 5)\<lparr>tc_state := kConnected,
     tc_channel := (new_channel 5)\<lparr>ch_events := EPOLLIN OR EPOLLPRI OR EPOLLOUT, ch_state := kAdded\<rparr>,
     tc_outBuffer := \<lparr>buf_data = ''........lo'', readerIndex = 8, writerIndex = 10\<rparr>\<rparr>), w_wire := ''hel''\<rparr>"

theorem shutdown_overtakes_witness:
  "\<exists>w'. run_list (cross_step slow_os quiet_callbacks 1)
       [From 2 (Send ''bye''), From 2 Shutdown, Here Writable] half_sent = Inr w' \<and>
     w_shut w' \<and> w_wire w' = ''hello'' \<and> el_tasks w' = [TSend ''bye'', TShutdown]"
proof -
  let ?c = "the (w_conn half_sent)"
  have out: "readable (tc_outBuffer ?c) = ''lo''" by (simp add: half_sent_def readable_def)
  have "cross_state 1 1 (length ''bye'' + 0) (''hello'', []) half_sent ?c"
    using out by (simp add: cross_state_def stream_state_def streaming_def half_sent_def first_world_def
        buffer_ok_def kCheapPrepend_def kMaxSize_def has_room_def isInLoopThread_def isReading_bit
        isWriting_bit bit_simps new_connection_def)
  from shutdown_overtakes [OF this _ slow_os_bounded quiet_benign(2), of 2] out show ?thesis
    by (simp add: slow_os_def)
qed

end
