(* ===== verification/ChatMain.thy ===== *)
theory ChatMain
  imports Chat CrossThread InetAddr
begin

text \<open>
  The chat client of \<open>example/chat/client.cpp\<close> as a program: its arguments, the lines it reads from the
  terminal and sends from its main thread while the loop of its \<open>EventLoopThread\<close> does the writing, and
  what it prints.
\<close>

subsection \<open>The main function\<close>

text \<open>\<open>atoi\<close>: white space, an optional sign, digits; for values that fit an \<open>int\<close>.\<close>

definition is_space :: "char \<Rightarrow> bool" where
  "is_space c \<longleftrightarrow> c \<in> {CHR '' '', CHR 0x09, CHR 0x0A, CHR 0x0B, CHR 0x0C, CHR 0x0D}"

definition is_digit :: "char \<Rightarrow> bool" where
  "is_digit c \<longleftrightarrow> 48 \<le> (of_char c :: nat) \<and> (of_char c :: nat) < 58"

definition atoi :: "string \<Rightarrow> int" where
  "atoi s =
     (case dropWhile is_space s of
        [] \<Rightarrow> 0
      | c # cs \<Rightarrow>
          if c = CHR ''-'' then - int (undec (takeWhile is_digit cs))
          else if c = CHR ''+'' then int (undec (takeWhile is_digit cs))
          else int (undec (takeWhile is_digit (c # cs))))"

text \<open>
  The address the client connects to; \<open>None\<close> stands for the usage message and the end of the program.
  The port is the cast of \<open>atoi\<close> to \<open>uint16_t\<close>.
\<close>

definition chat_client_server ::
  "(string \<Rightarrow> 32 word option) \<Rightarrow> string list \<Rightarrow> sockaddr_in option res" where
  "chat_client_server inet_pton argv =
     (if length argv \<le> 2 then Inr None
      else
        let port = word_of_int (atoi (argv ! 2)) :: 16 word in
        rbind (inet_string inet_pton (argv ! 1) port) (\<lambda>server. Inr (Some server)))"

text \<open>The lines \<open>std::getline\<close> returns until the end of the input.\<close>

function getlines :: "string \<Rightarrow> string list" where
  "getlines s =
     (if s = [] then []
      else takeWhile (\<lambda>c. c \<noteq> CHR 0x0A) s # getlines (tl (dropWhile (\<lambda>c. c \<noteq> CHR 0x0A) s)))"
  by pat_completeness auto
termination
proof (relation "measure length")
  fix s :: string
  assume "s \<noteq> []"
  have "length (dropWhile (\<lambda>c. c \<noteq> CHR 0x0A) s) \<le> length s" by (rule length_dropWhile_le)
  with \<open>s \<noteq> []\<close> show "(tl (dropWhile (\<lambda>c. c \<noteq> CHR 0x0A) s), s) \<in> measure length"
    by (cases s) auto
qed simp

declare getlines.simps [simp del]

text \<open>\<open>ChatClient::onMessage\<close>: what is printed for a message of the connection \<open>name\<close>.\<close>

definition chat_client_onMessage :: "string \<Rightarrow> string \<Rightarrow> string \<Rightarrow> string" where
  "chat_client_onMessage name terminal message =
     terminal @ name @ '':'' @ [CHR 0x0A, CHR 0x09] @ message @ [CHR 0x0A]"

text \<open>
  The running client: whether \<open>connection_\<close> is set, and its connection.  The main thread \<open>t\<close> sends a line;
  the loop thread reports the connection up, handles a writable event or runs its tasks.
\<close>

datatype client_event = Typed string | Connected | Drain | RunTasks

fun client_step ::
  "('e, 'o) os \<Rightarrow> ('e, 'o, 'u) world conn_callbacks \<Rightarrow> nat \<Rightarrow> nat \<Rightarrow> client_event \<Rightarrow>
   bool \<times> ('e, 'o, 'u) world \<Rightarrow> (bool \<times> ('e, 'o, 'u) world) res" where
  "client_step os cbs tid t (Typed line) (connection, w) =
     rbind (chat_client_send os cbs t line connection w) (\<lambda>w'. Inr (connection, w'))"
| "client_step os cbs tid t Connected (connection, w) =
     rbind (conn_enableRead os cbs tid w) (\<lambda>w'.
     rbind (chat_client_onConnection w' connection) (\<lambda>up. Inr (up, w')))"
| "client_step os cbs tid t Drain (connection, w) =
     rbind (conn_handleWrite os cbs tid w) (\<lambda>w'. Inr (connection, w'))"
| "client_step os cbs tid t RunTasks (connection, w) =
     rbind (conn_runTasks os cbs tid w) (\<lambda>w'. Inr (connection, w'))"

fun typed :: "client_event list \<Rightarrow> string list" where
  "typed [] = []"
| "typed (Typed line # evs) = line # typed evs"
| "typed (ev # evs) = typed evs"

subsection \<open>Arguments and lines\<close>

lemma getlines_lines:
  "\<forall>l \<in> set ls. CHR 0x0A \<notin> set l \<Longrightarrow> getlines (concat (map (\<lambda>l. l @ [CHR 0x0A]) ls)) = ls"
proof (induction ls)
  case (Cons l ls)
  then have "CHR 0x0A \<notin> set l" by simp
  then have "takeWhile (\<lambda>c. c \<noteq> CHR 0x0A) (l @ CHR 0x0A # xs) = l"
    and "dropWhile (\<lambda>c. c \<noteq> CHR 0x0A) (l @ CHR 0x0A # xs) = CHR 0x0A # xs" for xs
    by (auto simp: takeWhile_append dropWhile_append)
  with Cons show ?case by (subst getlines.simps) simp
qed (simp add: getlines.simps)

lemma getlines_no_newline: "l \<in> set (getlines s) \<Longrightarrow> CHR 0x0A \<notin> set l"
proof (induction s rule: getlines.induct)
  case (1 s)
  then show ?case
    by (subst (asm) (2) getlines.simps) (auto split: if_splits dest: set_takeWhileD)
qed

lemma atoi_dec_nat: "atoi (dec_nat n) = int n"
proof -
  have digits: "\<forall>c \<in> set (dec_nat n). is_digit c"
    using dec_nat_digits by (auto simp: is_digit_def)
  have ne: "dec_nat n \<noteq> []" by (subst dec_nat.simps) simp
  then obtain c cs where s: "dec_nat n = c # cs" by (cases "dec_nat n") auto
  have "is_digit c" using digits s by simp
  then have "\<not> is_space c" "c \<noteq> CHR ''-''" "c \<noteq> CHR ''+''"
    by (auto simp: is_digit_def is_space_def)
  moreover have "takeWhile is_digit (c # cs) = c # cs" using digits s by (metis takeWhile_eq_all_conv)
  ultimately show ?thesis using undec_dec_nat [of n] s by (simp add: atoi_def)
qed

text \<open>The port given on the command line is the port of the server's address.\<close>

lemma client_port:
  assumes "inet_pton ip = Some a" and "p < 65536"
  shows "\<exists>server. chat_client_server inet_pton (prog # ip # dec_nat p # rest) = Inr (Some server) \<and>
     inet_port_of server = word_of_nat p \<and> unat (inet_port_of server) = p \<and> sin_addr server = a"
  using assms by (simp add: chat_client_server_def inet_string_def atoi_dec_nat inet_port_of_def unat_of_nat)


subsection \<open>The typed lines on the stream\<close>

fun cross_of :: "nat \<Rightarrow> client_event \<Rightarrow> cross_op" where
  "cross_of t (Typed line) = From t (Send (frame line))"
| "cross_of t Drain = Here Writable"
| "cross_of t ev = Round"

lemma chat_client_send_frame:
  assumes "length m \<le> 65536"
  shows "chat_client_send os cbs t m True w = conn_send os cbs t (frame m) w"
proof -
  obtain b where "codec_send m = Inr b" "buffer_ok b" "readable b = frame m"
    using codec_send_frame [of m] assms by (auto simp: kCheapPrepend_def kMaxSize_def)
  then show ?thesis using tcp_send_buffer [of b os cbs t w] by (simp add: chat_client_send_def)
qed

lemma client_run_cross:
  "\<forall>m \<in> set (typed evs). length m \<le> 65536 \<Longrightarrow> Connected \<notin> set evs \<Longrightarrow>
   run_list (client_step os cbs tid t) evs (True, w) =
     rbind (run_list (cross_step os cbs tid) (map (cross_of t) evs) w) (\<lambda>w'. Inr (True, w'))"
proof (induction evs arbitrary: w)
  case (Cons ev evs)
  have step: "client_step os cbs tid t ev (True, w) = rbind (cross_step os cbs tid (cross_of t ev) w) (\<lambda>w'. Inr (True, w'))"
    using Cons.prems by (cases ev) (simp_all add: chat_client_send_frame)
  have "run_list (client_step os cbs tid t) evs (True, w1) =
      rbind (run_list (cross_step os cbs tid) (map (cross_of t) evs) w1) (\<lambda>w'. Inr (True, w'))" for w1
    by (rule Cons.IH) (use Cons.prems in \<open>cases ev; simp\<close>)+
  then show ?case by (simp add: step rbind_assoc)
qed simp

lemma client_spec:
  "fold cross_spec (map (cross_of t) evs) spec = (acc, queue) \<Longrightarrow>
   acc @ concat queue = fst spec @ concat (snd spec) @ concat (map frame (typed evs))"
proof (induction evs arbitrary: spec)
  case (Cons ev evs)
  from Cons.IH [of "cross_spec (cross_of t ev) spec"] Cons.prems show ?case
    by (cases spec; cases ev) simp_all
qed simp

lemma client_sent: "cross_sent (map (cross_of t) evs) = length (concat (map frame (typed evs)))"
  by (induction evs rule: typed.induct) simp_all

text \<open>A prefix of the frames of some messages holds the frames of the first of them.\<close>

lemma frames_prefix:
  assumes "\<forall>m \<in> set ms. length m \<le> 65536" and "concat (map frame ms) = x @ y"
  obtains k r where "frames x = (take k ms, False, r)" and "y = [] \<Longrightarrow> take k ms = ms"
proof -
  have all: "frames (x @ y) = (ms, False, [])" using frames_messages [OF assms(1)] assms(2) by simp
  obtain ms' bad r where x: "frames x = (ms', bad, r)" by (cases "frames x") auto
  have "\<not> bad" using all frames_bad_append [of x ms' r y] x by auto
  then have good: "frames x = (ms', False, r)" using x by simp
  obtain ms'' bad' r' where rest: "frames (r @ y) = (ms'', bad', r')" by (cases "frames (r @ y)") auto
  have "ms = ms' @ ms''" using frames_append [OF good, of y] all rest by simp
  then have "ms' = take (length ms') ms" by simp
  moreover have "y = [] \<Longrightarrow> ms' = ms" using all good by simp
  ultimately show ?thesis using good by (intro that [of "length ms'" r]) auto
qed

text \<open>Feeding the codec such a prefix, in any chunks.\<close>

lemma feed_prefix:
  assumes "\<forall>m \<in> set ms. length m \<le> 65536" and "concat (map frame ms) = concat chunks @ y"
    and "length (concat (map frame ms)) + kCheapPrepend \<le> kMaxSize"
  shows "\<exists>k b. codec_feed cb shut chunks s (new_buffer n) = Some (Inr (foldl cb s (take k ms), b)) \<and>
     (y = [] \<longrightarrow> take k ms = ms)"
proof -
  obtain k r where k: "frames (concat chunks) = (take k ms, False, r)" "y = [] \<Longrightarrow> take k ms = ms"
    using frames_prefix [OF assms(1,2)] by blast
  have "length (concat chunks) \<le> length (concat (map frame ms))" by (simp add: assms(2))
  then have "has_room (length (concat chunks)) (new_buffer n)" using assms(3) by (simp add: new_buffer_room)
  from codec_feed_refines [OF new_buffer_ok this, of "take k ms" r cb shut s] k show ?thesis
    by (auto simp: new_buffer_empty has_frame_def)
qed

text \<open>A line read before the connection is up.\<close>

lemma typed_unconnected:
  assumes "length line \<le> 65536"
  shows "client_step os cbs tid t (Typed line) (False, w) = Inl NullDeref"
proof -
  obtain b where "codec_send line = Inr b"
    using codec_send_frame [of line] assms by (auto simp: kCheapPrepend_def kMaxSize_def)
  then show ?thesis by (simp add: chat_client_send_def)
qed

lemma client_connected:
  assumes "conn_enableRead os cbs tid w = Inr w1" and "w_conn w1 = Some c" and "tc_state c = kConnected"
  shows "client_step os cbs tid t Connected (connection, w) = Inr (True, w1)"
  using assms by (simp add: chat_client_onConnection_def with_conn_def conn_connected_def)

subsection \<open>Properties\<close>

text \<open>C12. What is typed at a chat client after its connection is up arrives, for lines of at most 65536
  bytes, the limit of the codec.  Once the loop thread has reported the connection, the main thread sends
  each line it reads as a frame while the loop thread, in any interleaving, writes and runs its tasks, and
  whatever part of the data each \<open>write\<close> takes: no call fails, and a codec that is fed the bytes the kernel
  has taken, in any chunks, delivers the first lines of the input in order, each whole and once, and all of
  them when nothing is queued or buffered any more.  A line that is read before the connection is up
  dereferences the null \<open>connection_\<close>.\<close>

theorem typed_lines:
  assumes "fresh_world tid fd w" and "el_tasks w = []" and "t \<noteq> tid" and "write_bounded os"
    and "benign (connectionCallback cbs)" and "benign (writeCompleteCallback cbs)" and "Connected \<notin> set evs"
    and "typed evs = getlines input" and "\<forall>m \<in> set (getlines input). length m \<le> 65536"
    and "length (concat (map frame (getlines input))) + kCheapPrepend \<le> kMaxSize"
  shows "(\<exists>w' c. run_list (client_step os cbs tid t) (Connected # evs) (False, w) = Inr (True, w') \<and>
     w_conn w' = Some c \<and>
     (\<forall>chunks. concat chunks = w_wire w' \<longrightarrow>
       (\<exists>k b. codec_feed cb shut chunks s (new_buffer n) = Some (Inr (foldl cb s (take k (getlines input)), b)) \<and>
          (el_tasks w' = [] \<and> readable (tc_outBuffer c) = [] \<longrightarrow> take k (getlines input) = getlines input)))) \<and>
     (\<forall>line \<in> set (getlines input). client_step os cbs tid t (Typed line) (False, w) = Inl NullDeref)"
proof -
  let ?ms = "getlines input" and ?ops = "map (cross_of t) evs"
  have room: "cross_sent ?ops + kCheapPrepend \<le> kMaxSize" using assms(8,10) by (simp add: client_sent)
  obtain w1 c1 where w1: "conn_enableRead os cbs tid w = Inr w1" "stream_state tid (cross_sent ?ops) [] w1 c1"
    "tc_state c1 = kConnected"
    using enableRead_stream [OF assms(1,5) room] by metis
  have refs: "0 < w_refs w" using assms(1) by (simp add: fresh_world_def)
  with enableRead_queue [OF assms(5) _ w1(1)] have "same_queue w w1" by simp
  with w1 refs assms(2) have st: "cross_state tid (w_refs w) (cross_sent ?ops + 0) ([], []) w1 c1"
    by (simp add: cross_state_def same_queue_def)
  have "\<forall>op \<in> set ?ops. sends_only tid op"
    using assms(3) by (auto simp: sends_only_def elim!: cross_of.elims split: cross_op.split)
  from cross_run_state [OF assms(4,6) st this] obtain w' c where
    w': "run_list (cross_step os cbs tid) ?ops w1 = Inr w'"
    "cross_state tid (w_refs w) 0 (fold cross_spec ?ops ([], [])) w' c" by blast
  obtain acc queue where spec: "fold cross_spec ?ops ([], []) = (acc, queue)"
    by (cases "fold cross_spec ?ops ([], [])")
  with w'(2) have st': "stream_state tid (length (concat queue)) acc w' c" "el_tasks w' = map TSend queue"
    by (simp_all add: cross_state_def)
  have all: "concat (map frame ?ms) = w_wire w' @ (readable (tc_outBuffer c) @ concat queue)"
    using client_spec [OF spec] stream_stateD(6) [OF st'(1)] assms(8) by (metis append.assoc append_Nil concat.simps(1) fst_conv snd_conv)
  have run: "run_list (client_step os cbs tid t) (Connected # evs) (False, w) = Inr (True, w')"
    using client_connected [OF w1(1) stream_stateD(1) [OF w1(2)] w1(3)] w'(1) client_run_cross [of evs os cbs tid t w1]
      assms(7-9) by simp
  have "\<exists>k b. codec_feed cb shut chunks s (new_buffer n) = Some (Inr (foldl cb s (take k ?ms), b)) \<and>
      (el_tasks w' = [] \<and> readable (tc_outBuffer c) = [] \<longrightarrow> take k ?ms = ?ms)"
    if "concat chunks = w_wire w'" for chunks
  proof -
    have "concat (map frame ?ms) = concat chunks @ (readable (tc_outBuffer c) @ concat queue)" using all that by simp
    from feed_prefix [OF assms(9) this assms(10), of cb shut s n] obtain k b where
      "codec_feed cb shut chunks s (new_buffer n) = Some (Inr (foldl cb s (take k ?ms), b))"
      "readable (tc_outBuffer c) @ concat queue = [] \<longrightarrow> take k ?ms = ?ms" by blast
    then show ?thesis using st'(2) by (intro exI [of _ k] exI [of _ b]) simp
  qed
  then have "\<exists>w' c. run_list (client_step os cbs tid t) (Connected # evs) (False, w) = Inr (True, w') \<and> w_conn w' = Some c \<and>
     (\<forall>chunks. concat chunks = w_wire w' \<longrightarrow>
       (\<exists>k b. codec_feed cb shut chunks s (new_buffer n) = Some (Inr (foldl cb s (take k ?ms), b)) \<and>
          (el_tasks w' = [] \<and> readable (tc_outBuffer c) = [] \<longrightarrow> take k ?ms = ?ms)))"
    using run stream_stateD(1) [OF st'(1)] by (intro exI [of _ w'] exI [of _ c]) simp
  moreover have "\<forall>line \<in> set ?ms. client_step os cbs tid t (Typed line) (False, w) = Inl NullDeref"
    using assms(9) typed_unconnected by blast
  ultimately show ?thesis by blast
qed

text \<open>Two lines, with one round of tasks and some writable events.\<close>

theorem typed_lines_witness:
  "\<exists>w' c k b. run_list (client_step slow_os quiet_callbacks 1 2) [Connected, Typed ''hi'', RunTasks, Drain, Typed ''you'', Drain]
       (False, first_world 1) = Inr (True, w') \<and> w_conn w' = Some c \<and>
     codec_feed (chat_client_onMessage ''c'') id [w_wire w'] [] (new_buffer 0)
       = Some (Inr (foldl (chat_client_onMessage ''c'') [] (take k [''hi'', ''you'']), b))"
proof -
  let ?in = "concat (map (\<lambda>l. l @ [CHR 0x0A]) [''hi'', ''you''])"
  let ?evs = "[Typed ''hi'', RunTasks, Drain, Typed ''you'', Drain]"
  have lines: "getlines ?in = [''hi'', ''you'']" by (rule getlines_lines) simp
  have tasks: "el_tasks (first_world 1) = []" by (simp add: first_world_def)
  have "Connected \<notin> set ?evs" "typed ?evs = getlines ?in" "\<forall>m \<in> set (getlines ?in). length m \<le> 65536"
    "length (concat (map frame (getlines ?in))) + kCheapPrepend \<le> kMaxSize" "(2::nat) \<noteq> 1" "(0::nat) < 1"
    by (simp_all only: lines) (simp_all add: kCheapPrepend_def kMaxSize_def)
  note * = typed_lines [OF first_fresh [OF this(6)] tasks this(5) slow_os_bounded quiet_benign this(1-4),
      of "chat_client_onMessage ''c''" id "[]" 0]
  then obtain w' c where w': "run_list (client_step slow_os quiet_callbacks 1 2) (Connected # ?evs) (False, first_world 1)
       = Inr (True, w')" "w_conn w' = Some c"
    and feed: "concat chunks = w_wire w' \<Longrightarrow>
       \<exists>k b. codec_feed (chat_client_onMessage ''c'') id chunks [] (new_buffer 0)
          = Some (Inr (foldl (chat_client_onMessage ''c'') [] (take k (getlines ?in)), b))" for chunks
    by blast
  from feed [of "[w_wire w']"] obtain k b where
    "codec_feed (chat_client_onMessage ''c'') id [w_wire w'] [] (new_buffer 0)
       = Some (Inr (foldl (chat_client_onMessage ''c'') [] (take k (getlines ?in)), b))" by auto
  with w' show ?thesis unfolding lines by blast
qed

end
