(* ===== verification/CodecMemory.thy ===== *)
theory CodecMemory
  imports Codec
begin

text \<open>
  The memory of a chat connection: how large the vector of an input buffer becomes when
  \<open>TcpConnection::handleRead\<close> fills it with \<open>readFd\<close> and \<open>LenHeaderCodec::onMessage\<close> empties it, over
  any number of reads.
\<close>

subsection \<open>Reading and decoding\<close>

text \<open>
  One element of the list is the answer of one \<open>readv\<close>; as in \<open>handleRead\<close> the codec runs when there was
  something to read, an error is only logged, and an end of file ends the connection.
\<close>

fun codec_reads ::
  "('s \<Rightarrow> string \<Rightarrow> 's) \<Rightarrow> ('s \<Rightarrow> 's) \<Rightarrow> (nat list \<Rightarrow> readv_result) list \<Rightarrow> 's \<Rightarrow> buffer \<Rightarrow>
   ('s \<times> buffer) res option" where
  "codec_reads cb shutdown [] s b = Some (Inr (s, b))"
| "codec_reads cb shutdown (rv # rvs) s b =
     (case readFd rv b of
        Inl e \<Rightarrow> Some (Inl e)
      | Inr (n, savedErrno, b1) \<Rightarrow>
          if n = -1 then codec_reads cb shutdown rvs s b1
          else if n = 0 then Some (Inr (s, b1))
          else (case codec_onMessage cb shutdown s b1 of
                  None \<Rightarrow> None
                | Some (Inl e) \<Rightarrow> Some (Inl e)
                | Some (Inr (s1, b2)) \<Rightarrow> codec_reads cb shutdown rvs s1 b2))"

text \<open>The size of the vector.\<close>

abbreviation capacity :: "buffer \<Rightarrow> nat" where
  "capacity b \<equiv> length (buf_data b)"

definition kBacklog :: nat where
  "kBacklog = 4 + 65536"

definition kCodecMemory :: nat where
  "kCodecMemory = 2 * kExtraBuf + kCheapPrepend + kBacklog + kExtraBuf"

subsection \<open>How the vector grows\<close>

lemma mem_write_length: "mem_write i ys xs = Inr xs' \<Longrightarrow> length xs' = length xs"
  by (auto simp: mem_write_def split: if_splits)

lemma retrieve_data: "retrieve n b = Inr b' \<Longrightarrow> buf_data b' = buf_data b"
  by (auto simp: retrieve_def retrieveAll_def res_simps split: if_splits)

lemma retrieveAsString_data: "retrieveAsString n b = Inr (s, b') \<Longrightarrow> buf_data b' = buf_data b"
  by (auto simp: retrieveAsString_def res_simps dest: retrieve_data)

lemma makeSpace_capacity:
  assumes ok: "buffer_ok b" and len: "n \<le> kMaxSize" and need: "writableBytes b < n"
    and run: "makeSpace n b = Inr b'"
  shows "capacity b' = capacity b \<or>
     capacity b' = writerIndex b + n \<and> capacity b - writerIndex b + readerIndex b < n + kCheapPrepend"
proof -
  note b = buffer_okD [OF ok]
  have sums: "sz_add (writableBytes b) (prependableBytes b) = capacity b - writerIndex b + readerIndex b"
    "sz_add n kCheapPrepend = n + kCheapPrepend" "sz_add (writerIndex b) n = writerIndex b + n"
    using b len by (simp_all add: sz_simps prependableBytes_def ok)
  show ?thesis
  proof (cases "capacity b - writerIndex b + readerIndex b < n + kCheapPrepend")
    case True
    with run sums have "vec_resize (writerIndex b + n) (buf_data b) = Inr (buf_data b')"
      by (auto simp: makeSpace_def res_simps)
    then have "buf_data b' = buf_data b @ replicate (writerIndex b + n - capacity b) (CHR 0x00)"
      and "capacity b \<le> writerIndex b + n"
      using need b(3) writableBytes_ok [OF ok] by (auto simp: vec_resize_def split: if_splits)
    then have "capacity b' = writerIndex b + n" by simp
    with True show ?thesis by simp
  next
    case False
    with run sums show ?thesis
      by (auto simp: makeSpace_def res_simps Let_def dest: mem_write_length)
  qed
qed

lemma append_capacity:
  assumes ok: "buffer_ok b" and len: "length xs \<le> kMaxSize" and run: "append_buf xs b = Inr b'"
  shows "capacity b' = capacity b \<or>
     capacity b' = writerIndex b + length xs \<and>
     capacity b - writerIndex b + readerIndex b < length xs + kCheapPrepend"
proof -
  from run obtain b1 where b1: "ensureWritableBytes (length xs) b = Inr b1" and c: "capacity b' = capacity b1"
    by (auto simp: append_buf_def hasWritten_def res_simps dest: mem_write_length)
  from b1 have "b1 = b \<or> writableBytes b < length xs \<and> makeSpace (length xs) b = Inr b1"
    by (auto simp: ensureWritableBytes_def res_simps split: if_splits)
  with makeSpace_capacity [OF ok len] c show ?thesis by auto
qed

text \<open>A read grows the vector only when the writable bytes are used up and fewer than \<open>kExtraBuf\<close>.\<close>

lemma readFd_capacity:
  assumes ok: "buffer_ok b" and room: "capacity b + kExtraBuf \<le> kMaxSize"
    and rv: "readv (readFd_iov b) = ReadvData bs" and len: "length bs \<le> sum_list (readFd_iov b)"
    and run: "readFd readv b = Inr (n, e, b')"
  shows "capacity b' \<le> max (capacity b) (2 * kExtraBuf + kCheapPrepend + length (readable b) + kExtraBuf)"
    and "capacity b' \<le> capacity b + kExtraBuf"
proof -
  let ?w = "writableBytes b"
  let ?d = "take (writerIndex b) (buf_data b) @ take ?w bs"
  let ?b1 = "b\<lparr>buf_data := ?d, writerIndex := capacity b\<rparr>"
  have w: "?w = capacity b - writerIndex b" and wl: "writerIndex b \<le> capacity b" and rl: "readerIndex b \<le> writerIndex b"
    using ok by (simp_all add: sz_simps buffer_okD)
  have "capacity b' \<le> max (capacity b) (2 * kExtraBuf + kCheapPrepend + length (readable b) + kExtraBuf) \<and>
      capacity b' \<le> capacity b + kExtraBuf"
  proof (cases "length bs \<le> ?w")
    case True
    with run rv have "capacity b' = capacity b"
      by (auto simp: readFd_def Let_def res_simps dest: mem_write_length)
    then show ?thesis by simp
  next
    case False
    let ?xs = "drop ?w bs"
    have small: "length ?xs \<le> kExtraBuf" and few: "?w < kExtraBuf"
      using len False by (auto simp: readFd_iov_def split: if_splits)
    have "length (take ?w bs) = ?w" using False by simp
    then have ok1: "buffer_ok ?b1" and c1: "capacity ?b1 = capacity b"
      using fill_correct [OF ok, of "take ?w bs"] w wl by simp_all
    have n: "sz_sub (length bs) ?w = length bs - ?w"
      using False small room w by (intro sz_sub_exact) auto
    have ap: "append_buf ?xs ?b1 = Inr b'"
      using run rv False w wl n by (simp add: readFd_def Let_def mem_write_def beginWrite_def res_simps)
    have "length ?xs \<le> kMaxSize" using small room by simp
    from append_capacity [OF ok1 this ap] c1 have "capacity b' = capacity b \<or>
        capacity b' = capacity b + length ?xs \<and> readerIndex b < length ?xs + kCheapPrepend" by simp
    then show ?thesis
      using small few w wl rl length_readable [OF ok] by auto
  qed
  then show "capacity b' \<le> max (capacity b) (2 * kExtraBuf + kCheapPrepend + length (readable b) + kExtraBuf)"
    and "capacity b' \<le> capacity b + kExtraBuf" by simp_all
qed

subsection \<open>The codec leaves a bounded rest\<close>

lemma codec_onMessage_data:
  "codec_onMessage cb shutdown s b = Some r \<Longrightarrow> r = Inr (s', b') \<Longrightarrow> buf_data b' = buf_data b"
proof (induction arbitrary: s' b' rule: codec_onMessage.raw_induct [rotated, consumes 1, case_names loop])
  case (loop rec cb shutdown s b r)
  then show ?case
    by (auto simp: Let_def split: if_splits sum.splits dest!: retrieve_data retrieveAsString_data)
qed

lemma no_frame_short: "\<not> has_frame q \<Longrightarrow> \<not> bad_frame q \<Longrightarrow> length q < kBacklog"
  by (auto simp: has_frame_def bad_frame_def kBacklog_def)

lemma bad_stays:
  assumes "bad_frame q" and "frames (q @ x) = (ms, bad, r)"
  shows "bad" and "r = q @ x" and "ms = []"
proof -
  have "\<not> has_frame q" using assms(1) by (auto simp: bad_frame_def has_frame_def)
  then have "frames q = ([], True, q)" using assms(1) by (simp add: frames_stop)
  from frames_bad_append [OF this, of x] assms(2) show "bad" "r = q @ x" "ms = []" by simp_all
qed

text \<open>One read and the receive loop.\<close>

definition within_memory :: "buffer \<Rightarrow> bool" where
  "within_memory b \<longleftrightarrow> bad_frame (readable b) \<or>
     length (readable b) < kBacklog \<and> capacity b \<le> kCodecMemory"

lemma read_step:
  assumes ok: "buffer_ok b" and room: "capacity b + kExtraBuf \<le> kMaxSize" and rv: "readv_bounded readv"
    and mem: "within_memory b" and got: "readv (readFd_iov b) = ReadvData bs"
  obtains b1 s2 b2 where "readFd readv b = Inr (int (length bs), None, b1)" and "buffer_ok b1"
    and "capacity b1 \<le> capacity b + kExtraBuf" and "bs = [] \<Longrightarrow> within_memory b1"
    and "codec_onMessage cb shutdown s b1 = Some (Inr (s2, b2))" and "buffer_ok b2"
    and "capacity b2 = capacity b1" and "within_memory b2"
proof -
  have len: "length bs \<le> sum_list (readFd_iov b)" using rv got by (simp add: readv_bounded_def)
  from readFd_data [where readv = readv and bs = bs, OF ok room got len] obtain b1 where b1: "readFd readv b = Inr (int (length bs), None, b1)"
    "buffer_ok b1" "readable b1 = readable b @ bs" .
  note cap = readFd_capacity [where readv = readv and bs = bs, OF ok room got len b1(1)]
  obtain ms bad r where fr: "frames (readable b1) = (ms, bad, r)" by (cases "frames (readable b1)") auto
  have "has_room 0 b1" using buffer_okD [OF b1(2)] by (simp add: has_room_def)
  note refines = codec_onMessage_refines [OF b1(2) this fr]
  obtain s2 b2 where
    b2: "codec_onMessage cb shutdown s b1 = Some (Inr (s2, b2))" "buffer_ok b2" "readable b2 = r"
    using refines [of cb shutdown s] by blast
  have c2: "capacity b2 = capacity b1" using codec_onMessage_data [OF b2(1) refl] by simp
  have small: "capacity b1 \<le> kCodecMemory" if "\<not> bad_frame (readable b)"
    using that mem cap(1) by (auto simp: within_memory_def kCodecMemory_def)
  have "within_memory b2"
  proof (cases bad)
    case True
    with frames_rest [OF fr] b2(3) show ?thesis by (simp add: within_memory_def)
  next
    case False
    then have "\<not> bad_frame (readable b)" using bad_stays(1) fr b1(3) by metis
    moreover have "length r < kBacklog" using no_frame_short frames_rest [OF fr] False by simp
    ultimately show ?thesis using small c2 b2(3) by (simp add: within_memory_def)
  qed
  moreover have "within_memory b1" if "bs = []"
    using that mem small b1(3) by (auto simp: within_memory_def)
  ultimately show ?thesis using b1 b2 c2 cap(2) by (intro that) simp_all
qed

lemma codec_reads_memory:
  assumes "buffer_ok b" and "within_memory b" and "capacity b + (length rvs + 1) * kExtraBuf \<le> kMaxSize"
    and "\<forall>rv \<in> set rvs. readv_bounded rv"
  shows "\<exists>s' b'. codec_reads cb shutdown rvs s b = Some (Inr (s', b')) \<and> buffer_ok b' \<and> within_memory b'"
  using assms
proof (induction rvs arbitrary: s b)
  case (Cons rv rvs)
  have room: "capacity b + kExtraBuf \<le> kMaxSize" using Cons.prems(3) by simp
  show ?case
  proof (cases "rv (readFd_iov b)")
    case (ReadvErr err)
    then have "readFd rv b = Inr (-1, Some err, b)" by (simp add: readFd_def Let_def)
    with Cons show ?thesis by simp
  next
    case (ReadvData bs)
    have "readv_bounded rv" using Cons.prems(4) by simp
    note one = read_step [where cb = cb and shutdown = shutdown and s = s, OF Cons.prems(1) room this Cons.prems(2)
        ReadvData]
    obtain b1 s2 b2 where
      step: "readFd rv b = Inr (int (length bs), None, b1)" "buffer_ok b1"
      "capacity b1 \<le> capacity b + kExtraBuf" "bs = [] \<Longrightarrow> within_memory b1"
      "codec_onMessage cb shutdown s b1 = Some (Inr (s2, b2))" "buffer_ok b2"
      "capacity b2 = capacity b1" "within_memory b2" by (rule one) (rule that, blast+)
    have "capacity b2 + (length rvs + 1) * kExtraBuf \<le> kMaxSize"
      using Cons.prems(3) step(3,7) by simp
    note IH = Cons.IH [OF step(6,8) this]
    show ?thesis
    proof (cases "bs = []")
      case True
      then have "codec_reads cb shutdown (rv # rvs) s b = Some (Inr (s, b1))" using step(1) by simp
      with step(2,4) True show ?thesis by blast
    next
      case False
      then have "codec_reads cb shutdown (rv # rvs) s b = codec_reads cb shutdown rvs s2 b2"
        using step(1,5) by simp
      with IH Cons.prems(4) show ?thesis by simp
    qed
  qed
qed simp

subsection \<open>Properties\<close>

text \<open>C18. The memory of a chat connection is bounded.  Whatever bytes arrive, however many reads they take and
  however the kernel splits them: reading and decoding never fail, and as long as the peer has sent no
  length the codec refuses, fewer than \<open>4 + 65536\<close> bytes stay in the input buffer after each round
  and its vector has at most \<open>kCodecMemory\<close> (262156) bytes.  After a refused length nothing is taken out of the
  buffer any more, so there is no such bound then.\<close>

theorem codec_memory:
  assumes "\<forall>rv \<in> set rvs. readv_bounded rv"
    and "kCheapPrepend + kInitialSize + (length rvs + 1) * kExtraBuf \<le> kMaxSize"
  shows "\<exists>s' b'. codec_reads cb shutdown rvs s (new_buffer n) = Some (Inr (s', b')) \<and> buffer_ok b' \<and>
     (bad_frame (readable b') \<or> length (readable b') < kBacklog \<and> capacity b' \<le> kCodecMemory)"
proof -
  have "within_memory (new_buffer n)"
    by (simp add: within_memory_def new_buffer_empty) (simp add: new_buffer_def kBacklog_def kCodecMemory_def
        kExtraBuf_def kInitialSize_def)
  moreover have "capacity (new_buffer n) + (length rvs + 1) * kExtraBuf \<le> kMaxSize"
    using assms(2) by (simp add: new_buffer_def)
  ultimately show ?thesis
    using codec_reads_memory [OF new_buffer_ok _ _ assms(1)] by (simp add: within_memory_def)
qed

text \<open>Half a frame, an interrupted call, and the rest of it.\<close>

theorem codec_memory_witness:
  "\<exists>s' b'. codec_reads (\<lambda>s m. s @ [m]) id [\<lambda>lens. ReadvData (take (sum_list lens) [CHR 0x00, CHR 0x00]),
        \<lambda>lens. ReadvErr 4, \<lambda>lens. ReadvData (take (sum_list lens) (CHR 0x00 # CHR 0x01 # ''a''))] [] (new_buffer 0)
      = Some (Inr (s', b')) \<and> buffer_ok b' \<and>
     (bad_frame (readable b') \<or> length (readable b') < kBacklog \<and> capacity b' \<le> kCodecMemory)"
  by (rule codec_memory) (auto simp: readv_bounded_def kCheapPrepend_def kInitialSize_def kExtraBuf_def kMaxSize_def)

end
