(* ===== verification/EchoTests.thy ===== *)
theory EchoTests
  imports CodecMemory CrossThread Format
begin

text \<open>
  The message callbacks of the servers in \<open>testcase/testTcpConnection.cpp\<close>, on the connection of
  \<open>TcpConnection\<close>: one prints what it receives, one sends it back and shuts down, and one sends it
  back with a tag, for a server with a pool of loops.
\<close>

subsection \<open>The servers\<close>

text \<open>\<open>buffer->retrieveAllAsString()\<close> on the input buffer of the connection.\<close>

definition take_input :: "('e, 'o, 'u) world \<Rightarrow> (string \<times> ('e, 'o, 'u) world) res" where
  "take_input w =
     with_conn w (\<lambda>c. rbind (retrieveAllAsString (tc_inBuffer c)) (\<lambda>(s, b).
       Inr (s, upd_conn (\<lambda>c. c\<lparr>tc_inBuffer := b\<rparr>) w)))"

text \<open>The state of the application is the text on the terminal.\<close>

definition print_message :: "('e, 'o, string) world \<Rightarrow> ('e, 'o, string) world res" where
  "print_message w = rbind (take_input w) (\<lambda>(s, w1). Inr (w1\<lparr>w_user := w_user w1 @ s @ [CHR 0x0A]\<rparr>))"

definition echo_message ::
  "('e, 'o) os \<Rightarrow> ('e, 'o, 'u) world conn_callbacks \<Rightarrow> nat \<Rightarrow> ('e, 'o, 'u) world \<Rightarrow> ('e, 'o, 'u) world res" where
  "echo_message os cbs tid w =
     rbind (take_input w) (\<lambda>(s, w1).
     rbind (conn_send os cbs tid s w1) (conn_shutdown os cbs tid))"

text \<open>The text \<open>sprintf\<close> puts into \<open>buf\<close>, for the printed address of the loop.\<close>

definition pool_tag :: "string \<Rightarrow> nat \<Rightarrow> string" where
  "pool_tag loop pid = loop @ ''--pid['' @ dec_nat pid @ '']''"

definition pool_message ::
  "('e, 'o) os \<Rightarrow> ('e, 'o, 'u) world conn_callbacks \<Rightarrow> nat \<Rightarrow> string \<Rightarrow> ('e, 'o, 'u) world \<Rightarrow> ('e, 'o, 'u) world res" where
  "pool_message os cbs tid loop w =
     (let buf = pool_tag loop tid in
      rbind (take_input w) (\<lambda>(s, w1).
      rbind (conn_send os cbs tid s w1) (conn_send os cbs tid buf)))"

text \<open>
  A server sets only the message callback.  The sends and the shutdown inside it look at no callback but
  the one for completed writes, which is not set.
\<close>

definition no_callback :: "('e, 'o, 'u) world conn_callbacks" where
  "no_callback = \<lparr> connectionCallback = None, messageCallback = None, closeCallback = None,
     writeCompleteCallback = None \<rparr>"

definition on_message :: "(('e, 'o, 'u) world \<Rightarrow> ('e, 'o, 'u) world res) \<Rightarrow> ('e, 'o, 'u) world conn_callbacks" where
  "on_message f = no_callback\<lparr>messageCallback := Some f\<rparr>"

text \<open>Readable events, with what \<open>readv\<close> delivers or its error, and writable events.\<close>

datatype echo_event = Incoming string | Interrupted int | Outgoing

definition reading :: "readv_result \<Rightarrow> ('e, 'o) os \<Rightarrow> ('e, 'o) os" where
  "reading r os = os\<lparr>os_readv := (\<lambda>fd lens k. (r, k))\<rparr>"

fun echo_step ::
  "('e, 'o) os \<Rightarrow> ('e, 'o, 'u) world conn_callbacks \<Rightarrow> nat \<Rightarrow> echo_event \<Rightarrow>
   ('e, 'o, 'u) world \<Rightarrow> ('e, 'o, 'u) world res" where
  "echo_step os cbs tid (Incoming bs) w = conn_handleRead (reading (ReadvData bs) os) cbs tid w"
| "echo_step os cbs tid (Interrupted err) w = conn_handleRead (reading (ReadvErr err) os) cbs tid w"
| "echo_step os cbs tid Outgoing w = conn_handleWrite os cbs tid w"

fun received :: "echo_event list \<Rightarrow> string list" where
  "received [] = []"
| "received (Incoming bs # evs) = bs # received evs"
| "received (ev # evs) = received evs"

subsection \<open>The input buffer\<close>

abbreviation input_of :: "('e, 'o, 'u) world \<Rightarrow> buffer option" where
  "input_of w \<equiv> map_option tc_inBuffer (w_conn w)"

lemma conn_channel_input: "conn_channel os tid op w = Inr w' \<Longrightarrow> input_of w' = input_of w"
  by (cases "w_conn w") (auto simp: conn_channel_def with_conn_def res_simps)

lemma shutdownInLoop_input: "shutdownInLoop os tid w = Inr w' \<Longrightarrow> input_of w' = input_of w"
  by (cases "w_conn w") (auto simp: shutdownInLoop_def with_conn_def res_simps split: if_splits)

lemma output_done_input:
  assumes "output_done os tid w = Inr w'"
  shows "input_of w' = input_of w"
proof -
  from assms obtain w1 where w1: "conn_channel os tid DisableWrite w = Inr w1"
    and rest: "with_conn w1 (\<lambda>c. if tc_state c = kDisconnecting then shutdownInLoop os tid w1 else Inr w1) = Inr w'"
    by (auto simp: output_done_def res_simps)
  from rest have "w' = w1 \<or> shutdownInLoop os tid w1 = Inr w'"
    by (cases "w_conn w1") (auto simp: with_conn_def split: if_splits)
  with conn_channel_input [OF w1] show ?thesis using shutdownInLoop_input by metis
qed

lemma direct_write_input:
  assumes "writeCompleteCallback cbs = None" and "direct_write os cbs data w = Inr (n, w')"
  shows "w_conn w' = w_conn w"
  using assms by (cases "w_conn w") (auto simp: direct_write_def with_conn_def Let_def split: if_splits prod.splits sum.splits)

lemma sendInLoop_input:
  assumes "writeCompleteCallback cbs = None" and "sendInLoop os cbs tid data w = Inr w'"
  shows "input_of w' = input_of w"
proof (cases "w_conn w")
  case None
  with assms(2) show ?thesis by (auto simp: sendInLoop_def with_conn_def res_simps)
next
  case (Some c)
  show ?thesis
  proof (cases "tc_state c = kDisconnected")
    case True
    with assms(2) Some show ?thesis by (auto simp: sendInLoop_def res_simps)
  next
    case False
    with assms(2) Some obtain n w1 where dw: "direct_write os cbs data w = Inr (n, w1)"
      by (auto simp: sendInLoop_def rbind_eq_Inr)
    have c1: "w_conn w1 = Some c" using direct_write_input [OF assms(1) dw] Some by simp
    from assms(2) False Some dw c1 have "w' = w1 \<or> (\<exists>b. let w2 = upd_conn (\<lambda>c. c\<lparr>tc_outBuffer := b\<rparr>) w1 in
        w' = w2 \<or> conn_channel os tid EnableWrite w2 = Inr w')"
      by (auto simp: sendInLoop_def res_simps Let_def split: if_splits)
    then show ?thesis
      using c1 Some by (auto simp: upd_conn_def Let_def dest: conn_channel_input)
  qed
qed

lemma conn_send_input:
  assumes "writeCompleteCallback cbs = None" and "isInLoopThread tid w" and "conn_send os cbs tid data w = Inr w'"
  shows "input_of w' = input_of w"
proof -
  have "w' = w \<or> sendInLoop os cbs tid data w = Inr w'"
    using assms(2,3) by (cases "w_conn w") (auto simp: conn_send_def with_conn_def split: if_splits)
  with sendInLoop_input [OF assms(1)] show ?thesis by metis
qed

lemma conn_shutdown_input:
  assumes "stream_state tid k acc w c" and "conn_shutdown os cbs tid w = Inr w'"
  shows "input_of w' = input_of w \<and> w_refs w' = w_refs w"
proof -
  note s = stream_stateD [OF assms(1)]
  show ?thesis
    using assms(2) s(1,3,4)
    by (cases w) (auto simp: conn_shutdown_def upd_conn_def run_task_def holding_def runInLoop_def exec_task_def
        shutdownInLoop_def release_def isInLoopThread_def Let_def res_simps split: if_splits)
qed

lemma handleWrite_input:
  assumes st: "stream_state tid k acc w c" and wc: "writeCompleteCallback cbs = None"
    and run: "conn_handleWrite os cbs tid w = Inr w'"
  shows "input_of w' = input_of w"
proof (cases "isWriting (tc_channel c) \<and> readableBytes (tc_outBuffer c) \<noteq> 0")
  case False
  note s = stream_stateD [OF st]
  with False run streamingD(2) [OF s(2)] have "w' = w" by (auto simp: conn_handleWrite_def split: if_splits)
  then show ?thesis by simp
next
  case True
  note s = stream_stateD [OF st]
  obtain data r o' where d: "mem_read (peek (tc_outBuffer c)) (readableBytes (tc_outBuffer c))
      (buf_data (tc_outBuffer c)) = Inr data" "os_write os (ch_fd (tc_channel c)) data (w_os w) = (r, o')"
    using run s(1,3) True by (fastforce simp: conn_handleWrite_def res_simps)
  show ?thesis
  proof (cases r)
    case (Inl err)
    with run s(1,3) True d show ?thesis by (auto simp: conn_handleWrite_def)
  next
    case (Inr n)
    with run s(1,3) True d obtain b where b: "retrieve n (tc_outBuffer c) = Inr b"
      by (auto simp: conn_handleWrite_def res_simps)
    let ?w = "w\<lparr>w_os := o', w_wire := w_wire w @ take n data, w_conn := Some (c\<lparr>tc_outBuffer := b\<rparr>)\<rparr>"
    from Inr run s(1,3) True d b have "w' = ?w \<or> (\<exists>w2. output_done os tid ?w = Inr w2 \<and>
        notify os (writeCompleteCallback cbs) w2 = Inr w')"
      by (auto simp: conn_handleWrite_def res_simps Let_def split: if_splits)
    moreover have "w' = w2" if "notify os (writeCompleteCallback cbs) w2 = Inr w'" for w2
      using that wc by (auto simp: notify_def with_conn_def split: option.splits)
    ultimately have "input_of w' = input_of ?w" using output_done_input by metis
    then show ?thesis using s(1) by simp
  qed
qed

subsection \<open>One message\<close>

text \<open>The largest vector of an input buffer that is emptied by every message.\<close>

definition kInputMemory :: nat where
  "kInputMemory = 2 * kExtraBuf + kCheapPrepend + kExtraBuf"

definition idle :: "tcp_conn \<Rightarrow> bool" where
  "idle c \<longleftrightarrow> buffer_ok (tc_inBuffer c) \<and> readable (tc_inBuffer c) = [] \<and> capacity (tc_inBuffer c) \<le> kInputMemory"

text \<open>The connection between two events: its stream, and an empty input buffer.\<close>

definition echo_state ::
  "nat \<Rightarrow> nat \<Rightarrow> char list \<Rightarrow> ('e, 'o, 'u) world \<Rightarrow> tcp_conn \<Rightarrow> bool" where
  "echo_state tid k acc w c \<longleftrightarrow> stream_state tid k acc w c \<and> idle c"

lemma idle_input: "idle c \<Longrightarrow> tc_inBuffer c' = tc_inBuffer c \<Longrightarrow> idle c'"
  by (simp add: idle_def)

lemma stream_state_input:
  "stream_state tid k acc w c \<Longrightarrow>
   stream_state tid k acc (w\<lparr>w_conn := Some (c\<lparr>tc_inBuffer := b\<rparr>), w_os := o'\<rparr>) (c\<lparr>tc_inBuffer := b\<rparr>)"
  by (simp add: stream_state_def streaming_def)

lemma reading_fields [simp]:
  "os_write (reading r os) = os_write os" "write_bounded (reading r os) = write_bounded os"
  by (simp_all add: reading_def write_bounded_def)

lemma on_message_fields [simp]:
  "writeCompleteCallback (on_message f) = None" "benign (writeCompleteCallback (on_message f))"
  "writeCompleteCallback no_callback = None" "benign (writeCompleteCallback no_callback)"
  by (simp_all add: on_message_def no_callback_def benign_def)

text \<open>What \<open>handleRead\<close> gives the callback: the bytes, all of them, in an otherwise empty buffer.\<close>

lemma read_message:
  assumes st: "echo_state tid k acc w c" and bs: "bs \<noteq> []" "length bs \<le> kExtraBuf"
  obtains s b b' where "readable b = bs" and "retrieveAllAsString b = Inr (bs, b')"
    and "idle (c\<lparr>tc_inBuffer := b'\<rparr>)"
    and "conn_handleRead (reading (ReadvData bs) os) (on_message f) tid w
       = holding (reading (ReadvData bs) os) f (w\<lparr>w_conn := Some (c\<lparr>tc_inBuffer := b\<rparr>)\<rparr>)"
proof -
  note s = stream_stateD [of tid k acc w c]
  let ?in = "tc_inBuffer c"
  have ok: "buffer_ok ?in" and empty: "readable ?in = []" and cap: "capacity ?in \<le> kInputMemory"
    and conn: "w_conn w = Some c"
    using st by (simp_all add: echo_state_def idle_def s(1))
  have room: "capacity ?in + kExtraBuf \<le> kMaxSize"
    using cap by (simp add: kInputMemory_def kExtraBuf_def kCheapPrepend_def kMaxSize_def)
  have len: "length bs \<le> sum_list (readFd_iov ?in)" using bs(2) by (simp add: readFd_iov_def)
  from readFd_data [where readv = "\<lambda>_. ReadvData bs" and bs = bs, OF ok room refl len] obtain b where
    b: "readFd (\<lambda>_. ReadvData bs) ?in = Inr (int (length bs), None, b)" "buffer_ok b" "readable b = bs"
    using empty by auto
  have "capacity b \<le> kInputMemory"
    using readFd_capacity(1) [where readv = "\<lambda>_. ReadvData bs" and bs = bs, OF ok room refl len b(1)] cap empty
    by (simp add: kInputMemory_def)
  moreover have "readableBytes b = length bs" using readableBytes_length [OF b(2)] b(3) by simp
  then obtain b' where b': "retrieveAllAsString b = Inr (bs, b')" "buffer_ok b'" "readable b' = []"
    using retrieveAsString_correct [OF b(2), of "length bs"] b(3) by (auto simp: retrieveAllAsString_def)
  moreover have "capacity b' = capacity b"
    using b'(1) retrieveAsString_data [of _ b bs b'] by (simp add: retrieveAllAsString_def)
  ultimately have "idle (c\<lparr>tc_inBuffer := b'\<rparr>)" by (simp add: idle_def)
  moreover have "conn_handleRead (reading (ReadvData bs) os) (on_message f) tid w
       = holding (reading (ReadvData bs) os) f (w\<lparr>w_conn := Some (c\<lparr>tc_inBuffer := b\<rparr>)\<rparr>)"
    using conn b(1) bs(1) by (simp add: conn_handleRead_def reading_def notify_def on_message_def no_callback_def)
  ultimately show ?thesis using b(3) b'(1) by (intro that)
qed

text \<open>Holding a \<open>shared_ptr\<close> around a callback that keeps the number of owners and the connection.\<close>

lemma holding_back:
  assumes "f (w\<lparr>w_refs := w_refs w + 1\<rparr>) = Inr w'" and "w_refs w' = w_refs w + 1" and "0 < w_refs w"
  shows "holding os f w = Inr (w'\<lparr>w_refs := w_refs w\<rparr>)"
  using assms by (simp add: holding_def release_def Let_def)

text \<open>A send in the callback.\<close>

lemma send_keeps:
  assumes st: "echo_state tid (length m + k) acc w c" and wb: "write_bounded os"
  obtains w' c' where "conn_send os no_callback tid m w = Inr w'" and "tc_state c' = tc_state c"
    and "echo_state tid k (if tc_state c = kConnected then acc @ m else acc) w' c'" and "w_refs w' = w_refs w"
proof -
  have stream: "stream_state tid (length m + k) acc w c" and idle: "idle c" using st by (simp_all add: echo_state_def)
  note s = stream_stateD [OF stream]
  from conn_send_stream [OF stream wb on_message_fields(4)] obtain w' c' where
    w': "conn_send os no_callback tid m w = Inr w'" "tc_state c' = tc_state c"
    "stream_state tid k (if tc_state c = kConnected then acc @ m else acc) w' c'" .
  have "input_of w' = input_of w" by (rule conn_send_input [OF on_message_fields(3) s(3) w'(1)])
  then have "tc_inBuffer c' = tc_inBuffer c" using s(1) stream_stateD(1) [OF w'(3)] by simp
  moreover have "w_refs w' = w_refs w"
  proof (cases "tc_state c = kConnected")
    case True
    then have "sendInLoop os no_callback tid m w = Inr w'" using w'(1) s(1,3) by (simp add: conn_send_def)
    from sendInLoop_queue [OF stream wb on_message_fields(4) this] show ?thesis by (simp add: same_queue_def)
  next
    case False
    then show ?thesis using w'(1) s(1) by (simp add: conn_send_def)
  qed
  ultimately show ?thesis using w' idle_input [OF idle] by (intro that [of w' c']) (simp_all add: echo_state_def)
qed

lemma shutdown_echo:
  assumes st: "echo_state tid k acc w c"
  obtains w' c' where "conn_shutdown os no_callback tid w = Inr w'" and "tc_state c' = kDisconnecting"
    and "echo_state tid k acc w' c'" and "w_refs w' = w_refs w"
proof -
  have stream: "stream_state tid k acc w c" and idle: "idle c" using st by (simp_all add: echo_state_def)
  from conn_shutdown_stream [OF stream] obtain w' c' where
    w': "conn_shutdown os no_callback tid w = Inr w'" "tc_state c' = kDisconnecting" "stream_state tid k acc w' c'" .
  from conn_shutdown_input [OF stream w'(1)] have "tc_inBuffer c' = tc_inBuffer c" "w_refs w' = w_refs w"
    using stream_stateD(1) [OF stream] stream_stateD(1) [OF w'(3)] by simp_all
  then show ?thesis using w' idle_input [OF idle] by (intro that [of w' c']) (simp_all add: echo_state_def)
qed

text \<open>A callback that takes the whole input and goes on with it from an empty buffer.\<close>

lemma message_state:
  assumes st: "echo_state tid k acc w c" and bs: "bs \<noteq> []" "length bs \<le> kExtraBuf"
    and f: "\<And>w1. f w1 = rbind (take_input w1) (\<lambda>(s, w2). g s w2)"
    and g: "\<And>w2 c2. echo_state tid k acc w2 c2 \<Longrightarrow> tc_state c2 = tc_state c \<Longrightarrow>
       \<exists>w3 c3. g bs w2 = Inr w3 \<and> echo_state tid k' acc' w3 c3 \<and> P c3 \<and> w_refs w3 = w_refs w2"
  shows "\<exists>w' c'. conn_handleRead (reading (ReadvData bs) os) (on_message f) tid w = Inr w' \<and>
     echo_state tid k' acc' w' c' \<and> P c'"
proof -
  have stream: "stream_state tid k acc w c" using st by (simp add: echo_state_def)
  note s = stream_stateD [OF stream]
  obtain b b' where b: "retrieveAllAsString b = Inr (bs, b')" "idle (c\<lparr>tc_inBuffer := b'\<rparr>)"
    and run: "conn_handleRead (reading (ReadvData bs) os) (on_message f) tid w
       = holding (reading (ReadvData bs) os) f (w\<lparr>w_conn := Some (c\<lparr>tc_inBuffer := b\<rparr>)\<rparr>)"
    by (rule read_message [where f = f and os = os, OF st bs]) blast
  let ?w0 = "w\<lparr>w_conn := Some (c\<lparr>tc_inBuffer := b\<rparr>)\<rparr>"
  let ?c2 = "c\<lparr>tc_inBuffer := b'\<rparr>"
  let ?w2 = "w\<lparr>w_conn := Some ?c2, w_refs := w_refs w + 1\<rparr>"
  have take: "take_input (?w0\<lparr>w_refs := w_refs ?w0 + 1\<rparr>) = Inr (bs, ?w2)"
    using b(1) by (simp add: take_input_def upd_conn_def)
  have "echo_state tid k acc ?w2 ?c2"
    using stream b(2) by (simp add: echo_state_def stream_state_def streaming_def isInLoopThread_def)
  from g [OF this] obtain w3 c3 where w3: "g bs ?w2 = Inr w3" "echo_state tid k' acc' w3 c3" "P c3"
    "w_refs w3 = w_refs w + 1" by auto
  have "holding (reading (ReadvData bs) os) f ?w0 = Inr (w3\<lparr>w_refs := w_refs ?w0\<rparr>)"
    by (rule holding_back) (use take w3 s(4) in \<open>simp_all add: f\<close>)
  moreover have "echo_state tid k' acc' (w3\<lparr>w_refs := w_refs w\<rparr>) c3"
    using w3(2,4) s(4) by (simp add: echo_state_def)
  ultimately show ?thesis using run w3(3) by auto
qed

text \<open>The server that only prints: a message is on the terminal, on a line of its own.\<close>

lemma print_message_line:
  assumes "w_conn w = Some c" and "buffer_ok (tc_inBuffer c)"
  shows "\<exists>b. print_message w = Inr (w\<lparr>w_conn := Some (c\<lparr>tc_inBuffer := b\<rparr>),
           w_user := w_user w @ readable (tc_inBuffer c) @ [CHR 0x0A]\<rparr>) \<and> buffer_ok b \<and> readable b = []"
proof -
  from retrieveAsString_correct [OF assms(2), of "length (readable (tc_inBuffer c))"] obtain b where
    "retrieveAllAsString (tc_inBuffer c) = Inr (readable (tc_inBuffer c), b)" "buffer_ok b" "readable b = []"
    using readableBytes_length [OF assms(2)] by (auto simp: retrieveAllAsString_def)
  then show ?thesis using assms(1) by (auto simp: print_message_def take_input_def upd_conn_def)
qed

subsection \<open>Runs\<close>

lemma quiet_step:
  assumes st: "echo_state tid k acc w c" and wb: "write_bounded os"
  shows "conn_handleRead (reading (ReadvErr err) os) (on_message f) tid w = Inr w"
    and "\<exists>w' c'. conn_handleWrite os (on_message f) tid w = Inr w' \<and> echo_state tid k acc w' c' \<and> tc_state c' = tc_state c"
proof -
  have stream: "stream_state tid k acc w c" and idle: "idle c" using st by (simp_all add: echo_state_def)
  note s = stream_stateD [OF stream]
  show "conn_handleRead (reading (ReadvErr err) os) (on_message f) tid w = Inr w"
    using s(1) by (cases w) (simp add: conn_handleRead_def reading_def readFd_def Let_def)
  from handleWrite_stream [OF stream wb on_message_fields(2)] obtain w' c' where
    w': "conn_handleWrite os (on_message f) tid w = Inr w'" "tc_state c' = tc_state c" "stream_state tid k acc w' c'" .
  from handleWrite_input [OF stream on_message_fields(1) w'(1)] have "tc_inBuffer c' = tc_inBuffer c"
    using s(1) stream_stateD(1) [OF w'(3)] by simp
  then show "\<exists>w' c'. conn_handleWrite os (on_message f) tid w = Inr w' \<and> echo_state tid k acc w' c' \<and> tc_state c' = tc_state c"
    using w' idle_input [OF idle] by (auto simp: echo_state_def)
qed

lemma echo_message_state:
  fixes w :: "('e, 'o, 'u) world"
  assumes st: "echo_state tid (length bs + k) acc w c" and wb: "write_bounded os" and bs: "bs \<noteq> []" "length bs \<le> kExtraBuf"
  shows "\<exists>w' c'. conn_handleRead (reading (ReadvData bs) os) (on_message (echo_message os no_callback tid)) tid w = Inr w' \<and>
     echo_state tid k (if tc_state c = kConnected then acc @ bs else acc) w' c' \<and> tc_state c' = kDisconnecting"
proof (rule message_state [where g = "\<lambda>s w. rbind (conn_send os no_callback tid s w) (conn_shutdown os no_callback tid)",
      OF st bs])
  show "echo_message os no_callback tid w1 = rbind (take_input w1)
      (\<lambda>(s, w2). rbind (conn_send os no_callback tid s w2) (conn_shutdown os no_callback tid))" for w1
    by (simp add: echo_message_def)
next
  fix w2 :: "('e, 'o, 'u) world" and c2
  assume "echo_state tid (length bs + k) acc w2 c2" and c2: "tc_state c2 = tc_state c"
  from send_keeps [OF this(1) wb] obtain w3 c3 where w3: "conn_send os no_callback tid bs w2 = Inr w3"
    "echo_state tid k (if tc_state c2 = kConnected then acc @ bs else acc) w3 c3" "w_refs w3 = w_refs w2" by blast
  from shutdown_echo [OF w3(2)] obtain w4 c4 where "conn_shutdown os no_callback tid w3 = Inr w4"
    "tc_state c4 = kDisconnecting" "echo_state tid k (if tc_state c2 = kConnected then acc @ bs else acc) w4 c4"
    "w_refs w4 = w_refs w3" by blast
  with w3 c2 show "\<exists>w3 c3. rbind (conn_send os no_callback tid bs w2) (conn_shutdown os no_callback tid) = Inr w3 \<and>
      echo_state tid k (if tc_state c = kConnected then acc @ bs else acc) w3 c3 \<and> tc_state c3 = kDisconnecting \<and>
      w_refs w3 = w_refs w2" by auto
qed

lemma pool_message_state:
  fixes w :: "('e, 'o, 'u) world"
  assumes st: "echo_state tid (length (bs @ pool_tag loop tid) + k) acc w c" and wb: "write_bounded os"
    and bs: "bs \<noteq> []" "length bs \<le> kExtraBuf" and up: "tc_state c = kConnected"
  shows "\<exists>w' c'. conn_handleRead (reading (ReadvData bs) os) (on_message (pool_message os no_callback tid loop)) tid w
       = Inr w' \<and> echo_state tid k (acc @ bs @ pool_tag loop tid) w' c' \<and> tc_state c' = kConnected"
proof (rule message_state [where g = "\<lambda>s w. rbind (conn_send os no_callback tid s w)
      (conn_send os no_callback tid (pool_tag loop tid))", OF st bs])
  show "pool_message os no_callback tid loop w1 = rbind (take_input w1)
      (\<lambda>(s, w2). rbind (conn_send os no_callback tid s w2) (conn_send os no_callback tid (pool_tag loop tid)))" for w1
    by (simp add: pool_message_def)
next
  fix w2 :: "('e, 'o, 'u) world" and c2
  assume "echo_state tid (length (bs @ pool_tag loop tid) + k) acc w2 c2" and c2: "tc_state c2 = tc_state c"
  then have "echo_state tid (length bs + (length (pool_tag loop tid) + k)) acc w2 c2" by (simp add: add.assoc)
  from send_keeps [OF this wb] obtain w3 c3 where w3: "conn_send os no_callback tid bs w2 = Inr w3"
    "echo_state tid (length (pool_tag loop tid) + k) (if tc_state c2 = kConnected then acc @ bs else acc) w3 c3"
    "w_refs w3 = w_refs w2" "tc_state c3 = tc_state c2" by blast
  with c2 up have st3: "echo_state tid (length (pool_tag loop tid) + k) (acc @ bs) w3 c3" by simp
  from send_keeps [OF st3 wb] obtain w4 c4 where w4: "conn_send os no_callback tid (pool_tag loop tid) w3 = Inr w4"
    "echo_state tid k (if tc_state c3 = kConnected then (acc @ bs) @ pool_tag loop tid else acc @ bs) w4 c4"
    "w_refs w4 = w_refs w3" "tc_state c4 = tc_state c3" by blast
  with w3 c2 up show "\<exists>w3 c3. rbind (conn_send os no_callback tid bs w2) (conn_send os no_callback tid (pool_tag loop tid)) = Inr w3 \<and>
      echo_state tid k (acc @ bs @ pool_tag loop tid) w3 c3 \<and> tc_state c3 = kConnected \<and> w_refs w3 = w_refs w2"
    by auto
qed

lemma echo_run:
  assumes wb: "write_bounded os"
  shows "echo_state tid (length (concat (received evs))) acc w c \<Longrightarrow>
     \<forall>m \<in> set (received evs). m \<noteq> [] \<and> length m \<le> kExtraBuf \<Longrightarrow>
     \<exists>w' c'. run_list (echo_step os (on_message (echo_message os no_callback tid)) tid) evs w = Inr w' \<and>
       echo_state tid 0 (if tc_state c = kConnected then acc @ concat (take 1 (received evs)) else acc) w' c' \<and>
       tc_state c' = (if received evs = [] then tc_state c else kDisconnecting)"
proof (induction evs arbitrary: acc w c)
  case Nil
  then show ?case by auto
next
  case (Cons ev evs)
  let ?cbs = "on_message (echo_message os no_callback tid)"
  show ?case
  proof (cases ev)
    case (Incoming bs)
    with Cons.prems have st: "echo_state tid (length bs + length (concat (received evs))) acc w c"
      and bs: "bs \<noteq> []" "length bs \<le> kExtraBuf" by simp_all
    from echo_message_state [OF st wb bs] obtain w1 c1 where w1: "echo_step os ?cbs tid ev w = Inr w1"
      "echo_state tid (length (concat (received evs))) (if tc_state c = kConnected then acc @ bs else acc) w1 c1"
      "tc_state c1 = kDisconnecting" using Incoming by auto
    from Cons.IH [OF w1(2)] Cons.prems(2) Incoming w1(3) obtain w' c' where
      "run_list (echo_step os ?cbs tid) evs w1 = Inr w'" "tc_state c' = kDisconnecting"
      "echo_state tid 0 (if tc_state c = kConnected then acc @ bs else acc) w' c'"
      by (cases "received evs = []") auto
    with w1(1) Incoming show ?thesis by auto
  next
    case (Interrupted err)
    then have "run_list (echo_step os ?cbs tid) (ev # evs) w = run_list (echo_step os ?cbs tid) evs w"
      and same: "received (ev # evs) = received evs"
      using quiet_step(1) [OF Cons.prems(1) wb] by simp_all
    with Cons.IH Cons.prems show ?thesis by (simp only: same)
  next
    case Outgoing
    with quiet_step(2) [OF Cons.prems(1) wb, of "echo_message os no_callback tid"] obtain w1 c1 where
      w1: "echo_step os ?cbs tid ev w = Inr w1" "echo_state tid (length (concat (received evs))) acc w1 c1"
      "tc_state c1 = tc_state c" by auto
    from Cons.IH [OF w1(2)] Cons.prems(2) Outgoing w1(1,3) show ?thesis by auto
  qed
qed

text \<open>All replies of the pool's server.\<close>

definition pool_replies :: "string \<Rightarrow> string list \<Rightarrow> string" where
  "pool_replies tag ms = concat (map (\<lambda>m. m @ tag) ms)"

lemma pool_run:
  assumes wb: "write_bounded os"
  shows "echo_state tid (length (pool_replies (pool_tag loop tid) (received evs))) acc w c \<Longrightarrow> tc_state c = kConnected \<Longrightarrow>
     \<forall>m \<in> set (received evs). m \<noteq> [] \<and> length m \<le> kExtraBuf \<Longrightarrow>
     \<exists>w' c'. run_list (echo_step os (on_message (pool_message os no_callback tid loop)) tid) evs w = Inr w' \<and>
       echo_state tid 0 (acc @ pool_replies (pool_tag loop tid) (received evs)) w' c' \<and> tc_state c' = kConnected"
proof (induction evs arbitrary: acc w c)
  case Nil
  then show ?case by (auto simp: pool_replies_def)
next
  case (Cons ev evs)
  let ?cbs = "on_message (pool_message os no_callback tid loop)"
  show ?case
  proof (cases ev)
    case (Incoming bs)
    with Cons.prems have st: "echo_state tid (length (bs @ pool_tag loop tid) + length (pool_replies (pool_tag loop tid) (received evs))) acc w c"
      and bs: "bs \<noteq> []" "length bs \<le> kExtraBuf" by (simp_all add: pool_replies_def add.assoc)
    from pool_message_state [OF st wb bs Cons.prems(2)] obtain w1 c1 where w1: "echo_step os ?cbs tid ev w = Inr w1"
      "echo_state tid (length (pool_replies (pool_tag loop tid) (received evs))) (acc @ bs @ pool_tag loop tid) w1 c1"
      "tc_state c1 = kConnected" using Incoming by auto
    from Cons.IH [OF w1(2,3)] Cons.prems(3) Incoming w1(1) show ?thesis by (auto simp: pool_replies_def)
  next
    case (Interrupted err)
    then have "run_list (echo_step os ?cbs tid) (ev # evs) w = run_list (echo_step os ?cbs tid) evs w"
      and same: "received (ev # evs) = received evs"
      using quiet_step(1) [OF Cons.prems(1) wb] by simp_all
    with Cons.IH Cons.prems show ?thesis by (simp only: same)
  next
    case Outgoing
    with quiet_step(2) [OF Cons.prems(1) wb, of "pool_message os no_callback tid loop"] obtain w1 c1 where
      w1: "echo_step os ?cbs tid ev w = Inr w1" "echo_state tid (length (pool_replies (pool_tag loop tid) (received evs))) acc w1 c1"
      "tc_state c1 = kConnected" using Cons.prems(2) by auto
    from Cons.IH [OF w1(2,3)] Cons.prems(3) Outgoing w1(1) show ?thesis by auto
  qed
qed

lemma established:
  assumes "fresh_world tid fd w" and "k + kCheapPrepend \<le> kMaxSize"
  obtains w' c' where "conn_enableRead os (on_message f) tid w = Inr w'" and "echo_state tid k [] w' c'"
    and "tc_state c' = kConnected"
proof -
  have "benign (connectionCallback (on_message f))" by (simp add: on_message_def no_callback_def benign_def)
  from enableRead_stream [OF assms(1) this assms(2)] obtain w' c' where
    "conn_enableRead os (on_message f) tid w = Inr w'" "stream_state tid k [] w' c'" "tc_state c' = kConnected"
    "tc_inBuffer c' = new_buffer kInitialSize" .
  then show ?thesis
    by (intro that [of w' c']) (simp_all add: echo_state_def idle_def new_buffer_ok new_buffer_empty, simp add:
        new_buffer_def kInputMemory_def kCheapPrepend_def kInitialSize_def kExtraBuf_def)
qed

subsection \<open>Properties\<close>

text \<open>C30. The echo server of the tests answers once.  The peer's data arrives in reads of at most 65536 bytes,
  mixed with interrupted reads and writable events: no call fails; what has been written and what is
  still buffered is exactly the first read's data; the write side is shut down exactly when a
  message has arrived and all of its echo is out; and everything that arrives later is read and dropped.\<close>

theorem echo_once:
  assumes "fresh_world tid fd w" and "write_bounded os"
    and "\<forall>m \<in> set (received evs). m \<noteq> [] \<and> length m \<le> kExtraBuf"
    and "length (concat (received evs)) + kCheapPrepend \<le> kMaxSize"
    and "cbs = on_message (echo_message os no_callback tid)"
  shows "\<exists>w' c. rbind (conn_enableRead os cbs tid w) (run_list (echo_step os cbs tid) evs) = Inr w' \<and>
     w_conn w' = Some c \<and> w_wire w' @ readable (tc_outBuffer c) = concat (take 1 (received evs)) \<and>
     (w_shut w' \<longleftrightarrow> received evs \<noteq> [] \<and> readable (tc_outBuffer c) = []) \<and> readable (tc_inBuffer c) = []"
proof -
  from established [OF assms(1,4), of os "echo_message os no_callback tid"] obtain w1 c1 where
    w1: "conn_enableRead os cbs tid w = Inr w1" "echo_state tid (length (concat (received evs))) [] w1 c1"
    "tc_state c1 = kConnected" unfolding assms(5) .
  from echo_run [OF assms(2) w1(2) assms(3)] w1(3) obtain w' c where
    w': "run_list (echo_step os cbs tid) evs w1 = Inr w'" "echo_state tid 0 (concat (take 1 (received evs))) w' c"
    "tc_state c = (if received evs = [] then kConnected else kDisconnecting)" unfolding assms(5) by auto
  then have "stream_state tid 0 (concat (take 1 (received evs))) w' c" and "idle c" by (simp_all add: echo_state_def)
  note s = stream_stateD [OF this(1)] and i = this(2)
  from w1(1) w'(1,3) s(1,6,7) i show ?thesis
    by (intro exI [of _ w'] exI [of _ c]) (auto simp: idle_def)
qed

text \<open>The server of the pool test sends every message back, each followed by the address of its loop and the
  id of its thread, whole and in the order of the reads, and never shuts the connection down.\<close>

lemma pool_echo:
  assumes "fresh_world tid fd w" and "write_bounded os"
    and "\<forall>m \<in> set (received evs). m \<noteq> [] \<and> length m \<le> kExtraBuf"
    and "length (pool_replies (pool_tag loop tid) (received evs)) + kCheapPrepend \<le> kMaxSize"
    and "cbs = on_message (pool_message os no_callback tid loop)"
  shows "\<exists>w' c. rbind (conn_enableRead os cbs tid w) (run_list (echo_step os cbs tid) evs) = Inr w' \<and>
     w_conn w' = Some c \<and>
     w_wire w' @ readable (tc_outBuffer c) = concat (map (\<lambda>m. m @ pool_tag loop tid) (received evs)) \<and>
     \<not> w_shut w' \<and> readable (tc_inBuffer c) = []"
proof -
  from established [OF assms(1,4), of os "pool_message os no_callback tid loop"] obtain w1 c1 where
    w1: "conn_enableRead os cbs tid w = Inr w1"
    "echo_state tid (length (pool_replies (pool_tag loop tid) (received evs))) [] w1 c1"
    "tc_state c1 = kConnected" unfolding assms(5) .
  from pool_run [OF assms(2) w1(2,3) assms(3)] obtain w' c where
    w': "run_list (echo_step os cbs tid) evs w1 = Inr w'"
    "echo_state tid 0 (pool_replies (pool_tag loop tid) (received evs)) w' c"
    "tc_state c = kConnected" unfolding assms(5) by auto
  then have "stream_state tid 0 (pool_replies (pool_tag loop tid) (received evs)) w' c" and "idle c"
    by (simp_all add: echo_state_def)
  note s = stream_stateD [OF this(1)] and i = this(2)
  from w1(1) w'(1,3) s(1,6,7) i show ?thesis
    by (intro exI [of _ w'] exI [of _ c]) (auto simp: idle_def pool_replies_def)
qed

text \<open>Two messages, with an interrupted read and a writable event between them.\<close>

theorem echo_once_witness:
  "\<exists>w' c. rbind (conn_enableRead slow_os (on_message (echo_message slow_os no_callback 1)) 1 (first_world 1))
       (run_list (echo_step slow_os (on_message (echo_message slow_os no_callback 1)) 1)
          [Incoming ''hello'', Interrupted 4, Outgoing, Incoming ''again'']) = Inr w' \<and>
     w_conn w' = Some c \<and> w_wire w' @ readable (tc_outBuffer c) = ''hello'' \<and>
     (w_shut w' \<longleftrightarrow> readable (tc_outBuffer c) = []) \<and> readable (tc_inBuffer c) = []"
  using echo_once [OF first_fresh slow_os_bounded _ _ refl,
      of 1 "[Incoming ''hello'', Interrupted 4, Outgoing, Incoming ''again'']"]
  by (simp add: kExtraBuf_def kCheapPrepend_def kMaxSize_def)

end
