(* ===== verification/LoopThreads.thy ===== *)
theory LoopThreads
  imports Prelude
begin

text \<open>
  \<open>yvent/EventLoopThread.{h,cpp}\<close> and \<open>EventLoopThreadPool.{h,cpp}\<close>.  The pool hands out its
  loops in turn; a loop is any value \<open>'l\<close>.  The life of a loop thread is a step
  relation between its owner, in \<open>starLoop\<close> and the destructor, and the new thread in
  \<open>threadFunc\<close>, one step per action on the shared pointer, the mutex, the condition variable and the
  loop object.
\<close>

subsection \<open>The pool\<close>

record 'l loop_pool =
  lp_baseLoop :: 'l
  lp_started :: bool
  lp_threadNum :: int
  lp_nextEventLoop :: nat
  lp_loops :: "'l list"

definition new_pool :: "'l \<Rightarrow> 'l loop_pool" where
  "new_pool baseLoop = \<lparr> lp_baseLoop = baseLoop, lp_started = False, lp_threadNum = 0,
     lp_nextEventLoop = 0, lp_loops = [] \<rparr>"

definition setThreadNum :: "int \<Rightarrow> 'l loop_pool \<Rightarrow> 'l loop_pool" where
  "setThreadNum threadNum p = p\<lparr>lp_threadNum := threadNum\<rparr>"

text \<open>
  \<open>starLoop i\<close> is the call of \<open>starLoop\<close> for the \<open>i\<close>-th new thread, with what the thread does meanwhile to the
  process \<open>'o\<close>: it gives the thread's loop, fails as the thread's constructors do, or is \<open>NoReturn\<close> when the
  notification is lost (below, \<open>starLoop_lost_notify\<close>).  The threads are never deleted.
\<close>

fun start_threads ::
  "(nat \<Rightarrow> 'o \<Rightarrow> ('l \<times> 'o) res) \<Rightarrow> nat list \<Rightarrow> 'l loop_pool \<Rightarrow> 'o \<Rightarrow> ('l loop_pool \<times> 'o) res" where
  "start_threads starLoop [] p o1 = Inr (p, o1)"
| "start_threads starLoop (i # is) p o1 =
     rbind (starLoop i o1) (\<lambda>(loop, o2). start_threads starLoop is (p\<lparr>lp_loops := lp_loops p @ [loop]\<rparr>) o2)"

definition pool_start ::
  "(nat \<Rightarrow> 'o \<Rightarrow> ('l \<times> 'o) res) \<Rightarrow> bool \<Rightarrow> 'l loop_pool \<Rightarrow> 'o \<Rightarrow> ('l loop_pool \<times> 'o) res" where
  "pool_start starLoop inLoop p o1 =
     rbind (assert (\<not> lp_started p)) (\<lambda>_.
     rbind (assert inLoop) (\<lambda>_.
     start_threads starLoop [0..<nat (lp_threadNum p)] (p\<lparr>lp_started := True\<rparr>) o1))"

definition getNextEventLoop :: "bool \<Rightarrow> 'l loop_pool \<Rightarrow> ('l \<times> 'l loop_pool) res" where
  "getNextEventLoop inLoop p =
     rbind (assert inLoop) (\<lambda>_.
     if lp_loops p \<noteq> [] then
       if lp_nextEventLoop p < length (lp_loops p)
       then Inr (lp_loops p ! lp_nextEventLoop p,
                 p\<lparr>lp_nextEventLoop := (lp_nextEventLoop p + 1) mod length (lp_loops p)\<rparr>)
       else Inl OutOfBounds
     else Inr (lp_baseLoop p, p))"

fun take_loops :: "nat \<Rightarrow> 'l loop_pool \<Rightarrow> ('l list \<times> 'l loop_pool) res" where
  "take_loops 0 p = Inr ([], p)"
| "take_loops (Suc n) p =
     rbind (getNextEventLoop True p) (\<lambda>(l, p1).
     rbind (take_loops n p1) (\<lambda>(ls, p2). Inr (l # ls, p2)))"

subsection \<open>A loop thread, from its start to its destruction\<close>

text \<open>
  The owner: before \<open>starLoop\<close>, holding the mutex before the test, behind a test that found
  \<open>loop_\<close> null, waiting (mutex released), before the \<open>return\<close> that reads \<open>loop_\<close> again, returned
  (with a pointer or with null); in the destructor behind the test of \<open>start_\<close>, behind a test that
  found \<open>loop_\<close> set, inside \<open>EventLoop::quit\<close> behind the store to \<open>quit_\<close>, in \<open>join\<close>, destroyed;
  or failed.  The thread: not started, before the store to \<open>loop_\<close>, before \<open>notify_all\<close>, in
  \<open>loop()\<close>, behind the store of null to \<open>loop_\<close> with the local \<open>EventLoop\<close> still alive, ended.
\<close>

datatype owner_pc =
    SBegin | STest | SNull | SWait | SReturn | SReturned bool
  | DLoop | DQuit | DWake | DJoin | DDone | Failed yerror
datatype thread_pc = TNone | TStore | TNotify | TLoop | TCleared | TEnd

record elt =
  et_owner :: owner_pc
  et_thread :: thread_pc
  et_loop :: bool
  et_start :: bool
  et_quit :: bool

definition new_elt :: elt where
  "new_elt = \<lparr> et_owner = SBegin, et_thread = TNone, et_loop = False, et_start = False, et_quit = False \<rparr>"

text \<open>
  Any holder of the pointer, a task included, may call \<open>quit\<close> on the running loop
  (\<open>other_quit\<close>); \<open>loop()\<close> returns only with \<open>quit_\<close> set.
\<close>

inductive elt_step :: "elt \<Rightarrow> elt \<Rightarrow> bool" where
  spawn: "et_owner s = SBegin \<Longrightarrow> \<not> et_start s \<Longrightarrow> \<not> et_loop s \<Longrightarrow>
    elt_step s (s\<lparr>et_owner := STest, et_start := True, et_thread := TStore\<rparr>)"
| test_null: "et_owner s = STest \<Longrightarrow> \<not> et_loop s \<Longrightarrow> elt_step s (s\<lparr>et_owner := SNull\<rparr>)"
| test_set: "et_owner s = STest \<Longrightarrow> et_loop s \<Longrightarrow> elt_step s (s\<lparr>et_owner := SReturn\<rparr>)"
| wait: "et_owner s = SNull \<Longrightarrow> elt_step s (s\<lparr>et_owner := SWait\<rparr>)"
| ret: "et_owner s = SReturn \<Longrightarrow> elt_step s (s\<lparr>et_owner := SReturned (et_loop s)\<rparr>)"
| store: "et_thread s = TStore \<Longrightarrow> elt_step s (s\<lparr>et_thread := TNotify, et_loop := True\<rparr>)"
| notify_all: "et_thread s = TNotify \<Longrightarrow>
    elt_step s (s\<lparr>et_thread := TLoop,
      et_owner := (if et_owner s = SWait then STest else et_owner s)\<rparr>)"
| other_quit: "et_thread s \<in> {TNotify, TLoop} \<Longrightarrow> elt_step s (s\<lparr>et_quit := True\<rparr>)"
| loop_ends: "et_thread s = TLoop \<Longrightarrow> et_quit s \<Longrightarrow>
    elt_step s (s\<lparr>et_thread := TCleared, et_loop := False\<rparr>)"
| loop_destroyed: "et_thread s = TCleared \<Longrightarrow> elt_step s (s\<lparr>et_thread := TEnd\<rparr>)"
| dtor_unused: "et_owner s = SBegin \<Longrightarrow> \<not> et_start s \<Longrightarrow> elt_step s (s\<lparr>et_owner := DDone\<rparr>)"
| dtor: "et_owner s = SReturned r \<Longrightarrow> et_start s \<Longrightarrow> elt_step s (s\<lparr>et_owner := DLoop\<rparr>)"
| dtor_null: "et_owner s = DLoop \<Longrightarrow> \<not> et_loop s \<Longrightarrow> elt_step s (s\<lparr>et_owner := DJoin\<rparr>)"
| dtor_set: "et_owner s = DLoop \<Longrightarrow> et_loop s \<Longrightarrow> elt_step s (s\<lparr>et_owner := DQuit\<rparr>)"
| quit_null: "et_owner s = DQuit \<Longrightarrow> \<not> et_loop s \<Longrightarrow> elt_step s (s\<lparr>et_owner := Failed NullDeref\<rparr>)"
| quit_store: "et_owner s = DQuit \<Longrightarrow> et_loop s \<Longrightarrow> elt_step s (s\<lparr>et_owner := DWake, et_quit := True\<rparr>)"
| quit_wakeup: "et_owner s = DWake \<Longrightarrow> et_thread s \<noteq> TEnd \<Longrightarrow> elt_step s (s\<lparr>et_owner := DJoin\<rparr>)"
| quit_freed: "et_owner s = DWake \<Longrightarrow> et_thread s = TEnd \<Longrightarrow>
    elt_step s (s\<lparr>et_owner := Failed UseAfterFree\<rparr>)"
| join: "et_owner s = DJoin \<Longrightarrow> et_thread s = TEnd \<Longrightarrow> elt_step s (s\<lparr>et_owner := DDone\<rparr>)"

inductive_cases elt_stepE: "elt_step s s'"

inductive elt_reach :: "elt \<Rightarrow> bool" where
  fresh_elt: "elt_reach new_elt"
| further: "elt_reach s \<Longrightarrow> elt_step s s' \<Longrightarrow> elt_reach s'"

inductive elt_steps :: "elt \<Rightarrow> elt \<Rightarrow> bool" where
  here: "elt_steps s s"
| onward: "elt_steps s s1 \<Longrightarrow> elt_step s1 s2 \<Longrightarrow> elt_steps s s2"

text \<open>
  The pointer is set exactly while the thread is between its two stores; \<open>starLoop\<close> has seen the first
  of them when it returns; the destructor waits only for a thread that was told to quit.
\<close>

definition published :: "elt \<Rightarrow> bool" where
  "published s \<longleftrightarrow> et_thread s \<in> {TNotify, TLoop, TCleared, TEnd}"

definition elt_inv :: "elt \<Rightarrow> bool" where
  "elt_inv s \<longleftrightarrow>
     (et_start s \<longleftrightarrow> et_thread s \<noteq> TNone) \<and>
     (et_loop s \<longleftrightarrow> et_thread s \<in> {TNotify, TLoop}) \<and>
     (et_thread s \<in> {TCleared, TEnd} \<longrightarrow> et_quit s) \<and>
     (case et_owner s of SBegin \<Rightarrow> \<not> et_start s | STest \<Rightarrow> et_start s | SNull \<Rightarrow> et_start s | SWait \<Rightarrow> et_start s
      | SReturned r \<Rightarrow> published s \<and> (\<not> r \<longrightarrow> \<not> et_loop s)
      | DJoin \<Rightarrow> published s \<and> et_quit s | DWake \<Rightarrow> published s \<and> et_quit s
      | DDone \<Rightarrow> et_thread s \<in> {TNone, TEnd} | _ \<Rightarrow> published s)"

lemma elt_inv_step: "elt_step s s' \<Longrightarrow> elt_inv s \<Longrightarrow> elt_inv s'"
  by (erule elt_stepE) (auto simp: elt_inv_def published_def split: owner_pc.splits)

lemma elt_reach_inv: "elt_reach s \<Longrightarrow> elt_inv s"
  by (induction rule: elt_reach.induct) (auto simp: elt_inv_step, simp add: elt_inv_def new_elt_def)

text \<open>The only way out of the wait is the notification.\<close>

lemma stays_waiting:
  assumes "elt_step s s'" and "et_owner s = SWait" and "et_thread s \<in> {TLoop, TCleared, TEnd}"
  shows "et_owner s' = SWait" and "et_thread s' \<in> {TLoop, TCleared, TEnd}"
  using assms by (auto elim!: elt_stepE)

lemma waits_forever:
  "elt_steps s s' \<Longrightarrow> et_owner s = SWait \<Longrightarrow> et_thread s \<in> {TLoop, TCleared, TEnd} \<Longrightarrow>
   et_owner s' = SWait \<and> et_thread s' \<in> {TLoop, TCleared, TEnd}"
  by (induction rule: elt_steps.induct) (use stays_waiting in auto)

text \<open>
  Once the destructor is in \<open>join\<close>, the steps that are left are those of the thread, and they end:
  every step but a repeated \<open>quit\<close> comes nearer to the end, and until the end one is possible.
\<close>

fun steps_left :: "thread_pc \<Rightarrow> nat" where
  "steps_left TNone = 6" | "steps_left TStore = 5" | "steps_left TNotify = 4"
| "steps_left TLoop = 3" | "steps_left TCleared = 2" | "steps_left TEnd = 1"

lemma join_step:
  assumes "elt_step s s'" and "et_owner s = DJoin" and "elt_inv s"
  shows "s' = s \<or> et_owner s' = DJoin \<and> steps_left (et_thread s') < steps_left (et_thread s) \<or>
         et_owner s' = DDone \<and> et_thread s' = TEnd"
proof -
  have "s\<lparr>et_quit := True\<rparr> = s" using assms(2,3) by (cases s) (simp add: elt_inv_def)
  then show ?thesis using assms(2) by (rule_tac elt_stepE [OF assms(1)]) simp_all
qed

lemma changing_step:
  "elt_step s s' \<Longrightarrow> et_thread s' \<noteq> et_thread s \<or> et_owner s' \<noteq> et_owner s \<Longrightarrow> \<exists>s'. elt_step s s' \<and> s' \<noteq> s"
  by auto

lemma join_not_stuck:
  assumes "et_owner s = DJoin" and "elt_inv s"
  shows "\<exists>s'. elt_step s s' \<and> s' \<noteq> s"
proof -
  from assms have "published s" and quit: "et_quit s" by (simp_all add: elt_inv_def)
  then consider "et_thread s = TNotify" | "et_thread s = TLoop" | "et_thread s = TCleared" | "et_thread s = TEnd"
    by (auto simp: published_def)
  then show ?thesis
  proof cases
    case 1
    then show ?thesis by (intro changing_step [OF notify_all]) simp_all
  next
    case 2
    with quit show ?thesis by (intro changing_step [OF loop_ends]) simp_all
  next
    case 3
    then show ?thesis by (intro changing_step [OF loop_destroyed]) simp_all
  next
    case 4
    with assms(1) show ?thesis by (intro changing_step [OF join]) simp_all
  qed
qed

text \<open>
  \<open>eventually P s\<close>: every run from \<open>s\<close>, leaving out steps that change nothing, comes to a state
  with \<open>P\<close> after finitely many steps and cannot stop before.
\<close>

inductive eventually :: "(elt \<Rightarrow> bool) \<Rightarrow> elt \<Rightarrow> bool" for P where
  now: "P s \<Longrightarrow> eventually P s"
| later: "\<exists>s'. elt_step s s' \<and> s' \<noteq> s \<Longrightarrow> \<forall>s'. elt_step s s' \<longrightarrow> s' = s \<or> eventually P s' \<Longrightarrow> eventually P s"

lemma join_ends: "et_owner s = DJoin \<Longrightarrow> elt_inv s \<Longrightarrow> eventually (\<lambda>s'. et_owner s' = DDone) s"
proof (induction "steps_left (et_thread s)" arbitrary: s rule: less_induct)
  case less
  show ?case
  proof (rule later [OF join_not_stuck [OF less.prems]], intro allI impI)
    fix s'
    assume step: "elt_step s s'"
    from join_step [OF step less.prems] elt_inv_step [OF step less.prems(2)] less.hyps
    show "s' = s \<or> eventually (\<lambda>s'. et_owner s' = DDone) s'" by (auto intro: now)
  qed
qed

subsection \<open>Properties\<close>

text \<open>States of a started thread, for the runs below.\<close>

definition elt_at :: "owner_pc \<Rightarrow> thread_pc \<Rightarrow> bool \<Rightarrow> elt" where
  [simp]: "elt_at p t q =
     \<lparr> et_owner = p, et_thread = t, et_loop = (t \<in> {TNotify, TLoop}), et_start = True, et_quit = q \<rparr>"

lemma started_reached: "elt_reach (elt_at STest TStore False)"
  using further [OF fresh_elt spawn] by (simp add: new_elt_def)

lemma null_reached: "elt_reach (elt_at SNull TStore False)"
  by (rule further [OF started_reached]) (use test_null [of "elt_at STest TStore False"] in simp)

lemma returned_reached: "elt_reach (elt_at (SReturned True) TLoop False)"
proof -
  have "elt_reach (elt_at STest TNotify False)"
    by (rule further [OF started_reached]) (use store [of "elt_at STest TStore False"] in simp)
  then have "elt_reach (elt_at STest TLoop False)"
    by (rule further) (use notify_all [of "elt_at STest TNotify False"] in simp)
  then have "elt_reach (elt_at SReturn TLoop False)"
    by (rule further) (use test_set [of "elt_at STest TLoop False"] in simp)
  then show ?thesis
    by (rule further) (use ret [of "elt_at SReturn TLoop False"] in simp)
qed

lemma quit_reached: "elt_reach (elt_at DQuit TLoop False)"
proof -
  have "elt_reach (elt_at DLoop TLoop False)"
    by (rule further [OF returned_reached]) (use dtor [of "elt_at (SReturned True) TLoop False" True] in simp)
  then show ?thesis
    by (rule further) (use dtor_set [of "elt_at DLoop TLoop False"] in simp)
qed

lemma wake_reached: "elt_reach (elt_at DWake TLoop True)"
  by (rule further [OF quit_reached]) (use quit_store [of "elt_at DQuit TLoop False"] in simp)

definition pool_ok :: "'l loop_pool \<Rightarrow> bool" where
  "pool_ok p \<longleftrightarrow> lp_loops p \<noteq> [] \<longrightarrow> lp_nextEventLoop p < length (lp_loops p)"

text \<open>The pool hands out its loops round robin and never reads outside its vector: the
  \<open>n\<close> next calls return the loops at the positions that follow the current one, modulo
  the number of loops, and a pool without threads always returns the base loop.\<close>

lemma pool_round_robin:
  assumes "pool_ok p"
  shows "\<exists>p'. take_loops n p = Inr (map (\<lambda>i. if lp_loops p = [] then lp_baseLoop p
             else lp_loops p ! ((lp_nextEventLoop p + i) mod length (lp_loops p))) [0..<n], p') \<and>
           pool_ok p' \<and> lp_loops p' = lp_loops p"
  using assms
proof (induction n arbitrary: p)
  case (Suc n)
  show ?case
  proof (cases "lp_loops p = []")
    case True
    then have "getNextEventLoop True p = Inr (lp_baseLoop p, p)" by (simp add: getNextEventLoop_def)
    with Suc.IH [OF Suc.prems] True show ?thesis by (auto simp: upt_conv_Cons map_replicate_const replicate_append_same)
  next
    case False
    let ?k = "length (lp_loops p)" and ?i = "lp_nextEventLoop p"
    let ?p = "p\<lparr>lp_nextEventLoop := (?i + 1) mod ?k\<rparr>"
    have i: "?i < ?k" using Suc.prems False by (simp add: pool_ok_def)
    have get: "getNextEventLoop True p = Inr (lp_loops p ! ?i, ?p)"
      using False i by (simp add: getNextEventLoop_def)
    have "pool_ok ?p" using False by (simp add: pool_ok_def)
    from Suc.IH [OF this] False obtain p' where
      p': "take_loops n ?p = Inr (map (\<lambda>j. lp_loops p ! (((?i + 1) mod ?k + j) mod ?k)) [0..<n], p')"
        "pool_ok p'" "lp_loops p' = lp_loops p" by auto
    have "[0..<Suc n] = 0 # map Suc [0..<n]" by (simp add: upt_conv_Cons map_Suc_upt)
    then have "map (\<lambda>j. lp_loops p ! ((?i + j) mod ?k)) [0..<Suc n]
        = lp_loops p ! ?i # map (\<lambda>j. lp_loops p ! (((?i + 1) mod ?k + j) mod ?k)) [0..<n]"
      using i by (simp add: mod_simps)
    with get p' False show ?thesis by simp
  qed
qed simp

text \<open>C39. Starting a loop thread can hang: the new thread stores \<open>loop_\<close> and notifies without
  the mutex, so both can happen between the starter's test of \<open>loop_\<close> and its wait.  Such a
  state is reachable, and from it the starter waits in every further run although the
  loop is published (a spurious wake-up, which the standard permits but does not promise, is
  not a step here).  When \<open>starLoop\<close> returns the loop has been published, and it returns null only
  when the loop has ended already.\<close>

theorem starLoop_lost_notify:
  "(\<exists>s. elt_reach s \<and> et_loop s \<and> et_owner s = SWait \<and>
        (\<forall>s'. elt_steps s s' \<longrightarrow> et_owner s' = SWait)) \<and>
   (\<forall>s r. elt_reach s \<and> et_owner s = SReturned r \<longrightarrow>
        et_thread s \<in> {TNotify, TLoop, TCleared, TEnd} \<and> (\<not> r \<longrightarrow> et_thread s \<in> {TCleared, TEnd}))"
proof
  have "elt_reach (elt_at SNull TNotify False)"
    by (rule further [OF null_reached]) (use store [of "elt_at SNull TStore False"] in simp)
  then have "elt_reach (elt_at SNull TLoop False)"
    by (rule further) (use notify_all [of "elt_at SNull TNotify False"] in simp)
  then have "elt_reach (elt_at SWait TLoop False)"
    by (rule further) (use wait [of "elt_at SNull TLoop False"] in simp)
  then show "\<exists>s. elt_reach s \<and> et_loop s \<and> et_owner s = SWait \<and>
      (\<forall>s'. elt_steps s s' \<longrightarrow> et_owner s' = SWait)"
    using waits_forever [of "elt_at SWait TLoop False"]
    by (intro exI [of _ "elt_at SWait TLoop False"]) simp
  show "\<forall>s r. elt_reach s \<and> et_owner s = SReturned r \<longrightarrow>
        et_thread s \<in> {TNotify, TLoop, TCleared, TEnd} \<and> (\<not> r \<longrightarrow> et_thread s \<in> {TCleared, TEnd})"
    using elt_reach_inv by (fastforce simp: elt_inv_def published_def)
qed

text \<open>The starter that finds the loop published returns its pointer.\<close>

theorem starLoop_lost_notify_witness:
  "\<exists>s. elt_reach s \<and> et_owner s = SReturned True \<and> et_thread s \<in> {TNotify, TLoop, TCleared, TEnd}"
  using returned_reached starLoop_lost_notify by (intro exI [of _ "elt_at (SReturned True) TLoop False"]) simp

text \<open>C40. Destroying a loop thread.  Once the destructor is in \<open>join\<close> it returns in every run: the
  thread has been told to quit or is past its loop.  Once it has returned the thread has ended or
  was never started, so no member is used after it.  Before that, two races are reachable: after
  the destructor has stored \<open>quit_\<close>, the loop can end and be destroyed before \<open>EventLoop::quit\<close>
  reads its members and wakes it up, which is a use after free without any other thread involved;
  and a loop ended by someone else between the test of \<open>loop_\<close> and its use makes it null.\<close>

theorem thread_shutdown:
  "(\<forall>s. elt_reach s \<and> et_owner s = DJoin \<longrightarrow> eventually (\<lambda>s'. et_owner s' = DDone) s) \<and>
   (\<forall>s. elt_reach s \<and> et_owner s = DDone \<longrightarrow> et_thread s \<in> {TNone, TEnd}) \<and>
   (\<exists>s. elt_reach s \<and> et_owner s = Failed UseAfterFree) \<and>
   (\<exists>s. elt_reach s \<and> et_owner s = Failed NullDeref)"
proof (intro conjI allI impI; (elim conjE)?)
  fix s
  assume "elt_reach s" "et_owner s = DJoin"
  then show "eventually (\<lambda>s'. et_owner s' = DDone) s" by (intro join_ends elt_reach_inv)
next
  fix s
  assume "elt_reach s" "et_owner s = DDone"
  then show "et_thread s \<in> {TNone, TEnd}" using elt_reach_inv [of s] by (simp add: elt_inv_def)
next
  have "elt_reach (elt_at DWake TCleared True)"
    by (rule further [OF wake_reached]) (use loop_ends [of "elt_at DWake TLoop True"] in simp)
  then have "elt_reach (elt_at DWake TEnd True)"
    by (rule further) (use loop_destroyed [of "elt_at DWake TCleared True"] in simp)
  then have "elt_reach (elt_at (Failed UseAfterFree) TEnd True)"
    by (rule further) (use quit_freed [of "elt_at DWake TEnd True"] in simp)
  then show "\<exists>s. elt_reach s \<and> et_owner s = Failed UseAfterFree" by fastforce
next
  have "elt_reach (elt_at DQuit TLoop True)"
    by (rule further [OF quit_reached]) (use other_quit [of "elt_at DQuit TLoop False"] in simp)
  then have "elt_reach (elt_at DQuit TCleared True)"
    by (rule further) (use loop_ends [of "elt_at DQuit TLoop True"] in simp)
  then have "elt_reach (elt_at (Failed NullDeref) TCleared True)"
    by (rule further) (use quit_null [of "elt_at DQuit TCleared True"] in simp)
  then show "\<exists>s. elt_reach s \<and> et_owner s = Failed NullDeref" by fastforce
qed

text \<open>The usual course: the loop is woken up, and \<open>join\<close> returns.\<close>

theorem thread_shutdown_witness:
  "\<exists>s. elt_reach s \<and> et_owner s = DJoin \<and> eventually (\<lambda>s'. et_owner s' = DDone) s"
proof -
  have "elt_reach (elt_at DJoin TLoop True)"
    by (rule further [OF wake_reached]) (use quit_wakeup [of "elt_at DWake TLoop True"] in simp)
  then show ?thesis using thread_shutdown by (intro exI [of _ "elt_at DJoin TLoop True"]) simp
qed

end
