(* ===== verification/TcpServer.thy ===== *)
theory TcpServer
  imports Acceptor Containers LoopThreads EventLoop
begin

text \<open>
  \<open>yvent/TcpServer.{h,cpp}\<close>: starting a server, accepting connections and the map of the
  connections by name.  A connection object is its descriptor and its loop; what it does is
  the subject of \<open>TcpConnection\<close>.  \<open>runInLoop\<close> of the new connection's \<open>enableRead\<close> is a
  function on the server, since in the server's own loop it runs at once and the
  application's callback may close the connection before it is in the map.  \<open>sv_closing\<close>
  holds the close tasks that the connections' loops have queued in the server's loop.
\<close>

subsection \<open>The server\<close>

record 'l server_conn =
  sc_cfd :: int
  sc_loop :: 'l

record 'l tcp_server =
  sv_nextConnId :: int
  sv_acceptor :: acceptor
  sv_connections :: "(string \<times> 'l server_conn) list"
  sv_threads :: "'l loop_pool"
  sv_closing :: "string list"

definition new_server :: "'o sock_os \<Rightarrow> 'l \<Rightarrow> sockaddr_in \<Rightarrow> 'o \<Rightarrow> ('l tcp_server \<times> 'o) res" where
  "new_server os loop host o1 =
     rbind (new_acceptor os host o1) (\<lambda>(a, o2).
     Inr (\<lparr> sv_nextConnId = 0, sv_acceptor = a, sv_connections = [], sv_threads = new_pool loop,
            sv_closing = [] \<rparr>, o2))"

definition server_setThreadNum :: "int \<Rightarrow> 'l tcp_server \<Rightarrow> 'l tcp_server" where
  "server_setThreadNum num s = s\<lparr>sv_threads := setThreadNum num (sv_threads s)\<rparr>"

definition server_start ::
  "'o sock_os \<Rightarrow> ('o, 'p) epoll_ctl \<Rightarrow> 'p \<Rightarrow> (nat \<Rightarrow> 'o \<Rightarrow> ('l \<times> 'o) res) \<Rightarrow> bool \<Rightarrow> 'l tcp_server \<Rightarrow> 'o \<Rightarrow>
   ('l tcp_server \<times> 'o) res" where
  "server_start os ctl self starLoop inLoop s o1 =
     rbind (pool_start starLoop inLoop (sv_threads s) o1) (\<lambda>(p, o2).
     rbind (acceptor_listen os ctl self inLoop (sv_acceptor s) o2) (\<lambda>(a, o3).
     Inr (s\<lparr>sv_threads := p, sv_acceptor := a\<rparr>, o3)))"

definition conn_name :: "string \<Rightarrow> nat \<Rightarrow> int \<Rightarrow> string" where
  "conn_name ip port connId =
     snprintf 128 (ip @ '':'' @ fmt_int (int port) @ ''#'' @ fmt_int connId)"

definition newConnection ::
  "(string \<Rightarrow> 'l server_conn \<Rightarrow> 'l tcp_server \<Rightarrow> 'l tcp_server res) \<Rightarrow> bool \<Rightarrow> int \<Rightarrow> sockaddr_in \<Rightarrow>
   'l tcp_server \<Rightarrow> 'l tcp_server res" where
  "newConnection runEnableRead inLoop cfd peer s =
     (let name = conn_name (inet_ip_of peer) (unat (inet_port_of peer)) (sv_nextConnId s) in
      if sv_nextConnId s + 1 < 2 ^ 31 then
        let s1 = s\<lparr>sv_nextConnId := sv_nextConnId s + 1\<rparr> in
        rbind (getNextEventLoop inLoop (sv_threads s1)) (\<lambda>(ioLoop, pool).
        let s2 = s1\<lparr>sv_threads := pool\<rparr>; conn = \<lparr> sc_cfd = cfd, sc_loop = ioLoop \<rparr> in
        rbind (runEnableRead name conn s2) (\<lambda>s3.
        Inr (s3\<lparr>sv_connections := smap_update name conn (sv_connections s3)\<rparr>)))
      else Inl Overflow)"

definition handleCloseInLoop :: "bool \<Rightarrow> string \<Rightarrow> 'l tcp_server \<Rightarrow> 'l tcp_server res" where
  "handleCloseInLoop inLoop name s =
     rbind (assert inLoop) (\<lambda>_.
     Inr (s\<lparr>sv_connections := smap_erase name (sv_connections s)\<rparr>))"

definition server_handleClose :: "bool \<Rightarrow> string \<Rightarrow> 'l tcp_server \<Rightarrow> 'l tcp_server res" where
  "server_handleClose inLoop name s =
     (if inLoop then handleCloseInLoop inLoop name s
      else Inr (s\<lparr>sv_closing := sv_closing s @ [name]\<rparr>))"

text \<open>The queued close tasks, run by the server's loop.\<close>

fun run_closing :: "string list \<Rightarrow> 'l tcp_server \<Rightarrow> 'l tcp_server res" where
  "run_closing [] s = Inr s"
| "run_closing (name # names) s = rbind (handleCloseInLoop True name s) (run_closing names)"

definition server_runTasks :: "'l tcp_server \<Rightarrow> 'l tcp_server res" where
  "server_runTasks s = run_closing (sv_closing s) (s\<lparr>sv_closing := []\<rparr>)"

subsection \<open>Names\<close>

lemma conn_name_whole:
  assumes "length ip \<le> 15" and "port < 65536" and "0 \<le> connId" and "connId < 2 ^ 31"
  shows "conn_name ip port connId = ip @ '':'' @ dec_nat port @ ''#'' @ dec_nat (nat connId)"
proof -
  have "length (dec_nat port) \<le> 5" using assms(2) by (intro dec_nat_length) simp_all
  moreover have "length (dec_nat (nat connId)) \<le> 10" using assms(3,4) by (intro dec_nat_length) simp_all
  ultimately show ?thesis using assms by (simp add: conn_name_def snprintf_def fmt_int_def)
qed

lemma dec_nat_no_hash: "CHR ''#'' \<notin> set (dec_nat n)"
proof
  assume "CHR ''#'' \<in> set (dec_nat n)"
  from dec_nat_digits [OF this] show False by simp
qed

lemma last_split:
  assumes "xs @ c # ys = xs' @ c # ys'" and "c \<notin> set ys" and "c \<notin> set ys'"
  shows "ys = ys'"
proof -
  have "takeWhile (\<lambda>x. x \<noteq> c) (rev ys @ c # zs) = rev ys" if "c \<notin> set ys" for ys zs
    using that by (subst takeWhile_append2) auto
  moreover have "rev ys @ c # rev xs = rev ys' @ c # rev xs'"
    using arg_cong [OF assms(1), of rev] by simp
  ultimately show ?thesis using assms(2,3) by (metis rev_rev_ident)
qed

lemma conn_name_inj:
  assumes "conn_name ip port i = conn_name ip' port' j" and "length ip \<le> 15" and "length ip' \<le> 15"
    and "port < 65536" and "port' < 65536" and "0 \<le> i" "i < 2 ^ 31" "0 \<le> j" "j < 2 ^ 31"
  shows "i = j"
proof -
  have "(ip @ '':'' @ dec_nat port) @ CHR ''#'' # dec_nat (nat i)
      = (ip' @ '':'' @ dec_nat port') @ CHR ''#'' # dec_nat (nat j)"
    using assms conn_name_whole [of ip port i] conn_name_whole [of ip' port' j] by simp
  then have "dec_nat (nat i) = dec_nat (nat j)"
    by (rule last_split) (rule dec_nat_no_hash)+
  then show ?thesis using assms(6,8) dec_nat_inj by (metis int_nat_eq)
qed

subsection \<open>Reachable servers\<close>

text \<open>
  The connection callback runs inside \<open>enableRead\<close>, at once when the connection belongs to the server's own
  loop, and may close connections of that loop, the new one included: \<open>closes name\<close> are those it closes, by
  name, when the new connection is \<open>name\<close>.  For a connection of another loop \<open>closes name\<close> is empty: the
  callback runs in that loop's thread, and what it closes comes back as a task of the server's loop.
\<close>

definition callback_closes ::
  "(string \<Rightarrow> string list) \<Rightarrow> string \<Rightarrow> 'l server_conn \<Rightarrow> 'l tcp_server \<Rightarrow> 'l tcp_server res" where
  "callback_closes closes name conn s = run_list (server_handleClose True) (closes name) s"

text \<open>The loop's side of the server: connections are accepted and closed.\<close>

inductive sv_reach :: "'o sock_os \<Rightarrow> ('o, 'p) epoll_ctl \<Rightarrow> 'l tcp_server \<Rightarrow> bool" for os ctl where
  sv_new: "new_server os l host o1 = Inr (s, o2) \<Longrightarrow> sv_reach os ctl s"
| sv_start: "sv_reach os ctl s \<Longrightarrow> server_start os ctl self starLoop inLoop (server_setThreadNum n s) o1 = Inr (s', o2) \<Longrightarrow>
    sv_reach os ctl s'"
| sv_accept: "sv_reach os ctl s \<Longrightarrow> newConnection (callback_closes closes) True cfd peer s = Inr s' \<Longrightarrow>
    sv_reach os ctl s'"
| sv_close: "sv_reach os ctl s \<Longrightarrow> server_handleClose inLoop name s = Inr s' \<Longrightarrow> sv_reach os ctl s'"
| sv_tasks: "sv_reach os ctl s \<Longrightarrow> server_runTasks s = Inr s' \<Longrightarrow> sv_reach os ctl s'"

definition names_ok :: "'l tcp_server \<Rightarrow> bool" where
  "names_ok s \<longleftrightarrow> smap_ok (sv_connections s) \<and> 0 \<le> sv_nextConnId s \<and>
     (\<forall>name \<in> fst ` set (sv_connections s). \<exists>ip port i. name = conn_name ip port i \<and>
        length ip \<le> 15 \<and> port < 65536 \<and> 0 \<le> i \<and> i < sv_nextConnId s) \<and> sv_nextConnId s < 2 ^ 31"

lemma port_bound: "unat (inet_port_of a) < 65536"
  by (rule order_less_le_trans [OF unsigned_less]) simp

lemma names_ok_sub:
  assumes "names_ok s" and "smap_ok m" and sub: "fst ` set m \<subseteq> fst ` set (sv_connections s)"
  shows "names_ok (s\<lparr>sv_connections := m\<rparr>)"
proof -
  have "\<exists>ip port i. name = conn_name ip port i \<and> length ip \<le> 15 \<and> port < 65536 \<and> 0 \<le> i \<and> i < sv_nextConnId s"
    if "name \<in> fst ` set m" for name
    using subsetD [OF sub that] assms(1) unfolding names_ok_def by blast
  with assms(1,2) show ?thesis unfolding names_ok_def by simp
qed

lemma names_ok_close:
  assumes "names_ok s" and "handleCloseInLoop True name s = Inr s'"
  shows "names_ok s'"
proof -
  have "s' = s\<lparr>sv_connections := smap_erase name (sv_connections s)\<rparr>"
    using assms(2) by (simp add: handleCloseInLoop_def)
  then show ?thesis
    using names_ok_sub [OF assms(1) _ keys_smap_erase_sub [of name]] assms(1)
    by (simp add: names_ok_def smap_erase_ok)
qed

lemma names_ok_other:
  "names_ok (s\<lparr>sv_closing := xs\<rparr>) = names_ok s" "names_ok (s\<lparr>sv_threads := p\<rparr>) = names_ok s"
  "names_ok (s\<lparr>sv_acceptor := a\<rparr>) = names_ok s"
  by (simp_all add: names_ok_def)

lemma names_ok_next:
  assumes "names_ok s" and "sv_nextConnId s + 1 < 2 ^ 31"
  shows "names_ok (s\<lparr>sv_nextConnId := sv_nextConnId s + 1, sv_threads := p\<rparr>)"
proof -
  have "\<exists>ip port i. name = conn_name ip port i \<and> length ip \<le> 15 \<and> port < 65536 \<and> 0 \<le> i \<and> i < sv_nextConnId s + 1"
    if names: "name \<in> fst ` set (sv_connections s)" for name
  proof -
    from assms(1) names obtain ip port i where "name = conn_name ip port i" "length ip \<le> 15" "port < 65536"
      "0 \<le> i" "i < sv_nextConnId s" unfolding names_ok_def by blast
    then show ?thesis by (intro exI [of _ ip] exI [of _ port] exI [of _ i]) simp
  qed
  with assms show ?thesis unfolding names_ok_def by simp
qed

lemma names_ok_run_closing: "run_closing names s = Inr s' \<Longrightarrow> names_ok s \<Longrightarrow> names_ok s'"
  by (induction names s rule: run_closing.induct) (auto simp: res_simps names_ok_close)

text \<open>What the callback leaves: the closed connections are gone from the map.\<close>

lemma callback_closes_map:
  assumes "names_ok s"
  obtains m where "callback_closes closes name conn s = Inr (s\<lparr>sv_connections := m\<rparr>)"
    and "names_ok (s\<lparr>sv_connections := m\<rparr>)" and "map_of m = map_of (sv_connections s) |` (- set (closes name))"
proof -
  have "\<exists>m. run_list (server_handleClose True) names s = Inr (s\<lparr>sv_connections := m\<rparr>) \<and>
      names_ok (s\<lparr>sv_connections := m\<rparr>) \<and> map_of m = map_of (sv_connections s) |` (- set names)" for names
    using assms
  proof (induction names arbitrary: s)
    case Nil
    then show ?case by (intro exI [of _ "sv_connections s"]) simp
  next
    case (Cons n names)
    let ?s = "s\<lparr>sv_connections := smap_erase n (sv_connections s)\<rparr>"
    have step: "handleCloseInLoop True n s = Inr ?s" by (simp add: handleCloseInLoop_def)
    from Cons.IH [OF names_ok_close [OF Cons.prems step]] obtain m where m:
      "run_list (server_handleClose True) names ?s = Inr (s\<lparr>sv_connections := m\<rparr>)" "names_ok (s\<lparr>sv_connections := m\<rparr>)"
      "map_of m = map_of (sv_connections ?s) |` (- set names)"
      by auto
    have "map_of (sv_connections ?s) = (map_of (sv_connections s))(n := None)"
      using Cons.prems by (simp add: names_ok_def find_smap_erase)
    then have "map_of m = map_of (sv_connections s) |` (- set (n # names))"
      using m(3) by (auto simp: restrict_map_def fun_eq_iff)
    moreover have "server_handleClose True n s = Inr ?s" using step by (simp add: server_handleClose_def)
    ultimately show ?case using m(1,2) by (intro exI [of _ m]) simp
  qed
  then show ?thesis using that unfolding callback_closes_def by blast
qed

lemma newConnection_result:
  assumes "names_ok s" and "newConnection (callback_closes closes) True cfd peer s = Inr s'"
  obtains name ioLoop pool m where "name = conn_name (inet_ip_of peer) (unat (inet_port_of peer)) (sv_nextConnId s)"
    and "sv_nextConnId s + 1 < 2 ^ 31" and "names_ok (s\<lparr>sv_connections := m\<rparr>)"
    and "map_of m = map_of (sv_connections s) |` (- set (closes name))"
    and "s' = s\<lparr>sv_nextConnId := sv_nextConnId s + 1, sv_threads := pool,
        sv_connections := smap_update name \<lparr> sc_cfd = cfd, sc_loop = ioLoop \<rparr> m\<rparr>"
proof -
  let ?name = "conn_name (inet_ip_of peer) (unat (inet_port_of peer)) (sv_nextConnId s)"
  have id: "sv_nextConnId s + 1 < 2 ^ 31" using assms(2) by (simp add: newConnection_def Let_def split: if_splits)
  with assms(2) obtain ioLoop pool s3 where
    cb: "callback_closes closes ?name \<lparr> sc_cfd = cfd, sc_loop = ioLoop \<rparr>
        (s\<lparr>sv_nextConnId := sv_nextConnId s + 1, sv_threads := pool\<rparr>) = Inr s3"
    and s': "s' = s3\<lparr>sv_connections := smap_update ?name \<lparr> sc_cfd = cfd, sc_loop = ioLoop \<rparr> (sv_connections s3)\<rparr>"
    by (auto simp: newConnection_def res_simps Let_def)
  let ?s2 = "s\<lparr>sv_nextConnId := sv_nextConnId s + 1, sv_threads := pool\<rparr>"
  have "names_ok ?s2" by (rule names_ok_next [OF assms(1) id])
  from callback_closes_map [OF this, of closes ?name "\<lparr> sc_cfd = cfd, sc_loop = ioLoop \<rparr>"] cb obtain m where
    m: "s3 = ?s2\<lparr>sv_connections := m\<rparr>" "names_ok (?s2\<lparr>sv_connections := m\<rparr>)"
      "map_of m = map_of (sv_connections s) |` (- set (closes ?name))"
    by auto
  have "fst ` set m \<subseteq> fst ` set (sv_connections s)"
    using m(3) by (auto simp: restrict_map_def dom_map_of_conv_image_fst [symmetric] dom_def split: if_splits)
  moreover have "smap_ok m" using m(2) by (simp add: names_ok_def)
  ultimately have "names_ok (s\<lparr>sv_connections := m\<rparr>)" by (intro names_ok_sub [OF assms(1)])
  with id m(1,3) s' that show ?thesis by simp
qed

lemma names_ok_accept:
  assumes ok: "names_ok s" and acc: "newConnection (callback_closes closes) True cfd peer s = Inr s'"
  shows "names_ok s'"
proof -
  obtain n ioLoop pool m where n: "n = conn_name (inet_ip_of peer) (unat (inet_port_of peer)) (sv_nextConnId s)"
    and id: "sv_nextConnId s + 1 < 2 ^ 31" and okm: "names_ok (s\<lparr>sv_connections := m\<rparr>)"
    and s': "s' = s\<lparr>sv_nextConnId := sv_nextConnId s + 1, sv_threads := pool,
        sv_connections := smap_update n \<lparr> sc_cfd = cfd, sc_loop = ioLoop \<rparr> m\<rparr>"
    by (rule newConnection_result [OF ok acc])
  have "\<exists>ip port i. name = conn_name ip port i \<and> length ip \<le> 15 \<and> port < 65536 \<and> 0 \<le> i \<and> i < sv_nextConnId s + 1"
    if "name \<in> insert n (fst ` set m)" for name
  proof (cases "name = n")
    case True
    then show ?thesis
      using ok inet_ntop_length [of "sin_addr peer"] port_bound [of peer]
      by (intro exI [of _ "inet_ip_of peer"] exI [of _ "unat (inet_port_of peer)"] exI [of _ "sv_nextConnId s"])
        (simp add: n names_ok_def inet_ip_of_def)
  next
    case False
    with that okm obtain ip port i where "name = conn_name ip port i" "length ip \<le> 15" "port < 65536"
      "0 \<le> i" "i < sv_nextConnId s"
      by (auto simp: names_ok_def)
    then show ?thesis by (intro exI [of _ ip] exI [of _ port] exI [of _ i]) simp
  qed
  then show ?thesis using okm id unfolding s' names_ok_def by (simp add: smap_update_ok)
qed

lemma sv_reach_names: "sv_reach os ctl s \<Longrightarrow> names_ok s"
proof (induction rule: sv_reach.induct)
  case (sv_new l host o1 s o2)
  then show ?case by (auto simp: names_ok_def new_server_def res_simps)
next
  case (sv_start s self starLoop inLoop n o1 s' o2)
  then show ?case by (auto simp: server_start_def server_setThreadNum_def res_simps names_ok_other)
next
  case (sv_accept s closes cfd peer s')
  then show ?case using names_ok_accept by blast
next
  case (sv_close s inLoop name s')
  then show ?case
    by (cases inLoop) (auto simp: server_handleClose_def names_ok_other intro: names_ok_close)
next
  case (sv_tasks s s')
  then show ?case by (auto simp: server_runTasks_def names_ok_other intro: names_ok_run_closing)
qed

subsection \<open>Properties\<close>

text \<open>C29. Every accepted connection gets an entry of its own: in every state the server can reach, whatever
  connections the application closes inside its connection callbacks, the name of the next connection is
  not in use; accepting it removes exactly the entries of the connections its callback closes and adds its
  own entry, and closing it afterwards removes that entry and no other.  The entry is there even if the
  callback closed the new connection itself: then it was erased before it was inserted, and it stays.\<close>

theorem server_entries:
  assumes "sv_reach os ctl s" and "newConnection (callback_closes closes) True cfd peer s = Inr s'"
  shows "\<exists>name ioLoop. map_of (sv_connections s) name = None \<and>
     map_of (sv_connections s') = (map_of (sv_connections s) |` (- set (closes name)))(name \<mapsto> \<lparr> sc_cfd = cfd, sc_loop = ioLoop \<rparr>) \<and>
     (\<exists>s''. handleCloseInLoop True name s' = Inr s'' \<and>
            map_of (sv_connections s'') = map_of (sv_connections s) |` (- set (closes name)))"
proof -
  have ok: "names_ok s" by (rule sv_reach_names [OF assms(1)])
  obtain n ioLoop pool m where n: "n = conn_name (inet_ip_of peer) (unat (inet_port_of peer)) (sv_nextConnId s)"
    and okm: "names_ok (s\<lparr>sv_connections := m\<rparr>)" and m: "map_of m = map_of (sv_connections s) |` (- set (closes n))"
    and s': "s' = s\<lparr>sv_nextConnId := sv_nextConnId s + 1, sv_threads := pool,
        sv_connections := smap_update n \<lparr> sc_cfd = cfd, sc_loop = ioLoop \<rparr> m\<rparr>"
    by (rule newConnection_result [OF ok assms(2)])
  have sorted: "smap_ok m" using okm by (simp add: names_ok_def)
  have "n \<notin> fst ` set (sv_connections s)"
  proof
    assume "n \<in> fst ` set (sv_connections s)"
    with ok obtain ip port i where "n = conn_name ip port i" "length ip \<le> 15" "port < 65536"
      "0 \<le> i" "i < sv_nextConnId s" "sv_nextConnId s < 2 ^ 31" "0 \<le> sv_nextConnId s"
      unfolding names_ok_def by blast
    with conn_name_inj [of "inet_ip_of peer" "unat (inet_port_of peer)" "sv_nextConnId s" ip port i] n
    show False using inet_ntop_length [of "sin_addr peer"] port_bound [of peer]
      by (simp add: inet_ip_of_def)
  qed
  then have fresh: "map_of (sv_connections s) n = None" by (simp add: map_of_eq_None_iff)
  then have "map_of m n = None" by (simp add: m restrict_map_def)
  from smap.del_fresh [OF sorted this, of "\<lparr> sc_cfd = cfd, sc_loop = ioLoop \<rparr>"] fresh show ?thesis
    by (intro exI [of _ n] exI [of _ ioLoop]) (simp add: s' find_smap_update handleCloseInLoop_def m)
qed

text \<open>A system on which the socket calls succeed, and a server on it.\<close>

definition plain_sock :: "unit interest_list sock_os" where
  "plain_sock = \<lparr> so_socket = (\<lambda>domain type protocol k. (3, k)), so_bind = (\<lambda>fd addr k. (0, k)),
     so_connect = (\<lambda>fd addr k. (0, k)), so_accept = (\<lambda>fd k. (4, k)), so_listen = (\<lambda>fd n k. (0, k)),
     so_setsockopt = (\<lambda>fd level name val k. (0, k)) \<rparr>"

definition plain_server :: "string tcp_server" where
  "plain_server = \<lparr> sv_nextConnId = 0,
     sv_acceptor = \<lparr> ac_lfd = 3, ac_host = inet_port 80 False, ac_channel = new_channel 3 \<rparr>,
     sv_connections = [], sv_threads = new_pool ''main'', sv_closing = [] \<rparr>"

lemma plain_server_new: "new_server plain_sock ''main'' (inet_port 80 False) Map.empty = Inr (plain_server, Map.empty)"
  by (simp add: new_server_def new_acceptor_def plain_sock_def plain_server_def Socket_def Bind_def
      Setsockopt_def or_abort_def new_channel_def)

text \<open>A callback that closes its own connection.\<close>

lemma plain_accept:
  "\<exists>s'. newConnection (callback_closes closes) True 7 (inet_port 80 True) plain_server = Inr s'"
proof -
  let ?s = "plain_server\<lparr>sv_nextConnId := 1, sv_threads := sv_threads plain_server\<rparr>"
  have ok: "names_ok ?s" by (simp add: names_ok_def plain_server_def)
  have "\<exists>s3. callback_closes closes name conn ?s = Inr s3" for name and conn :: "string server_conn"
    using callback_closes_map [OF ok, of closes name conn] by metis
  then obtain f where "\<And>name conn. callback_closes closes name (conn :: string server_conn) ?s = Inr (f name conn)" by metis
  moreover have "getNextEventLoop True (sv_threads plain_server) = Inr (''main'', sv_threads plain_server)"
    "sv_nextConnId plain_server = 0"
    by (simp_all add: getNextEventLoop_def plain_server_def new_pool_def)
  ultimately show ?thesis by (simp add: newConnection_def Let_def)
qed

theorem server_entries_witness:
  "\<exists>s' name ioLoop. newConnection (callback_closes (\<lambda>name. [name])) True 7 (inet_port 80 True) plain_server = Inr s' \<and>
     map_of (sv_connections s') = [name \<mapsto> \<lparr> sc_cfd = 7, sc_loop = ioLoop \<rparr>]"
proof -
  obtain s' where s': "newConnection (callback_closes (\<lambda>name. [name])) True 7 (inet_port 80 True) plain_server = Inr s'"
    using plain_accept by blast
  from server_entries [OF sv_new [OF plain_server_new, of epoll_ref] this] obtain name ioLoop where
    "map_of (sv_connections s') = (map_of (sv_connections plain_server) |` (- {name}))(name \<mapsto> \<lparr> sc_cfd = 7, sc_loop = ioLoop \<rparr>)"
    by auto
  with s' show ?thesis by (auto simp: plain_server_def)
qed

end
