(* ===== verification/LoopLifetime.thy ===== *)
theory LoopLifetime
  imports EventLoop Channel
begin

text \<open>
  The life of the \<open>EventLoop\<close> objects of a process: the thread-local variables of \<open>EventLoop.cpp\<close>, the
  constructors of \<open>EventLoop\<close>, \<open>Poll\<close> and \<open>TimerQueue\<close> in the order in which they run, the two descriptors a
  loop registers with its own poller, and the destructors in their order.
\<close>

subsection \<open>The process\<close>

text \<open>
  The channels a poller is given: the two of the loop at address \<open>a\<close>, and that of another object.
\<close>

datatype loop_channel = WakeChannel nat | TimerChannel nat | OtherChannel nat

text \<open>\<open>lo_poll\<close> is the kernel's state behind \<open>epfd_\<close>.\<close>

record 'k loop_obj =
  lo_tid :: nat
  lo_epfd :: int
  lo_poll :: 'k
  lo_wakeupfd :: int
  lo_channel :: channel
  lo_timerfd :: int
  lo_timerChannel :: channel

text \<open>
  The thread-local variables \<open>t_cachedTid\<close> and \<open>t_Eventloop\<close> of every thread, the loops by address and
  the open descriptors.  A thread is named by its thread id, which is never 0.
\<close>

record 'k process =
  pr_cachedTid :: "nat \<Rightarrow> nat"
  pr_eventloop :: "nat \<Rightarrow> nat option"
  pr_loops :: "nat \<Rightarrow> 'k loop_obj option"
  pr_open :: "int list"

definition new_process :: "'k process" where
  "new_process = \<lparr> pr_cachedTid = (\<lambda>_. 0), pr_eventloop = Map.empty, pr_loops = Map.empty, pr_open = [] \<rparr>"

text \<open>The cached \<open>gettid()\<close>: its value and the process after the call.\<close>

definition gettid :: "nat \<Rightarrow> 'k process \<Rightarrow> nat \<times> 'k process" where
  "gettid t p =
     (let p1 = (if pr_cachedTid p t = 0 then p\<lparr>pr_cachedTid := (pr_cachedTid p)(t := t)\<rparr> else p)
      in (pr_cachedTid p1 t, p1))"

text \<open>
  \<open>alloc\<close> is the kernel's choice of a descriptor, given those that are open, or -1 with an error.
\<close>

definition open_fd :: "(int list \<Rightarrow> int) \<Rightarrow> 'k process \<Rightarrow> int \<times> 'k process" where
  "open_fd alloc p =
     (let fd = alloc (pr_open p) in (fd, if fd < 0 then p else p\<lparr>pr_open := fd # pr_open p\<rparr>))"

definition close_fd :: "int \<Rightarrow> 'k process \<Rightarrow> 'k process" where
  "close_fd fd p = p\<lparr>pr_open := remove1 fd (pr_open p)\<rparr>"

subsection \<open>Constructors\<close>

definition new_poll :: "(int list \<Rightarrow> int) \<Rightarrow> 'k process \<Rightarrow> (int \<times> 'k process) res" where
  "new_poll alloc p = (case open_fd alloc p of (epfd, p1) \<Rightarrow> if epfd = -1 then Inl Aborted else Inr (epfd, p1))"

text \<open>\<open>isInLoopThread()\<close> of a loop with the id \<open>tid\<close>.\<close>

definition in_thread :: "nat \<Rightarrow> nat \<Rightarrow> 'k process \<Rightarrow> bool \<times> 'k process" where
  "in_thread t tid p = (case gettid t p of (i, p1) \<Rightarrow> (i = tid, p1))"

text \<open>
  \<open>TimerQueue::TimerQueue\<close>: a failing \<open>timerfd_create\<close> is only logged, and so is the failing registration
  of its descriptor.
\<close>

definition construct_timerq ::
  "('k, loop_channel) epoll_ctl \<Rightarrow> (int list \<Rightarrow> int) \<Rightarrow> nat \<Rightarrow> nat \<Rightarrow> nat \<Rightarrow> 'k \<Rightarrow> 'k process \<Rightarrow>
   (int \<times> channel \<times> 'k \<times> 'k process) res" where
  "construct_timerq ctl alloc t tid a k p =
     (case open_fd alloc p of (timerfd, p1) \<Rightarrow>
      case in_thread t tid p1 of (inLoop, p2) \<Rightarrow>
      rbind (assert inLoop) (\<lambda>_.
      rbind (chan_do ctl inLoop (TimerChannel a) EnableRead (new_channel timerfd) k) (\<lambda>(ch, k1, err).
      Inr (timerfd, ch, k1, p2))))"

definition construct_loop ::
  "('k, loop_channel) epoll_ctl \<Rightarrow> 'k \<Rightarrow> (int list \<Rightarrow> int) \<Rightarrow> nat \<Rightarrow> nat \<Rightarrow> 'k process \<Rightarrow> 'k process res" where
  "construct_loop ctl k0 alloc t a p =
     (case gettid t p of (tid, p1) \<Rightarrow>
      rbind (new_poll alloc p1) (\<lambda>(epfd, p2).
      case open_fd alloc p2 of (wakeupfd, p3) \<Rightarrow>
      rbind (construct_timerq ctl alloc t tid a k0 p3) (\<lambda>(timerfd, timerChannel, k1, p4).
      if wakeupfd < 0 then Inl Aborted
      else
        rbind (assert (pr_eventloop p4 t = None)) (\<lambda>_.
        let p5 = p4\<lparr>pr_eventloop := (pr_eventloop p4)(t \<mapsto> a)\<rparr> in
        case in_thread t tid p5 of (inLoop, p6) \<Rightarrow>
        rbind (chan_do ctl inLoop (WakeChannel a) EnableRead (new_channel wakeupfd) k1) (\<lambda>(ch, k2, err).
        Inr (p6\<lparr>pr_loops := (pr_loops p6)(a \<mapsto>
               \<lparr> lo_tid = tid, lo_epfd = epfd, lo_poll = k2, lo_wakeupfd = wakeupfd, lo_channel = ch,
                 lo_timerfd = timerfd, lo_timerChannel = timerChannel \<rparr>)\<rparr>))))))"

subsection \<open>The destructor\<close>

text \<open>After the body the members go in the reverse order of their declarations: the timer queue, then the poller.\<close>

definition destroy_loop :: "nat \<Rightarrow> nat \<Rightarrow> 'k process \<Rightarrow> 'k process res" where
  "destroy_loop t a p =
     (case pr_loops p a of
        None \<Rightarrow> Inl UseAfterFree
      | Some l \<Rightarrow>
          rbind (assert (pr_eventloop p t = Some a)) (\<lambda>_.
          let p1 = close_fd (lo_wakeupfd l) (p\<lparr>pr_eventloop := (pr_eventloop p)(t := None)\<rparr>);
              p2 = close_fd (lo_epfd l) (close_fd (lo_timerfd l) p1) in
          Inr (p2\<lparr>pr_loops := (pr_loops p2)(a := None)\<rparr>)))"

text \<open>\<open>EventLoop::isInLoopThread\<close>.\<close>

definition loop_isInLoopThread :: "nat \<Rightarrow> nat \<Rightarrow> 'k process \<Rightarrow> (bool \<times> 'k process) res" where
  "loop_isInLoopThread t a p =
     (case pr_loops p a of None \<Rightarrow> Inl UseAfterFree | Some l \<Rightarrow> Inr (in_thread t (lo_tid l) p))"

text \<open>Any threads construct loops at unused addresses, ask and destroy them.\<close>

inductive lives ::
  "('k, loop_channel) epoll_ctl \<Rightarrow> 'k \<Rightarrow> (int list \<Rightarrow> int) \<Rightarrow> 'k process \<Rightarrow> bool"
  for ctl :: "('k, loop_channel) epoll_ctl" and k0 :: 'k and alloc :: "int list \<Rightarrow> int" where
  begins: "lives ctl k0 alloc new_process"
| constructed: "lives ctl k0 alloc p \<Longrightarrow> 0 < t \<Longrightarrow> pr_loops p a = None \<Longrightarrow>
    construct_loop ctl k0 alloc t a p = Inr p' \<Longrightarrow> lives ctl k0 alloc p'"
| asked: "lives ctl k0 alloc p \<Longrightarrow> 0 < t \<Longrightarrow> loop_isInLoopThread t a p = Inr (b, p') \<Longrightarrow> lives ctl k0 alloc p'"
| destroyed: "lives ctl k0 alloc p \<Longrightarrow> 0 < t \<Longrightarrow> destroy_loop t a p = Inr p' \<Longrightarrow> lives ctl k0 alloc p'"


subsection \<open>What the kernel promises\<close>

definition EBADF :: int where
  "EBADF = 9"

text \<open>\<open>epoll_ctl(2)\<close> on descriptors that are open or -1, and the choice of a free descriptor.\<close>

locale epoll_fds =
  fixes ctl :: "('k, 'p) epoll_ctl" and interest :: "'k \<Rightarrow> 'p interest_list"
  assumes add_open: "0 \<le> fd \<Longrightarrow> interest k fd = None \<Longrightarrow>
      \<exists>k'. ctl CtlAdd fd ev k = Inr k' \<and> interest k' = (interest k)(fd \<mapsto> ev)"
    and add_bad: "fd < 0 \<Longrightarrow> ctl CtlAdd fd ev k = Inl EBADF"
begin

lemma enable_new:
  assumes "interest k fd = None"
  obtains k' err where "chan_do ctl True self EnableRead (new_channel fd) k
       = Inr ((new_channel fd)\<lparr>ch_events := EPOLLIN OR EPOLLPRI, ch_state := kAdded\<rparr>, k', err)"
    and "interest k' = (if fd < 0 then interest k else (interest k)(fd \<mapsto> (EPOLLIN OR EPOLLPRI, self)))"
proof -
  have "\<not> isNoEvent ((new_channel fd)\<lparr>ch_events := EPOLLIN OR EPOLLPRI\<rparr>)"
    by (simp add: isNoEvent_def epoll_consts)
  then show ?thesis
    using that add_bad [of fd "(EPOLLIN OR EPOLLPRI, self)" k] add_open [OF _ assms, of "(EPOLLIN OR EPOLLPRI, self)"]
    by (cases "fd < 0") (auto simp: chan_do_update mask_after_def new_channel_def updateChannel_def poll_update_def Let_def)
qed

end

text \<open>The interest list of \<open>Channel\<close>, for open descriptors.\<close>

definition epoll_fd_ref :: "('p interest_list, 'p) epoll_ctl" where
  "epoll_fd_ref op fd ev k = (if fd < 0 then Inl EBADF else epoll_ref op fd ev k)"

interpretation efd: epoll_fds epoll_fd_ref "\<lambda>k. k"
  by unfold_locales (auto simp: epoll_fd_ref_def epoll_ref_def)

definition fd_law :: "(int list \<Rightarrow> int) \<Rightarrow> bool" where
  "fd_law alloc \<longleftrightarrow> (\<forall>ds. alloc ds = -1 \<or> 0 \<le> alloc ds \<and> alloc ds \<notin> set ds)"

lemma open_fd_cases:
  assumes "fd_law alloc" and "open_fd alloc p = (fd, p')"
  obtains "fd = -1" and "p' = p"
  | "0 \<le> fd" and "fd \<notin> set (pr_open p)" and "p' = p\<lparr>pr_open := fd # pr_open p\<rparr>"
proof -
  have fd: "fd = alloc (pr_open p)" and p': "p' = (if fd < 0 then p else p\<lparr>pr_open := fd # pr_open p\<rparr>)"
    using assms(2) by (auto simp: open_fd_def Let_def)
  have "fd = -1 \<or> 0 \<le> fd \<and> fd \<notin> set (pr_open p)" using assms(1) fd by (simp add: fd_law_def)
  with p' that show ?thesis by auto
qed

subsection \<open>The invariant\<close>

text \<open>The descriptors of a loop, and what its poller watches.\<close>

definition loop_fds :: "'k loop_obj \<Rightarrow> int list" where
  "loop_fds l = (if lo_timerfd l < 0 then [] else [lo_timerfd l]) @ [lo_wakeupfd l, lo_epfd l]"

definition watched :: "('k \<Rightarrow> loop_channel interest_list) \<Rightarrow> nat \<Rightarrow> 'k loop_obj \<Rightarrow> bool" where
  "watched interest a l \<longleftrightarrow>
     interest (lo_poll l) =
       (let timer = (if lo_timerfd l < 0 then Map.empty
                     else [lo_timerfd l \<mapsto> (EPOLLIN OR EPOLLPRI, TimerChannel a)])
        in timer(lo_wakeupfd l \<mapsto> (EPOLLIN OR EPOLLPRI, WakeChannel a)))"

definition process_ok :: "('k \<Rightarrow> loop_channel interest_list) \<Rightarrow> 'k process \<Rightarrow> bool" where
  "process_ok interest p \<longleftrightarrow>
     (\<forall>t. pr_cachedTid p t = 0 \<or> pr_cachedTid p t = t) \<and>
     (\<forall>t a. pr_eventloop p t = Some a \<longleftrightarrow> (\<exists>l. pr_loops p a = Some l \<and> lo_tid l = t)) \<and>
     (\<forall>a l. pr_loops p a = Some l \<longrightarrow> watched interest a l \<and> distinct (loop_fds l)) \<and>
     (\<forall>a b l m. pr_loops p a = Some l \<longrightarrow> pr_loops p b = Some m \<longrightarrow> a \<noteq> b \<longrightarrow>
        set (loop_fds l) \<inter> set (loop_fds m) = {}) \<and>
     distinct (pr_open p) \<and> (\<forall>fd \<in> set (pr_open p). 0 \<le> fd) \<and>
     (\<forall>fd. fd \<in> set (pr_open p) \<longleftrightarrow> (\<exists>a l. pr_loops p a = Some l \<and> fd \<in> set (loop_fds l)))"

lemma process_okD:
  assumes "process_ok interest p"
  shows "pr_cachedTid p t = 0 \<or> pr_cachedTid p t = t"
    and "pr_eventloop p t = Some a \<longleftrightarrow> (\<exists>l. pr_loops p a = Some l \<and> lo_tid l = t)"
    and "pr_loops p a = Some l \<Longrightarrow> watched interest a l \<and> distinct (loop_fds l)"
    and "pr_loops p a = Some l \<Longrightarrow> pr_loops p b = Some m \<Longrightarrow> a \<noteq> b \<Longrightarrow> set (loop_fds l) \<inter> set (loop_fds m) = {}"
    and "distinct (pr_open p)" and "\<forall>fd \<in> set (pr_open p). 0 \<le> fd"
    and "fd \<in> set (pr_open p) \<longleftrightarrow> (\<exists>a l. pr_loops p a = Some l \<and> fd \<in> set (loop_fds l))"
  using assms unfolding process_ok_def by blast+

text \<open>What the constructor needs of the process, which may have other open descriptors than those of its loops.\<close>

definition fds_ok :: "'k process \<Rightarrow> bool" where
  "fds_ok p \<longleftrightarrow> (\<forall>t. pr_cachedTid p t = 0 \<or> pr_cachedTid p t = t) \<and> distinct (pr_open p) \<and> (\<forall>fd \<in> set (pr_open p). 0 \<le> fd)"

lemma process_ok_fds: "process_ok interest p \<Longrightarrow> fds_ok p"
  unfolding process_ok_def fds_ok_def by blast

lemma gettid_value:
  assumes "fds_ok p"
  shows "gettid t p = (t, p\<lparr>pr_cachedTid := (pr_cachedTid p)(t := t)\<rparr>)"
proof -
  have "pr_cachedTid p t = 0 \<or> pr_cachedTid p t = t" using assms by (simp add: fds_ok_def)
  then show ?thesis by (auto simp: gettid_def fun_upd_idem)
qed

lemmas gettid_ok = gettid_value [OF process_ok_fds]

lemma gettid_again [simp]:
  "pr_cachedTid p t = t \<Longrightarrow> gettid t p = (t, p)"
  by (auto simp: gettid_def Let_def fun_upd_idem)

lemma new_process_ok: "process_ok interest new_process"
  by (simp add: process_ok_def new_process_def)

lemma cached_ok:
  "process_ok interest p \<Longrightarrow> process_ok interest (p\<lparr>pr_cachedTid := (pr_cachedTid p)(t := t)\<rparr>)"
  by (simp add: process_ok_def)

lemma in_thread_ok:
  "process_ok interest p \<Longrightarrow> in_thread t tid p = (b, p') \<Longrightarrow> process_ok interest p' \<and> (b \<longleftrightarrow> t = tid)"
  by (auto simp: in_thread_def gettid_ok cached_ok)


subsection \<open>The constructor\<close>

text \<open>What a constructor that returns has done.\<close>

lemma construct_timerq_ok:
  assumes "epoll_fds ctl interest" and "fd_law alloc" and "pr_cachedTid p t = t" and "interest k = Map.empty"
    and "construct_timerq ctl alloc t tid a k p = Inr (timerfd, ch, k1, p1)"
  shows "t = tid" and "p1 = (if timerfd < 0 then p else p\<lparr>pr_open := timerfd # pr_open p\<rparr>)"
    and "timerfd < 0 \<or> timerfd \<notin> set (pr_open p)"
    and "interest k1 = (if timerfd < 0 then Map.empty else [timerfd \<mapsto> (EPOLLIN OR EPOLLPRI, TimerChannel a)])"
proof -
  obtain fd p0 where fd: "open_fd alloc p = (fd, p0)" by (cases "open_fd alloc p")
  have p0: "pr_cachedTid p0 t = t" "p0 = (if fd < 0 then p else p\<lparr>pr_open := fd # pr_open p\<rparr>)"
    "fd < 0 \<or> fd \<notin> set (pr_open p)"
    by (rule open_fd_cases [OF assms(2) fd]; simp add: assms(3))+
  then have "in_thread t tid p0 = (t = tid, p0)" by (simp add: in_thread_def)
  then have run: "rbind (assert (t = tid)) (\<lambda>_.
      rbind (chan_do ctl (t = tid) (TimerChannel a) EnableRead (new_channel fd) k) (\<lambda>(ch, k1, err).
      Inr (fd, ch, k1, p0))) = Inr (timerfd, ch, k1, p1)"
    using assms(5) by (simp add: construct_timerq_def fd)
  then have t: "t = tid" by (cases "t = tid") simp_all
  obtain ch' k' err where
    on: "chan_do ctl True (TimerChannel a) EnableRead (new_channel fd) k = Inr (ch', k', err)"
    using epoll_fds.enable_new [OF assms(1), of k fd "TimerChannel a"] assms(4) by metis
  have reg: "chan_do ctl True (TimerChannel a) EnableRead (new_channel fd) k = Inr (ch, k1, err)"
    and out: "timerfd = fd" "p1 = p0"
    using run t on by simp_all
  from epoll_fds.enable_new [OF assms(1), of k fd "TimerChannel a"] assms(4) reg have
    "interest k1 = (if fd < 0 then Map.empty else [fd \<mapsto> (EPOLLIN OR EPOLLPRI, TimerChannel a)])"
    by (metis (no_types, lifting) Inr_inject prod.inject)
  with t p0 out show "t = tid" and "p1 = (if timerfd < 0 then p else p\<lparr>pr_open := timerfd # pr_open p\<rparr>)"
    and "timerfd < 0 \<or> timerfd \<notin> set (pr_open p)"
    and "interest k1 = (if timerfd < 0 then Map.empty else [timerfd \<mapsto> (EPOLLIN OR EPOLLPRI, TimerChannel a)])"
    by simp_all
qed

lemma construct_loop_ok:
  assumes "epoll_fds ctl interest" and "fd_law alloc" and "fds_ok p" and "interest k0 = Map.empty"
    and "construct_loop ctl k0 alloc t a p = Inr p'"
  obtains l where "pr_eventloop p t = None" and "lo_tid l = t" and "watched interest a l"
    and "distinct (loop_fds l @ pr_open p)" and "\<forall>fd \<in> set (loop_fds l). 0 \<le> fd"
    and "p' = p\<lparr>pr_cachedTid := (pr_cachedTid p)(t := t), pr_eventloop := (pr_eventloop p)(t \<mapsto> a),
               pr_loops := (pr_loops p)(a \<mapsto> l), pr_open := loop_fds l @ pr_open p\<rparr>"
proof -
  let ?p1 = "p\<lparr>pr_cachedTid := (pr_cachedTid p)(t := t)\<rparr>"
  note tid = gettid_value [OF assms(3), of t]
  obtain epfd p2 where e: "open_fd alloc ?p1 = (epfd, p2)" by (cases "open_fd alloc ?p1")
  from assms(5) e have "epfd \<noteq> -1" by (auto simp: construct_loop_def tid new_poll_def)
  with open_fd_cases [OF assms(2) e] have e2: "0 \<le> epfd" "epfd \<notin> set (pr_open p)"
    "p2 = ?p1\<lparr>pr_open := epfd # pr_open p\<rparr>" by auto
  obtain w p3 where w: "open_fd alloc p2 = (w, p3)" by (cases "open_fd alloc p2")
  let ?finish = "\<lambda>(timerfd, timerChannel, k1, p4).
      if w < 0 then Inl Aborted
      else rbind (assert (pr_eventloop p4 t = None)) (\<lambda>_.
        case in_thread t t (p4\<lparr>pr_eventloop := (pr_eventloop p4)(t \<mapsto> a)\<rparr>) of (inLoop, p6) \<Rightarrow>
        rbind (chan_do ctl inLoop (WakeChannel a) EnableRead (new_channel w) k1) (\<lambda>(ch, k2, err).
        Inr (p6\<lparr>pr_loops := (pr_loops p6)(a \<mapsto>
               \<lparr> lo_tid = t, lo_epfd = epfd, lo_poll = k2, lo_wakeupfd = w, lo_channel = ch,
                 lo_timerfd = timerfd, lo_timerChannel = timerChannel \<rparr>)\<rparr>)))"
  have run: "rbind (construct_timerq ctl alloc t t a k0 p3) ?finish = Inr p'"
    using assms(5) e w \<open>epfd \<noteq> -1\<close> unfolding construct_loop_def Let_def by (simp add: tid new_poll_def)
  then obtain timerfd tch k1 p4 where
    tq: "construct_timerq ctl alloc t t a k0 p3 = Inr (timerfd, tch, k1, p4)"
    by (cases "construct_timerq ctl alloc t t a k0 p3") auto
  with run have "?finish (timerfd, tch, k1, p4) = Inr p'" by simp
  then have w0: "\<not> w < 0" and slot: "pr_eventloop p4 t = None"
    and rest: "(case in_thread t t (p4\<lparr>pr_eventloop := (pr_eventloop p4)(t \<mapsto> a)\<rparr>) of (inLoop, p6) \<Rightarrow>
        rbind (chan_do ctl inLoop (WakeChannel a) EnableRead (new_channel w) k1) (\<lambda>(ch, k2, err).
        Inr (p6\<lparr>pr_loops := (pr_loops p6)(a \<mapsto>
               \<lparr> lo_tid = t, lo_epfd = epfd, lo_poll = k2, lo_wakeupfd = w, lo_channel = ch,
                 lo_timerfd = timerfd, lo_timerChannel = tch \<rparr>)\<rparr>))) = Inr p'"
    by (simp_all split: if_splits add: check_def)
  have w2: "w \<notin> set (pr_open p2)" "p3 = p2\<lparr>pr_open := w # pr_open p2\<rparr>"
    by (rule open_fd_cases [OF assms(2) w]; use w0 in simp)+
  have c3: "pr_cachedTid p3 t = t" by (simp add: w2 e2)
  note q = construct_timerq_ok [OF assms(1,2) c3 assms(4) tq]
  let ?p5 = "p4\<lparr>pr_eventloop := (pr_eventloop p4)(t \<mapsto> a)\<rparr>"
  have "in_thread t t ?p5 = (True, ?p5)" using c3 by (simp add: in_thread_def q(2))
  with rest obtain ch k2 err where
    reg: "chan_do ctl True (WakeChannel a) EnableRead (new_channel w) k1 = Inr (ch, k2, err)"
    and p': "p' = ?p5\<lparr>pr_loops := (pr_loops p4)(a \<mapsto>
               \<lparr> lo_tid = t, lo_epfd = epfd, lo_poll = k2, lo_wakeupfd = w, lo_channel = ch,
                 lo_timerfd = timerfd, lo_timerChannel = tch \<rparr>)\<rparr>"
    by (auto simp: res_simps)
  let ?l = "\<lparr> lo_tid = t, lo_epfd = epfd, lo_poll = k2, lo_wakeupfd = w, lo_channel = ch,
                 lo_timerfd = timerfd, lo_timerChannel = tch \<rparr>"
  have "interest k1 w = None" using q(3,4) by (auto simp: w2(2))
  from epoll_fds.enable_new [OF assms(1) this, of "WakeChannel a"] reg w0 have
    k2: "interest k2 = (interest k1)(w \<mapsto> (EPOLLIN OR EPOLLPRI, WakeChannel a))"
    by (metis (no_types, lifting) Inr_inject prod.inject)
  have "pr_eventloop p t = None" using slot by (simp add: q(2) w2(2) e2(3) split: if_splits)
  moreover have "watched interest a ?l" using k2 q(4) by (simp add: watched_def)
  moreover have "distinct (loop_fds ?l @ pr_open p)"
    using q(3) w2 e2 assms(3) by (auto simp: fds_ok_def loop_fds_def)
  moreover have "\<forall>fd \<in> set (loop_fds ?l). 0 \<le> fd" using w0 e2(1) by (simp add: loop_fds_def)
  moreover have "p' = p\<lparr>pr_cachedTid := (pr_cachedTid p)(t := t), pr_eventloop := (pr_eventloop p)(t \<mapsto> a),
               pr_loops := (pr_loops p)(a \<mapsto> ?l), pr_open := loop_fds ?l @ pr_open p\<rparr>"
    using q(2) w2(2) e2(3) by (simp add: p' loop_fds_def)
  ultimately show ?thesis by (intro that [of ?l]) simp_all
qed


text \<open>The entries of an updated map.\<close>

lemma ex_entry_add: "f a = None \<Longrightarrow> (\<exists>b m. (f(a \<mapsto> l)) b = Some m \<and> P m) \<longleftrightarrow> P l \<or> (\<exists>b m. f b = Some m \<and> P m)"
  by (metis fun_upd_apply option.distinct(1) option.inject)

lemma ex_entry_del: "(\<exists>b m. (f(a := None)) b = Some m \<and> P m) \<longleftrightarrow> (\<exists>b m. b \<noteq> a \<and> f b = Some m \<and> P m)"
  by (metis fun_upd_apply option.distinct(1))

lemma construct_keeps:
  assumes "epoll_fds ctl interest" and "fd_law alloc" and "process_ok interest p" and "interest k0 = Map.empty"
    and "pr_loops p a = None" and "construct_loop ctl k0 alloc t a p = Inr p'"
  shows "process_ok interest p'"
proof -
  from construct_loop_ok [OF assms(1,2) process_ok_fds [OF assms(3)] assms(4,6)] obtain l where l: "pr_eventloop p t = None" "lo_tid l = t"
    "watched interest a l" "distinct (loop_fds l @ pr_open p)" "\<forall>fd \<in> set (loop_fds l). 0 \<le> fd"
    and p': "p' = p\<lparr>pr_cachedTid := (pr_cachedTid p)(t := t), pr_eventloop := (pr_eventloop p)(t \<mapsto> a),
               pr_loops := (pr_loops p)(a \<mapsto> l), pr_open := loop_fds l @ pr_open p\<rparr>" .
  note ok = process_okD [OF assms(3)]
  have "pr_eventloop p' t' = Some a' \<longleftrightarrow> (\<exists>m. pr_loops p' a' = Some m \<and> lo_tid m = t')" for t' a'
    using ok(2) [of t' a'] ok(2) [of t a'] ok(2) [of t' a] l(1,2) assms(5) by (auto simp: p')
  moreover have "set (loop_fds m) \<subseteq> set (pr_open p)" if "pr_loops p b = Some m" for b m
    using ok(7) that by blast
  then have "set (loop_fds l) \<inter> set (loop_fds m) = {}" if "pr_loops p b = Some m" for b m
    using that l(4) by fastforce
  then have "set (loop_fds l1) \<inter> set (loop_fds l2) = {}"
    if "pr_loops p' b = Some l1" "pr_loops p' c = Some l2" "b \<noteq> c" for b c l1 l2
    using that ok(4) [of b l1 c l2] by (auto simp: p' split: if_splits)
  moreover have "fd \<in> set (pr_open p') \<longleftrightarrow> (\<exists>b m. pr_loops p' b = Some m \<and> fd \<in> set (loop_fds m))" for fd
    using ok(7) [of fd] by (simp add: p' ex_entry_add [where f = "pr_loops p", OF assms(5)] del: fun_upd_apply)
  ultimately show ?thesis
    unfolding process_ok_def using ok(1,3,5,6) l(3,4,5) by (auto simp: p')
qed

subsection \<open>The destructor\<close>

lemma destroy_loop_ok:
  assumes "process_ok interest p" and "pr_loops p a = Some l" and "destroy_loop t a p = Inr p'"
  shows "t = lo_tid l"
    and "p' = p\<lparr>pr_eventloop := (pr_eventloop p)(t := None), pr_loops := (pr_loops p)(a := None),
           pr_open := filter (\<lambda>fd. fd \<notin> set (loop_fds l)) (pr_open p)\<rparr>"
proof -
  note ok = process_okD [OF assms(1)]
  from assms(2,3) have t: "pr_eventloop p t = Some a"
    and p': "p' = p\<lparr>pr_eventloop := (pr_eventloop p)(t := None), pr_loops := (pr_loops p)(a := None),
       pr_open := remove1 (lo_epfd l) (remove1 (lo_timerfd l) (remove1 (lo_wakeupfd l) (pr_open p)))\<rparr>"
    by (auto simp: destroy_loop_def close_fd_def Let_def res_simps)
  show "t = lo_tid l" using t ok(2) assms(2) by auto
  have d: "distinct (pr_open p)" and "lo_timerfd l < 0 \<Longrightarrow> lo_timerfd l \<notin> set (pr_open p)"
    using ok(5,6) by auto
  then have "remove1 (lo_epfd l) (remove1 (lo_timerfd l) (remove1 (lo_wakeupfd l) (pr_open p)))
      = filter (\<lambda>fd. fd \<notin> set (loop_fds l)) (pr_open p)"
    by (auto simp: loop_fds_def distinct_remove1_removeAll removeAll_filter_not_eq intro!: filter_cong)
  with p' show "p' = p\<lparr>pr_eventloop := (pr_eventloop p)(t := None), pr_loops := (pr_loops p)(a := None),
           pr_open := filter (\<lambda>fd. fd \<notin> set (loop_fds l)) (pr_open p)\<rparr>" by simp
qed

lemma destroy_keeps:
  assumes "process_ok interest p" and "destroy_loop t a p = Inr p'"
  shows "process_ok interest p'"
proof -
  from assms(2) obtain l where l: "pr_loops p a = Some l"
    by (cases "pr_loops p a") (simp_all add: destroy_loop_def)
  note d = destroy_loop_ok [OF assms(1) l assms(2)] and ok = process_okD [OF assms(1)]
  have "pr_eventloop p' t' = Some a' \<longleftrightarrow> (\<exists>m. pr_loops p' a' = Some m \<and> lo_tid m = t')" for t' a'
    using ok(2) [of t' a'] ok(2) [of t a'] ok(2) [of t a] ok(2) [of t' a] l d(1) by (auto simp: d(2))
  moreover have "fd \<in> set (pr_open p') \<longleftrightarrow> (\<exists>b m. pr_loops p' b = Some m \<and> fd \<in> set (loop_fds m))" for fd
    using ok(7) [of fd] ok(4) [OF _ l] l by (simp add: d(2) ex_entry_del del: fun_upd_apply)
      (metis IntI empty_iff option.inject)
  moreover have "\<forall>fd \<in> set (pr_open p'). 0 \<le> fd" and "distinct (pr_open p')" using ok(5,6) by (simp_all add: d(2))
  moreover have "watched interest b m \<and> distinct (loop_fds m)" if "pr_loops p' b = Some m" for b m
    using ok(3) that by (auto simp: d(2) split: if_splits)
  moreover have "set (loop_fds m) \<inter> set (loop_fds n) = {}"
    if "pr_loops p' b = Some m" "pr_loops p' c = Some n" "b \<noteq> c" for b c m n
    using ok(4) that by (simp add: d(2) split: if_splits)
  moreover have "pr_cachedTid p' t' = 0 \<or> pr_cachedTid p' t' = t'" for t' using ok(1) by (simp add: d(2))
  ultimately show ?thesis unfolding process_ok_def by blast
qed

lemma lives_ok:
  assumes "lives ctl k0 alloc p" and "epoll_fds ctl interest" and "fd_law alloc" and "interest k0 = Map.empty"
  shows "process_ok interest p"
  using assms(1)
proof induction
  case begins
  show ?case by (rule new_process_ok)
next
  case (constructed p t a p')
  show ?case
    by (rule construct_keeps [where interest = interest, OF assms(2,3) constructed.IH assms(4) constructed.hyps(3,4)])
next
  case (asked p t a b p')
  then show ?case
    using in_thread_ok [of interest p] by (auto simp: loop_isInLoopThread_def split: option.splits)
next
  case (destroyed p t a p')
  show ?case by (rule destroy_keeps [OF destroyed.IH destroyed.hyps(3)])
qed

subsection \<open>A test\<close>

text \<open>\<open>EventLoopTest.isInloopThread\<close>: the thread \<open>t\<close> constructs a loop and asks it, another thread \<open>t2\<close> asks it,
  and the loop is destroyed at the end; the result is what the two expectations see.\<close>

definition isInloopThread_test ::
  "('k, loop_channel) epoll_ctl \<Rightarrow> 'k \<Rightarrow> (int list \<Rightarrow> int) \<Rightarrow> nat \<Rightarrow> nat \<Rightarrow> nat \<Rightarrow> 'k process \<Rightarrow>
   (bool \<times> bool \<times> 'k process) res" where
  "isInloopThread_test ctl k0 alloc t t2 a p =
     rbind (construct_loop ctl k0 alloc t a p) (\<lambda>p1.
     rbind (loop_isInLoopThread t a p1) (\<lambda>(here, p2).
     rbind (loop_isInLoopThread t2 a p2) (\<lambda>(there, p3).
     rbind (destroy_loop t a p3) (\<lambda>p4. Inr (here, there, p4)))))"

text \<open>The test passes and leaves no descriptor open, unless its constructor aborts.\<close>

lemma isInloopThread_test_passes:
  assumes "epoll_fds ctl interest" and "fd_law alloc" and "process_ok interest p" and "interest k0 = Map.empty"
    and "pr_loops p a = None" and "construct_loop ctl k0 alloc t a p = Inr p1" and "t2 \<noteq> t"
  shows "\<exists>p'. isInloopThread_test ctl k0 alloc t t2 a p = Inr (True, False, p') \<and> pr_open p' = pr_open p"
proof -
  obtain l where l: "lo_tid l = t" "distinct (loop_fds l @ pr_open p)"
    "pr_loops p1 a = Some l" "pr_open p1 = loop_fds l @ pr_open p"
    by (rule construct_loop_ok [OF assms(1,2) process_ok_fds [OF assms(3)] assms(4,6)]) simp
  have ok1: "process_ok interest p1" by (rule construct_keeps [OF assms(1-6)])
  define p2 where "p2 = p1\<lparr>pr_cachedTid := (pr_cachedTid p1)(t := t)\<rparr>"
  define p3 where "p3 = p2\<lparr>pr_cachedTid := (pr_cachedTid p2)(t2 := t2)\<rparr>"
  have ok2: "process_ok interest p2" by (simp add: p2_def cached_ok ok1)
  have ok3: "process_ok interest p3" by (simp add: p3_def cached_ok ok2)
  have ask: "loop_isInLoopThread t a p1 = Inr (True, p2)" "loop_isInLoopThread t2 a p2 = Inr (False, p3)"
    using l(1,3) assms(7) gettid_ok [OF ok1, of t] gettid_ok [OF ok2, of t2]
    by (simp_all add: loop_isInLoopThread_def in_thread_def p2_def p3_def)
  have l3: "pr_loops p3 a = Some l" "pr_open p3 = loop_fds l @ pr_open p" by (simp_all add: p3_def p2_def l(3,4))
  then have "pr_eventloop p3 t = Some a" using process_okD(2) [OF ok3, of t a] l(1) by simp
  then obtain p4 where p4: "destroy_loop t a p3 = Inr p4" using l3(1) by (simp add: destroy_loop_def Let_def)
  have "filter (\<lambda>fd. fd \<notin> set (loop_fds l)) (pr_open p) = pr_open p"
    using l(2) by (auto simp: filter_id_conv)
  then have "pr_open p4 = pr_open p" by (simp add: destroy_loop_ok(2) [OF ok3 l3(1) p4] l3(2))
  then show ?thesis using assms(6) ask p4 by (simp add: isInloopThread_test_def)
qed

subsection \<open>Properties\<close>

text \<open>C19. Loops and threads belong together.  However the threads of a process construct and destroy loops:
  a thread's \<open>t_Eventloop\<close> is exactly the loop it has constructed and not yet destroyed, so it has at
  most one, and a second constructor does not return; \<open>isInLoopThread\<close> answers whether the caller is the
  thread that constructed the loop; the loop's poller watches its wake-up descriptor and, if
  \<open>timerfd_create\<close> succeeded, its timer descriptor; the open descriptors are exactly those of the
  loops, no two of which share one; and a loop is destroyed without a failing assert by its own thread only,
  which closes all its descriptors.\<close>

theorem loop_lifetime:
  assumes "epoll_fds ctl interest" and "fd_law alloc" and "interest k0 = Map.empty"
    and "lives ctl k0 alloc p" and "pr_loops p a = Some l"
  shows "(\<forall>t. (pr_eventloop p t = Some a \<longleftrightarrow> t = lo_tid l) \<and>
       (\<exists>p'. loop_isInLoopThread t a p = Inr (t = lo_tid l, p')) \<and>
       (destroy_loop t a p = Inl AssertFail \<longleftrightarrow> t \<noteq> lo_tid l)) \<and>
     (\<forall>b. \<exists>e. construct_loop ctl k0 alloc (lo_tid l) b p = Inl e) \<and>
     watched interest a l \<and> distinct (pr_open p) \<and>
     set (pr_open p) = (\<Union>m \<in> ran (pr_loops p). set (loop_fds m)) \<and>
     (\<forall>b m. b \<noteq> a \<longrightarrow> pr_loops p b = Some m \<longrightarrow> set (loop_fds l) \<inter> set (loop_fds m) = {}) \<and>
     (\<exists>p'. destroy_loop (lo_tid l) a p = Inr p' \<and> pr_loops p' = (pr_loops p)(a := None) \<and>
        set (pr_open p') = set (pr_open p) - set (loop_fds l))"
proof -
  have st: "process_ok interest p" by (rule lives_ok [OF assms(4,1-3)])
  note ok = process_okD [OF st]
  have slot: "pr_eventloop p t = Some a \<longleftrightarrow> t = lo_tid l" for t using ok(2) [of t a] assms(5) by auto
  have ask: "\<exists>p'. loop_isInLoopThread t a p = Inr (t = lo_tid l, p')" for t
    using assms(5) gettid_ok [OF st, of t] by (simp add: loop_isInLoopThread_def in_thread_def)
  obtain p' where p': "destroy_loop (lo_tid l) a p = Inr p'"
    using assms(5) slot [of "lo_tid l"] by (simp add: destroy_loop_def Let_def)
  have off: "destroy_loop t a p = Inl AssertFail \<longleftrightarrow> t \<noteq> lo_tid l" for t
    using p' assms(5) slot [of t] by (auto simp: destroy_loop_def)
  have again: "\<exists>e. construct_loop ctl k0 alloc (lo_tid l) b p = Inl e" for b
  proof (cases "construct_loop ctl k0 alloc (lo_tid l) b p")
    case (Inr q)
    have "pr_eventloop p (lo_tid l) = None"
      by (rule construct_loop_ok [OF assms(1,2) process_ok_fds [OF st] assms(3) Inr])
    with slot [of "lo_tid l"] show ?thesis by simp
  qed simp
  note d = destroy_loop_ok [OF st assms(5) p']
  have gone: "pr_loops p' = (pr_loops p)(a := None)" "set (pr_open p') = set (pr_open p) - set (loop_fds l)"
    by (auto simp: d(2))
  have fds: "set (pr_open p) = (\<Union>m \<in> ran (pr_loops p). set (loop_fds m))"
    by (rule set_eqI) (simp only: ok(7) ran_def, blast)
  have apart: "\<forall>b m. b \<noteq> a \<longrightarrow> pr_loops p b = Some m \<longrightarrow> set (loop_fds l) \<inter> set (loop_fds m) = {}"
    using ok(4) [OF assms(5)] by blast
  show ?thesis
    using slot ask off again p' gone fds apart ok(3) [OF assms(5)] ok(5) by blast
qed

text \<open>A program with a loop in each of two threads.\<close>

definition next_fd :: "int list \<Rightarrow> int" where
  "next_fd ds = foldr max ds 2 + 1"

lemma next_fd_law: "fd_law next_fd"
proof -
  have above: "(\<forall>d \<in> set ds. d < next_fd ds) \<and> 2 < next_fd ds" for ds
    by (induction ds) (auto simp: next_fd_def)
  have "0 \<le> next_fd ds \<and> next_fd ds \<notin> set ds" for ds using above [of ds] by auto
  then show ?thesis by (simp add: fd_law_def)
qed

lemmas lifetime_simps = construct_loop_def gettid_def new_poll_def open_fd_def construct_timerq_def in_thread_def
  chan_do_update updateChannel_def isNoEvent_def mask_after_def poll_update_def epoll_fd_ref_def epoll_ref_def
  new_channel_def next_fd_def Let_def

definition demo_loop :: "nat \<Rightarrow> nat \<Rightarrow> int \<Rightarrow> loop_channel interest_list loop_obj" where
  "demo_loop t a fd =
     \<lparr> lo_tid = t, lo_epfd = fd,
       lo_poll = [fd + 2 \<mapsto> (EPOLLIN OR EPOLLPRI, TimerChannel a), fd + 1 \<mapsto> (EPOLLIN OR EPOLLPRI, WakeChannel a)],
       lo_wakeupfd = fd + 1,
       lo_channel = (new_channel (fd + 1))\<lparr>ch_events := EPOLLIN OR EPOLLPRI, ch_state := kAdded\<rparr>,
       lo_timerfd = fd + 2,
       lo_timerChannel = (new_channel (fd + 2))\<lparr>ch_events := EPOLLIN OR EPOLLPRI, ch_state := kAdded\<rparr> \<rparr>"

definition one_loop :: "loop_channel interest_list process" where
  "one_loop = \<lparr> pr_cachedTid = (\<lambda>_. 0)(10 := 10), pr_eventloop = [10 \<mapsto> 100],
     pr_loops = [100 \<mapsto> demo_loop 10 100 3], pr_open = [5, 4, 3] \<rparr>"

definition two_loops :: "loop_channel interest_list process" where
  "two_loops = \<lparr> pr_cachedTid = (\<lambda>_. 0)(10 := 10, 11 := 11), pr_eventloop = [10 \<mapsto> 100, 11 \<mapsto> 200],
     pr_loops = [100 \<mapsto> demo_loop 10 100 3, 200 \<mapsto> demo_loop 11 200 6], pr_open = [8, 7, 6, 5, 4, 3] \<rparr>"

lemma EPOLLIN_PRI_nonzero: "EPOLLIN OR EPOLLPRI \<noteq> 0"
  by (simp add: epoll_consts)

lemma construct_one: "construct_loop epoll_fd_ref Map.empty next_fd 10 100 new_process = Inr one_loop"
  by (simp add: lifetime_simps new_process_def one_loop_def demo_loop_def EPOLLIN_PRI_nonzero)

lemma construct_two: "construct_loop epoll_fd_ref Map.empty next_fd 11 200 one_loop = Inr two_loops"
  by (simp add: lifetime_simps one_loop_def two_loops_def demo_loop_def EPOLLIN_PRI_nonzero)

theorem loop_lifetime_witness:
  "construct_loop epoll_fd_ref Map.empty next_fd 10 100 new_process = Inr one_loop \<and>
   construct_loop epoll_fd_ref Map.empty next_fd 11 200 one_loop = Inr two_loops \<and>
   destroy_loop 11 100 two_loops = Inl AssertFail \<and>
   (\<exists>e. construct_loop epoll_fd_ref Map.empty next_fd 10 300 two_loops = Inl e) \<and>
   (\<exists>p. destroy_loop 10 100 two_loops = Inr p \<and> set (pr_open p) = {6, 7, 8})"
proof -
  have one: "lives epoll_fd_ref Map.empty next_fd one_loop"
    by (rule constructed [OF begins _ _ construct_one]) (simp_all add: new_process_def)
  have two: "lives epoll_fd_ref Map.empty next_fd two_loops"
    by (rule constructed [OF one _ _ construct_two]) (simp_all add: one_loop_def)
  have l: "pr_loops two_loops 100 = Some (demo_loop 10 100 3)" by (simp add: two_loops_def)
  have "set (pr_open two_loops) - set (loop_fds (demo_loop 10 100 3)) = {6, 7, 8}"
    by (auto simp: two_loops_def loop_fds_def demo_loop_def)
  moreover have "lo_tid (demo_loop 10 100 3) = 10" by (simp add: demo_loop_def)
  ultimately show ?thesis
    using loop_lifetime [OF efd.epoll_fds_axioms next_fd_law refl two l] construct_one construct_two by auto
qed

end
