(* ===== verification/WebServer.thy ===== *)
theory WebServer
  imports HttpServer
begin

text \<open>
  \<open>example/WebServer/WebServer.cpp\<close>: the handler that serves files below a directory.  The
  file system is the record \<open>fs\<close>: \<open>fstatat\<close> and \<open>openat\<close> relative to the directory, on a C
  string (a path is cut at its first zero byte).  \<open>onRequest\<close> is a handler as \<open>HttpServer\<close>
  takes it; \<open>setSendFd\<close> is a function on the connection's state.
\<close>

subsection \<open>Strings\<close>

text \<open>\<open>std::string::rfind(c)\<close>, \<open>substr(pos)\<close> and \<open>c_str()\<close>.\<close>

fun str_rfind :: "char \<Rightarrow> string \<Rightarrow> nat option" where
  "str_rfind c [] = None"
| "str_rfind c (x # xs) =
     (case str_rfind c xs of Some i \<Rightarrow> Some (Suc i) | None \<Rightarrow> if x = c then Some 0 else None)"

definition str_substr :: "nat \<Rightarrow> string \<Rightarrow> string res" where
  "str_substr pos s = (if pos \<le> length s then Inr (drop pos s) else Inl OutOfRange)"

definition cstr :: "string \<Rightarrow> string" where
  "cstr s = takeWhile (\<lambda>c. c \<noteq> CHR 0x00) s"

subsection \<open>The server\<close>

definition S_IFDIR :: "32 word" where "S_IFDIR = 0x4000"

record file_stat =
  st_mode :: "32 word"
  st_size :: int

record fs =
  fs_fstatat :: "string \<Rightarrow> file_stat option"
  fs_openat :: "string \<Rightarrow> int"

record location =
  rootPath :: string
  dirfd :: int
  indexs :: "string list"

record web_server =
  ws_location :: location
  ws_contentTypes :: "(string \<times> string) list"

definition default_types :: "(string \<times> string) list" where
  "default_types =
     [(''html'', ''text/html; charset=utf-8''), (''txt'', ''text/plain; charset=utf-8''),
      (''xml'', ''text/xml''), (''asp'', ''text/asp''), (''css'', ''text/css''), (''gif'', ''image/gif''),
      (''ico'', ''image/x-icon''), (''png'', ''image/png''), (''jpg'', ''image/jpeg''),
      (''js'', ''application/javascript''), (''pdf'', ''application/pdf'')]"

text \<open>
  The constructor: \<open>open_dir\<close> is \<open>open\<close> of a directory, which may add a descriptor to the state \<open>'o\<close> of the
  process; without the directory the program exits.
\<close>

definition new_webserver :: "(string \<Rightarrow> 'o \<Rightarrow> int \<times> 'o) \<Rightarrow> 'o \<Rightarrow> (web_server \<times> 'o) res" where
  "new_webserver open_dir o1 =
     (let root = ''/mnt/e/bloghexo/blog/public'' in
      case open_dir root o1 of (fd, o2) \<Rightarrow>
        let loc = \<lparr> rootPath = root, dirfd = fd, indexs = [''index.html'', ''index.htm''] \<rparr> in
        if dirfd loc = -1 then Inl Aborted
        else Inr (\<lparr> ws_location = loc,
                    ws_contentTypes = fold (\<lambda>(k, v). smap_update k v) default_types [] \<rparr>, o2))"

text \<open>The loop over the index files of a directory: the first one that exists.\<close>

fun find_index :: "fs \<Rightarrow> string \<Rightarrow> string list \<Rightarrow> (string \<times> file_stat) option" where
  "find_index fs path [] = None"
| "find_index fs path (i # is) =
     (case fs_fstatat fs (cstr (path @ i)) of
        Some stats \<Rightarrow> Some (path @ i, stats)
      | None \<Rightarrow> find_index fs path is)"

definition suffix_of :: "string \<Rightarrow> string res" where
  "suffix_of path = (case str_rfind (CHR ''.'') path of None \<Rightarrow> Inr [] | Some pos \<Rightarrow> str_substr pos path)"

text \<open>The end of \<open>onRequest\<close>, once the file is known.\<close>

definition serve_file ::
  "web_server \<Rightarrow> fs \<Rightarrow> (int \<Rightarrow> int \<Rightarrow> 's \<Rightarrow> 's) \<Rightarrow> string \<Rightarrow> string \<Rightarrow> file_stat \<Rightarrow> http_response \<Rightarrow> 's \<Rightarrow>
   (http_response \<times> 's) res" where
  "serve_file ws fs send_fd path sfx stats rsp s =
     (let fd = fs_openat fs (cstr path);
          s1 = send_fd fd (st_size stats) s;
          rsp1 = setBodyLen (nat (st_size stats mod 2 ^ 64)) rsp in
      rbind (str_substr 1 sfx) (\<lambda>ext.
      Inr (case map_of (ws_contentTypes ws) ext of
             Some ty \<Rightarrow> (setContentType ty rsp1, s1)
           | None \<Rightarrow> (rsp1, s1))))"

definition web_onRequest ::
  "web_server \<Rightarrow> fs \<Rightarrow> (int \<Rightarrow> int \<Rightarrow> 's \<Rightarrow> 's) \<Rightarrow> http_request \<Rightarrow> http_response \<Rightarrow> 's \<Rightarrow>
   (http_response \<times> 's) res" where
  "web_onRequest ws fs send_fd req rsp s =
     rbind (suffix_of (rq_path req)) (\<lambda>sfx.
     rbind (if length (rq_path req) = 1 then Inr ''./'' else str_substr 1 (rq_path req)) (\<lambda>path.
     case fs_fstatat fs (cstr path) of
       None \<Rightarrow> Inr (setStatusCode k404NotFound rsp, s)
     | Some stats \<Rightarrow>
         if st_mode stats AND S_IFDIR \<noteq> 0 then
           rbind (check (path \<noteq> []) OutOfBounds) (\<lambda>_.
           let dir = (if last path \<noteq> CHR ''/'' then path @ ''/'' else path) in
           case find_index fs dir (indexs (ws_location ws)) of
             None \<Rightarrow> Inr (setStatusCode k404NotFound rsp, s)
           | Some (pathPre, stats') \<Rightarrow>
               (case str_rfind (CHR ''.'') pathPre of
                  Some pos \<Rightarrow> rbind (str_substr pos pathPre) (\<lambda>sfx'.
                      serve_file ws fs send_fd pathPre sfx' stats' rsp s)
                | None \<Rightarrow> serve_file ws fs send_fd dir sfx stats' rsp s))
         else serve_file ws fs send_fd path sfx stats rsp s))"

text \<open>\<open>errProcess\<close>, with the four \<open>sprintf\<close>s into an array of 256 bytes, whose former content is
  \<open>body\<close>.  It is not installed by the constructor.\<close>

definition err_lines :: "string list" where
  "err_lines =
     [''<html><head><title>404 hello</title></head>'' @ [CHR 0x0A],
      ''<body bgcolor='' @ [CHR 0x22] @ ''#cc99cc'' @ [CHR 0x22] @ ''><h4>404 web</h4>'' @ [CHR 0x0A],
      ''hahahah'' @ [CHR 0x0A],
      ''<hr>'' @ [CHR 0x0A] @ ''</body>'' @ [CHR 0x0A] @ ''</html>'' @ [CHR 0x0A]]"

fun put_lines :: "string list \<Rightarrow> nat \<Rightarrow> char list \<Rightarrow> char list res" where
  "put_lines [] dataLen body = Inr body"
| "put_lines (l # ls) dataLen body =
     rbind (mem_write dataLen (l @ [CHR 0x00]) body) (put_lines ls (dataLen + length l))"

definition errProcess :: "char list \<Rightarrow> http_response \<Rightarrow> http_response res" where
  "errProcess body rsp =
     rbind (put_lines err_lines 0 body) (\<lambda>b.
     Inr (appendBody (cstr b) (setContentType ''text/html'' rsp)))"

subsection \<open>What a request is answered with\<close>

text \<open>The text behind the last dot.\<close>

definition ext_of :: "string \<Rightarrow> string" where
  "ext_of s = rev (takeWhile (\<lambda>c. c \<noteq> CHR ''.'') (rev s))"

lemma str_rfind_None: "str_rfind c s = None \<longleftrightarrow> c \<notin> set s"
  by (induction s) (auto split: option.splits)

lemma str_rfind_Some: "str_rfind c s = Some i \<Longrightarrow> i < length s \<and> s ! i = c \<and> c \<notin> set (drop (Suc i) s)"
proof (induction s arbitrary: i)
  case (Cons x xs)
  then show ?case
    using str_rfind_None [of c xs] by (auto split: option.splits if_splits)
qed simp

lemma ext_of_split:
  assumes "s = a @ CHR ''.'' # e" and "CHR ''.'' \<notin> set e"
  shows "ext_of s = e"
proof -
  have "takeWhile (\<lambda>c. c \<noteq> CHR ''.'') (rev e @ CHR ''.'' # rev a) = rev e"
    using assms(2) by (subst takeWhile_append2) auto
  then show ?thesis by (simp add: ext_of_def assms(1))
qed

lemma suffix_ext:
  assumes "str_rfind (CHR ''.'') s = Some pos"
  shows "str_substr pos s = Inr (CHR ''.'' # ext_of s)"
proof -
  note i = str_rfind_Some [OF assms]
  then have s: "s = take pos s @ CHR ''.'' # drop (Suc pos) s" by (metis id_take_nth_drop)
  then have "ext_of s = drop (Suc pos) s" using i by (intro ext_of_split) auto
  moreover have "drop pos s = CHR ''.'' # drop (Suc pos) s" using i by (metis Cons_nth_drop_Suc)
  ultimately show ?thesis using i by (simp add: str_substr_def)
qed

lemma suffix_of_eq: "suffix_of s = Inr (if CHR ''.'' \<in> set s then CHR ''.'' # ext_of s else [])"
  using str_rfind_None [of "CHR ''.''" s] suffix_ext [of s]
  by (auto simp: suffix_of_def split: option.split)

text \<open>The file a path names: itself, or for a directory its first index file; and the name whose
  extension decides on the content type.\<close>

definition web_target :: "web_server \<Rightarrow> fs \<Rightarrow> string \<Rightarrow> (string \<times> string \<times> file_stat) option" where
  "web_target ws fs p =
     (let path = (if length p = 1 then ''./'' else tl p) in
      case fs_fstatat fs (cstr path) of
        None \<Rightarrow> None
      | Some stats \<Rightarrow>
          if st_mode stats AND S_IFDIR \<noteq> 0
          then map_option (\<lambda>(f, st). (f, f, st))
                 (find_index fs (if last path \<noteq> CHR ''/'' then path @ ''/'' else path) (indexs (ws_location ws)))
          else Some (path, p, stats))"

definition served :: "web_server \<Rightarrow> string \<Rightarrow> file_stat \<Rightarrow> http_response \<Rightarrow> http_response" where
  "served ws name stats rsp =
     (let rsp1 = setBodyLen (nat (st_size stats mod 2 ^ 64)) rsp in
      case map_of (ws_contentTypes ws) (ext_of name) of
        Some ty \<Rightarrow> setContentType ty rsp1 | None \<Rightarrow> rsp1)"

lemma serve_file_eq:
  "serve_file ws fs send_fd path (if d then CHR ''.'' # ext_of name else []) stats rsp s =
     (if d then Inr (served ws name stats rsp, send_fd (fs_openat fs (cstr path)) (st_size stats) s)
      else Inl OutOfRange)"
  by (simp add: serve_file_def served_def str_substr_def Let_def split: option.split)

lemma serve_file_suffix:
  "serve_file ws fs send_fd path (CHR ''.'' # ext_of name) stats rsp s =
     Inr (served ws name stats rsp, send_fd (fs_openat fs (cstr path)) (st_size stats) s)"
  using serve_file_eq [where d = True] by simp

lemma serve_file_empty: "serve_file ws fs send_fd path [] stats rsp s = Inl OutOfRange"
  using serve_file_eq [where d = False] by simp

lemma find_index_dot:
  assumes "find_index fs path is = Some (f, st)" and "\<forall>i \<in> set is. CHR ''.'' \<in> set i"
  shows "CHR ''.'' \<in> set f"
  using assms by (induction fs path "is" rule: find_index.induct) (auto split: option.splits)

lemma web_answers_eq:
  assumes "rq_path req \<noteq> []" and "\<forall>i \<in> set (indexs (ws_location ws)). CHR ''.'' \<in> set i"
  shows "web_onRequest ws fs send_fd req rsp s =
     (case web_target ws fs (rq_path req) of
        None \<Rightarrow> Inr (setStatusCode k404NotFound rsp, s)
      | Some (file, name, stats) \<Rightarrow>
          if CHR ''.'' \<in> set name
          then Inr (served ws name stats rsp, send_fd (fs_openat fs (cstr file)) (st_size stats) s)
          else Inl OutOfRange)"
proof -
  let ?p = "rq_path req"
  define path where "path = (if length ?p = 1 then ''./'' else tl ?p)"
  have path: "(if length ?p = 1 then Inr ''./'' else str_substr 1 ?p) = Inr path"
    using assms(1) by (cases ?p) (auto simp: path_def str_substr_def)
  have "path \<noteq> []" using assms(1) by (cases ?p) (auto simp: path_def)
  then have chk: "check (path \<noteq> []) OutOfBounds = Inr ()" by simp
  have idx: "(case str_rfind (CHR ''.'') f of
        Some pos \<Rightarrow> rbind (str_substr pos f) (\<lambda>sfx'. serve_file ws fs send_fd f sfx' st rsp s)
      | None \<Rightarrow> x) = Inr (served ws f st rsp, send_fd (fs_openat fs (cstr f)) (st_size st) s)"
    if "CHR ''.'' \<in> set f" for f st x
    using that suffix_ext [of f] str_rfind_None [of "CHR ''.''" f]
    by (auto simp: serve_file_suffix split: option.split)
  show ?thesis
    using find_index_dot [OF _ assms(2)]
    unfolding web_onRequest_def web_target_def suffix_of_eq rbind_Inr path chk path_def [symmetric]
    by (auto simp: serve_file_suffix serve_file_empty idx Let_def split: option.split)
qed

subsection \<open>Properties\<close>


text \<open>A directory with a page and a file without an extension.\<close>

definition demo_fs :: fs where
  "demo_fs = \<lparr> fs_fstatat = [''./'' \<mapsto> \<lparr> st_mode = 0x41ED, st_size = 4096 \<rparr>, ''./index.html'' \<mapsto> \<lparr> st_mode = 0x81A4, st_size = 7 \<rparr>,
       ''README'' \<mapsto> \<lparr> st_mode = 0x81A4, st_size = 9 \<rparr>],
     fs_openat = (\<lambda>p. if p = ''./index.html'' then 8 else -1) \<rparr>"

definition demo_web :: web_server where
  "demo_web = \<lparr> ws_location = \<lparr> rootPath = ''/srv'', dirfd = 4, indexs = [''index.html'', ''index.htm''] \<rparr>,
     ws_contentTypes = default_types \<rparr>"


end
