(* ===== verification/Programs.thy ===== *)
theory Programs
  imports TcpServer LoopLifetime WebServer
begin

text \<open>
  Start-up: the \<open>main\<close> functions of the chat server and of the web server and the server test of
  \<open>testcase/testHttpServer.cpp\<close>.  They put the constructors together: the loop of \<open>LoopLifetime\<close>,
  whose poller the acceptor of \<open>Acceptor\<close> registers with, and the server of \<open>TcpServer\<close>.  The state is the
  process and the rest of the operating system; the socket calls act on both.  The threads of a pool construct
  their loops in the same process.
\<close>

subsection \<open>The machine\<close>

type_synonym ('k, 's) machine = "'k process \<times> 's"

text \<open>\<open>loop_->updateChannel\<close> of the loop at \<open>a\<close>: its own poller, with the descriptor \<open>epfd_\<close>.\<close>

definition loop_ctl ::
  "('k, loop_channel) epoll_ctl \<Rightarrow> nat \<Rightarrow> (('k, 's) machine, loop_channel) epoll_ctl" where
  "loop_ctl ctl a op fd ev q =
     (case pr_loops (fst q) a of
        None \<Rightarrow> Inl EBADF
      | Some l \<Rightarrow>
          (case ctl op fd ev (lo_poll l) of
             Inl err \<Rightarrow> Inl err
           | Inr k \<Rightarrow> Inr ((fst q)\<lparr>pr_loops := (pr_loops (fst q))(a \<mapsto> l\<lparr>lo_poll := k\<rparr>)\<rparr>, snd q)))"

text \<open>A question to the loop, on the machine.\<close>

definition ask_loop :: "nat \<Rightarrow> nat \<Rightarrow> ('k, 's) machine \<Rightarrow> (bool \<times> ('k, 's) machine) res" where
  "ask_loop t a q = rbind (loop_isInLoopThread t a (fst q)) (\<lambda>(b, p). Inr (b, (p, snd q)))"

text \<open>\<open>EventLoop loop;\<close> by the thread \<open>t\<close> at the address \<open>a\<close>.\<close>

definition make_loop ::
  "('k, loop_channel) epoll_ctl \<Rightarrow> 'k \<Rightarrow> (int list \<Rightarrow> int) \<Rightarrow> nat \<Rightarrow> nat \<Rightarrow> ('k, 's) machine \<Rightarrow>
   ('k, 's) machine res" where
  "make_loop ctl k0 alloc t a q = rbind (construct_loop ctl k0 alloc t a (fst q)) (\<lambda>p. Inr (p, snd q))"

text \<open>
  \<open>starLoop\<close> of a pool's \<open>i\<close>-th thread: \<open>std::thread\<close> may fail to start a thread (the exception ends the program);
  otherwise the new thread, \<open>thread_of i\<close>, constructs its loop at \<open>addr_of i\<close>, and \<open>starLoop\<close> returns the address,
  or never returns because it lost the notification (\<open>LoopThreads.starLoop_lost_notify\<close>).
\<close>

datatype thread_start = NoThread | LostNotify | Notified

definition start_thread ::
  "('k, loop_channel) epoll_ctl \<Rightarrow> 'k \<Rightarrow> (int list \<Rightarrow> int) \<Rightarrow> (nat \<Rightarrow> thread_start) \<Rightarrow> (nat \<Rightarrow> nat) \<Rightarrow> (nat \<Rightarrow> nat) \<Rightarrow>
   nat \<Rightarrow> ('k, 's) machine \<Rightarrow> (nat \<times> ('k, 's) machine) res" where
  "start_thread ctl k0 alloc fate thread_of addr_of i q =
     (if fate i = NoThread then Inl Aborted
      else rbind (make_loop ctl k0 alloc (thread_of i) (addr_of i) q) (\<lambda>q1.
           if fate i = LostNotify then Inl NoReturn else Inr (addr_of i, q1)))"

type_synonym ('k, 's) starter = "nat \<Rightarrow> ('k, 's) machine \<Rightarrow> (nat \<times> ('k, 's) machine) res"

subsection \<open>Starting a server\<close>

text \<open>\<open>server.start()\<close>, on the loop at \<open>a\<close>; \<open>b\<close> is the address of the acceptor.\<close>

definition start_on ::
  "('k, loop_channel) epoll_ctl \<Rightarrow> (('k, 's) machine) sock_os \<Rightarrow> ('k, 's) starter \<Rightarrow> nat \<Rightarrow> nat \<Rightarrow> nat \<Rightarrow>
   nat tcp_server \<Rightarrow> ('k, 's) machine \<Rightarrow> (nat tcp_server \<times> ('k, 's) machine) res" where
  "start_on ctl os starLoop t a b s q =
     rbind (ask_loop t a q) (\<lambda>(inLoop, q1).
     server_start os (loop_ctl ctl a) (OtherChannel b) starLoop inLoop s q1)"

definition host_1234 :: sockaddr_in where
  "host_1234 = inet_port 1234 False"

text \<open>\<open>HttpServer::HttpServer\<close>, which adds two callbacks to its \<open>TcpServer\<close>.\<close>

definition new_http_server ::
  "(('k, 's) machine) sock_os \<Rightarrow> nat \<Rightarrow> sockaddr_in \<Rightarrow> ('k, 's) machine \<Rightarrow>
   (nat tcp_server \<times> ('k, 's) machine) res" where
  "new_http_server os loop host q = new_server os loop host q"

text \<open>The chat server: its \<open>TcpServer\<close> and no users.  The results are the states when \<open>loop.loop()\<close> is called.\<close>

definition chat_main ::
  "('k, loop_channel) epoll_ctl \<Rightarrow> 'k \<Rightarrow> (int list \<Rightarrow> int) \<Rightarrow> (('k, 's) machine) sock_os \<Rightarrow> ('k, 's) starter \<Rightarrow>
   nat \<Rightarrow> nat \<Rightarrow> nat \<Rightarrow> ('k, 's) machine \<Rightarrow> (nat tcp_server \<times> nat list \<times> ('k, 's) machine) res" where
  "chat_main ctl k0 alloc os starLoop t a b q =
     rbind (make_loop ctl k0 alloc t a q) (\<lambda>q1.
     rbind (new_server os a host_1234 q1) (\<lambda>(s, q2).
     let connections = [] in
     rbind (start_on ctl os starLoop t a b s q2) (\<lambda>(s1, q3). Inr (s1, connections, q3))))"

text \<open>The web server: \<open>daemon_ret\<close> is what \<open>daemon\<close> returns; \<open>exit(EXIT_FAILURE)\<close> is \<open>Aborted\<close>.\<close>

definition web_main ::
  "int \<Rightarrow> (string \<Rightarrow> ('k, 's) machine \<Rightarrow> int \<times> ('k, 's) machine) \<Rightarrow> ('k, loop_channel) epoll_ctl \<Rightarrow> 'k \<Rightarrow> (int list \<Rightarrow> int) \<Rightarrow>
   (('k, 's) machine) sock_os \<Rightarrow> ('k, 's) starter \<Rightarrow> nat \<Rightarrow> nat \<Rightarrow> nat \<Rightarrow> ('k, 's) machine \<Rightarrow>
   (nat tcp_server \<times> web_server \<times> ('k, 's) machine) res" where
  "web_main daemon_ret open_dir ctl k0 alloc os starLoop t a b q =
     (if daemon_ret = -1 then Inl Aborted
      else
        rbind (make_loop ctl k0 alloc t a q) (\<lambda>q1.
        rbind (new_http_server os a host_1234 q1) (\<lambda>(s, q2).
        rbind (new_webserver open_dir q2) (\<lambda>(ws, q3).
        rbind (start_on ctl os starLoop t a b s q3) (\<lambda>(s1, q4). Inr (s1, ws, q4))))))"

text \<open>\<open>WebServer::~WebServer\<close>.\<close>

definition destroy_webserver :: "web_server \<Rightarrow> ('k, 's) machine \<Rightarrow> ('k, 's) machine" where
  "destroy_webserver ws q = (close_fd (dirfd (ws_location ws)) (fst q), snd q)"

text \<open>\<open>HttpServerTest.server\<close>, up to \<open>loop.loop()\<close>, with the answer \<open>ASSERT_TRUE\<close> sees.\<close>

definition http_server_test ::
  "('k, loop_channel) epoll_ctl \<Rightarrow> 'k \<Rightarrow> (int list \<Rightarrow> int) \<Rightarrow> (('k, 's) machine) sock_os \<Rightarrow> ('k, 's) starter \<Rightarrow>
   nat \<Rightarrow> nat \<Rightarrow> nat \<Rightarrow> ('k, 's) machine \<Rightarrow> (bool \<times> nat tcp_server \<times> ('k, 's) machine) res" where
  "http_server_test ctl k0 alloc os starLoop t a b q =
     rbind (make_loop ctl k0 alloc t a q) (\<lambda>q1.
     rbind (ask_loop t a q1) (\<lambda>(here, q2).
     rbind (new_http_server os a host_1234 q2) (\<lambda>(s, q3).
     rbind (start_on ctl os starLoop t a b s q3) (\<lambda>(s1, q4). Inr (here, s1, q4)))))"

subsection \<open>What the socket calls do to the process\<close>

text \<open>
  A call that gives a descriptor opens a free one or fails: \<open>socket\<close>, and \<open>open\<close> of a directory.  The other socket
  calls leave the process alone.
\<close>

definition opens_fd :: "(('k, 's) machine \<Rightarrow> int \<times> ('k, 's) machine) \<Rightarrow> bool" where
  "opens_fd f \<longleftrightarrow> (\<forall>q. case f q of (fd, q') \<Rightarrow>
     fd = -1 \<or> 0 \<le> fd \<and> fd \<notin> set (pr_open (fst q)) \<and> fst q' = (fst q)\<lparr>pr_open := fd # pr_open (fst q)\<rparr>)"

definition sockets_law :: "(('k, 's) machine) sock_os \<Rightarrow> bool" where
  "sockets_law os \<longleftrightarrow>
     (\<forall>domain type protocol. opens_fd (so_socket os domain type protocol)) \<and>
     (\<forall>fd level name val q. fst (snd (so_setsockopt os fd level name val q)) = fst q) \<and>
     (\<forall>fd addr q. fst (snd (so_bind os fd addr q)) = fst q) \<and>
     (\<forall>fd n q. fst (snd (so_listen os fd n q)) = fst q)"

definition opened :: "int \<Rightarrow> ('k, 's) machine \<Rightarrow> ('k, 's) machine \<Rightarrow> bool" where
  "opened fd q q' \<longleftrightarrow> 0 \<le> fd \<and> fd \<notin> set (pr_open (fst q)) \<and> fst q' = (fst q)\<lparr>pr_open := fd # pr_open (fst q)\<rparr>"

lemma opens_fdD:
  assumes "opens_fd f" and "f q = (fd, q')"
  shows "fd = -1 \<or> opened fd q q'"
proof -
  have "case f q of (fd, q') \<Rightarrow>
      fd = -1 \<or> 0 \<le> fd \<and> fd \<notin> set (pr_open (fst q)) \<and> fst q' = (fst q)\<lparr>pr_open := fd # pr_open (fst q)\<rparr>"
    using assms(1) unfolding opens_fd_def by (rule spec)
  then show ?thesis by (simp add: assms(2) opened_def)
qed

lemma sockets_lawD:
  assumes "sockets_law os" and "so_socket os domain type protocol q = (fd, q')"
  shows "fd = -1 \<or> opened fd q q'"
  using assms by (intro opens_fdD [of "so_socket os domain type protocol"]) (simp_all add: sockets_law_def)

text \<open>A call that returns or fails in one of some ways; most only abort the program.\<close>

definition fails_or :: "yerror set \<Rightarrow> ('a \<Rightarrow> bool) \<Rightarrow> 'a res \<Rightarrow> bool" where
  "fails_or E P r = (case r of Inl e \<Rightarrow> e \<in> E | Inr x \<Rightarrow> P x)"

abbreviation aborts_or :: "('a \<Rightarrow> bool) \<Rightarrow> 'a res \<Rightarrow> bool" where
  "aborts_or \<equiv> fails_or {Aborted}"

lemma fails_or_simps [simp]:
  "fails_or E P (Inl e) \<longleftrightarrow> e \<in> E" "fails_or E P (Inr x) \<longleftrightarrow> P x"
  by (simp_all add: fails_or_def)

lemma fails_or_bind:
  "fails_or E Q m \<Longrightarrow> (\<And>x. m = Inr x \<Longrightarrow> Q x \<Longrightarrow> fails_or E P (f x)) \<Longrightarrow> fails_or E P (rbind m f)"
  by (cases m) simp_all

lemma fails_or_rbind: "fails_or E P (rbind m f) \<longleftrightarrow> fails_or E (\<lambda>x. fails_or E P (f x)) m"
  by (cases m) simp_all

lemma fails_or_mono: "fails_or E Q m \<Longrightarrow> (\<And>x. Q x \<Longrightarrow> P x) \<Longrightarrow> fails_or E P m"
  by (cases m) simp_all

lemma fails_or_more: "fails_or E P m \<Longrightarrow> E \<subseteq> E' \<Longrightarrow> fails_or E' P m"
  by (cases m) auto

lemma fails_or_call: "Aborted \<in> E \<Longrightarrow> Q r \<Longrightarrow> fails_or E Q (or_abort r)"
  by (simp add: or_abort_def)

definition fresh_acceptor :: "int \<Rightarrow> sockaddr_in \<Rightarrow> acceptor" where
  "fresh_acceptor fd host = \<lparr> ac_lfd = fd, ac_host = host, ac_channel = new_channel fd \<rparr>"

lemma new_acceptor_fresh:
  assumes "sockets_law os"
  shows "aborts_or (\<lambda>(ac, q'). \<exists>fd. ac = fresh_acceptor fd host \<and> opened fd q q') (new_acceptor os host q)"
proof -
  obtain fd q1 where s: "so_socket os (int AF_INET) sock_type 0 q = (fd, q1)"
    by (cases "so_socket os (int AF_INET) sock_type 0 q")
  note open_fd = sockets_lawD [OF assms s]
  have keep: "fst (snd (so_setsockopt os fd level name val q')) = fst q'" "fst (snd (so_bind os fd addr q')) = fst q'"
    for level name val addr q'
    using assms unfolding sockets_law_def by blast+
  have opt: "aborts_or (\<lambda>r. fst (snd r) = fst q') (Setsockopt os fd level name val q')"
    and bnd: "aborts_or (\<lambda>r. fst (snd r) = fst q') (Bind os fd addr q')" for level name val addr q'
    unfolding Setsockopt_def Bind_def by (rule fails_or_call, simp, rule keep)+
  show ?thesis
  proof (cases "fd = -1")
    case True
    then show ?thesis by (simp add: new_acceptor_def Socket_def or_abort_def s)
  next
    case False
    have run: "new_acceptor os host q =
        rbind (Setsockopt os fd SOL_SOCKET SO_REUSEADDR 1 q1) (\<lambda>(r2, q2).
        rbind (Setsockopt os fd SOL_SOCKET SO_REUSEPORT 1 q2) (\<lambda>(r3, q3).
        rbind (Bind os fd host q3) (\<lambda>(r4, q4). Inr (fresh_acceptor fd host, q4))))"
      using False by (simp add: new_acceptor_def Socket_def or_abort_def s new_channel_def fresh_acceptor_def)
    have "aborts_or (\<lambda>(ac, q'). ac = fresh_acceptor fd host \<and> fst q' = fst q1) (new_acceptor os host q)"
      unfolding run by (rule fails_or_bind [OF opt], clarsimp)+ (rule fails_or_bind [OF bnd], clarsimp)
    then show ?thesis
      by (rule fails_or_mono) (use False open_fd in \<open>auto simp: opened_def\<close>)
  qed
qed

subsection \<open>The loop\<close>

lemma timerq_returns:
  assumes "epoll_fds ctl interest" and "fd_law alloc" and "pr_cachedTid p t = t" and "interest k = Map.empty"
  obtains timerfd ch k1 p1 where "construct_timerq ctl alloc t t a k p = Inr (timerfd, ch, k1, p1)"
proof -
  obtain fd p0 where fd: "open_fd alloc p = (fd, p0)" by (cases "open_fd alloc p")
  have "pr_cachedTid p0 t = t" by (rule open_fd_cases [OF assms(2) fd]; simp add: assms(3))
  then have here: "in_thread t t p0 = (True, p0)" by (simp add: in_thread_def)
  obtain k' err where "chan_do ctl True (TimerChannel a) EnableRead (new_channel fd) k
      = Inr ((new_channel fd)\<lparr>ch_events := EPOLLIN OR EPOLLPRI, ch_state := kAdded\<rparr>, k', err)"
    using epoll_fds.enable_new [OF assms(1), of k fd "TimerChannel a"] assms(4) by (metis (no_types, lifting))
  then show ?thesis by (intro that) (simp add: construct_timerq_def fd here)
qed

lemma construct_loop_aborts:
  assumes "epoll_fds ctl interest" and "fd_law alloc" and "fds_ok p" and "interest k0 = Map.empty"
    and "pr_eventloop p t = None"
  shows "aborts_or (\<lambda>_. True) (construct_loop ctl k0 alloc t a p)"
proof -
  let ?p1 = "p\<lparr>pr_cachedTid := (pr_cachedTid p)(t := t)\<rparr>"
  note tid = gettid_value [OF assms(3), of t]
  obtain epfd p2 where e: "open_fd alloc ?p1 = (epfd, p2)" by (cases "open_fd alloc ?p1")
  obtain w p3 where w: "open_fd alloc p2 = (w, p3)" by (cases "open_fd alloc p2")
  show ?thesis
  proof (cases "epfd = -1")
    case True
    then show ?thesis by (simp add: construct_loop_def tid new_poll_def e)
  next
    case False
    have p2: "pr_cachedTid p2 t = t" "pr_eventloop p2 = pr_eventloop p"
      by (rule open_fd_cases [OF assms(2) e]; simp)+
    have p3: "pr_cachedTid p3 t = t" "pr_eventloop p3 = pr_eventloop p" "w < 0 \<or> w \<in> set (pr_open p3)"
      by (rule open_fd_cases [OF assms(2) w]; simp add: p2)+
    obtain timerfd ch k1 p4 where tq: "construct_timerq ctl alloc t t a k0 p3 = Inr (timerfd, ch, k1, p4)"
      by (rule timerq_returns [where a = a, OF assms(1,2) p3(1) assms(4)])
    note q = construct_timerq_ok [OF assms(1,2) p3(1) assms(4) tq]
    let ?p5 = "p4\<lparr>pr_eventloop := (pr_eventloop p4)(t \<mapsto> a)\<rparr>"
    have here: "in_thread t t ?p5 = (True, ?p5)" and slot: "pr_eventloop p4 t = None"
      using p3(1,2) assms(5) by (simp_all add: in_thread_def q(2))
    show ?thesis
    proof (cases "w < 0")
      case True
      then show ?thesis using False by (simp add: construct_loop_def tid new_poll_def e w tq)
    next
      case w0: False
      then have "interest k1 w = None" using q(3,4) p3(3) by auto
      then obtain k2 err where "chan_do ctl True (WakeChannel a) EnableRead (new_channel w) k1
          = Inr ((new_channel w)\<lparr>ch_events := EPOLLIN OR EPOLLPRI, ch_state := kAdded\<rparr>, k2, err)"
        using epoll_fds.enable_new [OF assms(1), of k1 w "WakeChannel a"] by (metis (no_types, lifting))
      then show ?thesis using False w0 by (simp add: construct_loop_def tid new_poll_def e w tq slot here Let_def)
    qed
  qed
qed

text \<open>The loop \<open>l\<close> at \<open>a\<close> belongs to the thread \<open>t\<close>.\<close>

definition loop_on :: "nat \<Rightarrow> nat \<Rightarrow> 'k loop_obj \<Rightarrow> ('k, 's) machine \<Rightarrow> bool" where
  "loop_on t a l q \<longleftrightarrow>
     pr_loops (fst q) a = Some l \<and> lo_tid l = t \<and> pr_cachedTid (fst q) t = t \<and> pr_eventloop (fst q) t = Some a"

lemma ask_own: "loop_on t a l q \<Longrightarrow> ask_loop t a q = Inr (True, q)"
  by (simp add: loop_on_def ask_loop_def loop_isInLoopThread_def in_thread_def)

text \<open>A machine on which the thread \<open>t\<close> can construct a loop at \<open>a\<close>.\<close>

definition vacant :: "nat \<Rightarrow> nat \<Rightarrow> ('k, 's) machine \<Rightarrow> bool" where
  "vacant t a q \<longleftrightarrow> fds_ok (fst q) \<and> pr_eventloop (fst q) t = None \<and> pr_loops (fst q) a = None"

text \<open>A loop whose poller watches its own two channels; \<open>before\<close> are the descriptors opened before it, \<open>later\<close> those
  opened since, the latest first.\<close>

definition looping_on :: "('k \<Rightarrow> loop_channel interest_list) \<Rightarrow> nat \<Rightarrow> nat \<Rightarrow> int list \<Rightarrow> int list \<Rightarrow> 'k loop_obj \<Rightarrow>
    ('k, 's) machine \<Rightarrow> bool" where
  "looping_on interest t a later before l q \<longleftrightarrow>
     loop_on t a l q \<and> watched interest a l \<and> fds_ok (fst q) \<and> pr_open (fst q) = later @ loop_fds l @ before"

lemma looping_opened:
  "looping_on interest t a later before l q \<Longrightarrow> opened fd q q' \<Longrightarrow> looping_on interest t a (fd # later) before l q'"
  unfolding looping_on_def opened_def loop_on_def fds_ok_def by auto

lemma looping_ask: "looping_on interest t a later before l q \<Longrightarrow> ask_loop t a q = Inr (True, q)"
  by (rule ask_own [of t a l]) (simp add: looping_on_def)

lemma looping_fd:
  assumes "looping_on interest t a later before l q" and "fd \<in> set later"
  shows "0 \<le> fd" and "fd \<notin> set (loop_fds l)"
  using assms by (auto simp: looping_on_def fds_ok_def)

text \<open>What a constructed loop adds to the machine.\<close>

definition built :: "('k \<Rightarrow> loop_channel interest_list) \<Rightarrow> nat \<Rightarrow> nat \<Rightarrow> 'k loop_obj \<Rightarrow> ('k, 's) machine \<Rightarrow>
    ('k, 's) machine \<Rightarrow> bool" where
  "built interest t a l q q' \<longleftrightarrow> lo_tid l = t \<and> watched interest a l \<and> fds_ok (fst q') \<and>
     fst q' = (fst q)\<lparr>pr_cachedTid := (pr_cachedTid (fst q))(t := t), pr_eventloop := (pr_eventloop (fst q))(t \<mapsto> a),
               pr_loops := (pr_loops (fst q))(a \<mapsto> l), pr_open := loop_fds l @ pr_open (fst q)\<rparr>"

lemma make_loop_built:
  assumes "epoll_fds ctl interest" and "fd_law alloc" and "interest k0 = Map.empty" and "vacant t a q"
  shows "aborts_or (\<lambda>q'. \<exists>l. built interest t a l q q') (make_loop ctl k0 alloc t a q)"
proof -
  from assms(4) have ok: "fds_ok (fst q)" "pr_eventloop (fst q) t = None"
    by (simp_all add: vacant_def)
  show ?thesis
    unfolding make_loop_def
  proof (rule fails_or_bind [OF construct_loop_aborts [OF assms(1,2) ok(1) assms(3) ok(2)]])
    fix p' assume "construct_loop ctl k0 alloc t a (fst q) = Inr p'"
    then obtain l where "lo_tid l = t" "watched interest a l" "distinct (loop_fds l @ pr_open (fst q))"
      "\<forall>fd \<in> set (loop_fds l). 0 \<le> fd"
      "p' = (fst q)\<lparr>pr_cachedTid := (pr_cachedTid (fst q))(t := t), pr_eventloop := (pr_eventloop (fst q))(t \<mapsto> a),
               pr_loops := (pr_loops (fst q))(a \<mapsto> l), pr_open := loop_fds l @ pr_open (fst q)\<rparr>"
      using construct_loop_ok [OF assms(1,2) ok(1) assms(3)] by metis
    then have "built interest t a l q (p', snd q)"
      using ok(1) by (auto simp: built_def fds_ok_def)
    then show "aborts_or (\<lambda>q'. \<exists>l. built interest t a l q q') (Inr (p', snd q))" by auto
  qed
qed

lemma make_loop_ok:
  assumes "epoll_fds ctl interest" and "fd_law alloc" and "interest k0 = Map.empty" and "vacant t a q"
  shows "aborts_or (\<lambda>q'. \<exists>l. looping_on interest t a [] (pr_open (fst q)) l q' \<and> built interest t a l q q')
      (make_loop ctl k0 alloc t a q)"
  by (rule fails_or_mono [OF make_loop_built [OF assms]]) (auto simp: built_def looping_on_def loop_on_def)

subsection \<open>The threads of a pool\<close>

text \<open>Threads without a loop, and addresses for their loops.\<close>

definition spare :: "(nat \<Rightarrow> nat) \<Rightarrow> (nat \<Rightarrow> nat) \<Rightarrow> nat list \<Rightarrow> ('k, 's) machine \<Rightarrow> bool" where
  "spare thread_of addr_of is q \<longleftrightarrow> distinct (map thread_of is) \<and> distinct (map addr_of is) \<and>
     (\<forall>i \<in> set is. pr_eventloop (fst q) (thread_of i) = None \<and> pr_loops (fst q) (addr_of i) = None)"

text \<open>The loops \<open>ls\<close> of the pool's threads, and their descriptors.\<close>

definition pool_running :: "('k \<Rightarrow> loop_channel interest_list) \<Rightarrow> (nat \<Rightarrow> nat) \<Rightarrow> (nat \<Rightarrow> nat) \<Rightarrow> nat list \<Rightarrow>
    'k loop_obj list \<Rightarrow> ('k, 's) machine \<Rightarrow> bool" where
  "pool_running interest thread_of addr_of is ls q \<longleftrightarrow>
     list_all2 (\<lambda>i l. loop_on (thread_of i) (addr_of i) l q \<and> watched interest (addr_of i) l) is ls"

definition pool_fds :: "'k loop_obj list \<Rightarrow> int list" where
  "pool_fds ls = concat (map loop_fds (rev ls))"

lemma pool_fds_simps [simp]: "pool_fds [] = []" "pool_fds (l # ls) = pool_fds ls @ loop_fds l"
  by (simp_all add: pool_fds_def)

lemma pool_running_Nil [simp]: "pool_running interest thread_of addr_of [] ls q \<longleftrightarrow> ls = []"
  by (auto simp: pool_running_def)

text \<open>The rest of the process does not see the new threads.\<close>

definition same_at :: "nat \<Rightarrow> nat \<Rightarrow> ('k, 's) machine \<Rightarrow> ('k, 's) machine \<Rightarrow> bool" where
  "same_at t a q q' \<longleftrightarrow> pr_loops (fst q') a = pr_loops (fst q) a \<and>
     pr_eventloop (fst q') t = pr_eventloop (fst q) t \<and> pr_cachedTid (fst q') t = pr_cachedTid (fst q) t"

lemma same_at_loop: "same_at t a q q' \<Longrightarrow> loop_on t a l q' = loop_on t a l q"
  by (simp add: same_at_def loop_on_def)

lemma pool_running_same:
  assumes "\<forall>i \<in> set is. same_at (thread_of i) (addr_of i) q q'" and "pool_running interest thread_of addr_of is ls q"
  shows "pool_running interest thread_of addr_of is ls q'"
  using assms(2) unfolding pool_running_def
  by (rule list.rel_mono_strong) (use assms(1) same_at_loop in blast)

text \<open>How starting them may fail: as \<open>start_thread\<close> does.\<close>

definition pool_failures :: "(nat \<Rightarrow> thread_start) \<Rightarrow> nat list \<Rightarrow> yerror set" where
  "pool_failures fate is = insert Aborted (if LostNotify \<in> fate ` set is then {NoReturn} else {})"

lemma pool_failures_Nil [simp]: "pool_failures fate [] = {Aborted}"
  by (simp add: pool_failures_def)

lemma start_thread_ok:
  assumes "epoll_fds ctl interest" and "fd_law alloc" and "interest k0 = Map.empty"
    and "vacant (thread_of i) (addr_of i) q"
  shows "fails_or (pool_failures fate [i]) (\<lambda>(x, q'). x = addr_of i \<and> (\<exists>l. built interest (thread_of i) (addr_of i) l q q'))
      (start_thread ctl k0 alloc fate thread_of addr_of i q)"
proof -
  have "fails_or (pool_failures fate [i]) (\<lambda>q'. \<exists>l. built interest (thread_of i) (addr_of i) l q q')
      (make_loop ctl k0 alloc (thread_of i) (addr_of i) q)"
    by (rule fails_or_more [OF make_loop_built [OF assms]]) (simp add: pool_failures_def)
  then have "fails_or (pool_failures fate [i]) (\<lambda>(x, q'). x = addr_of i \<and> (\<exists>l. built interest (thread_of i) (addr_of i) l q q'))
      (rbind (make_loop ctl k0 alloc (thread_of i) (addr_of i) q) (\<lambda>q1.
         if fate i = LostNotify then Inl NoReturn else Inr (addr_of i, q1)))"
    by (rule fails_or_bind) (simp add: pool_failures_def)
  then show ?thesis by (simp add: start_thread_def pool_failures_def)
qed

lemma spare_start:
  assumes "spare thread_of addr_of (i # is) q" and "built interest (thread_of i) (addr_of i) l q q'"
  shows "spare thread_of addr_of is q'" and "\<forall>j \<in> set is. thread_of j \<noteq> thread_of i \<and> addr_of j \<noteq> addr_of i"
proof -
  have d: "\<forall>j \<in> set is. thread_of j \<noteq> thread_of i \<and> addr_of j \<noteq> addr_of i"
    using assms(1) unfolding spare_def by (metis distinct.simps(2) image_eqI list.set_map list.simps(9))
  then show "\<forall>j \<in> set is. thread_of j \<noteq> thread_of i \<and> addr_of j \<noteq> addr_of i" .
  show "spare thread_of addr_of is q'" using d assms by (simp add: spare_def built_def)
qed

text \<open>Starting the threads: the loops are there in order, and nothing else of the process has changed.\<close>

lemma start_threads_ok:
  fixes q :: "('k, 's) machine"
  assumes "epoll_fds ctl interest" and "fd_law alloc" and "interest k0 = Map.empty" and "fds_ok (fst q)"
    and "spare thread_of addr_of is q"
  shows "fails_or (pool_failures fate is) (\<lambda>(p', q'). p' = p\<lparr>lp_loops := lp_loops p @ map addr_of is\<rparr> \<and> fds_ok (fst q') \<and>
        (\<exists>ls. pool_running interest thread_of addr_of is ls q' \<and> pr_open (fst q') = pool_fds ls @ pr_open (fst q)) \<and>
        (\<forall>t a. t \<notin> thread_of ` set is \<longrightarrow> a \<notin> addr_of ` set is \<longrightarrow> same_at t a q q'))
      (start_threads (start_thread ctl k0 alloc fate thread_of addr_of) is p q)"
  using assms(4,5)
proof (induction "is" arbitrary: p q)
  case Nil
  then show ?case by (simp add: same_at_def)
next
  case (Cons i "is")
  have vac: "vacant (thread_of i) (addr_of i) q" using Cons.prems by (simp add: vacant_def spare_def)
  have one: "fails_or (pool_failures fate (i # is)) (\<lambda>(x, q'). x = addr_of i \<and> (\<exists>l. built interest (thread_of i) (addr_of i) l q q'))
      (start_thread ctl k0 alloc fate thread_of addr_of i q)"
    by (rule fails_or_more [OF start_thread_ok [where thread_of = thread_of and addr_of = addr_of, OF assms(1-3) vac]]) (auto simp: pool_failures_def)
  show ?case
    unfolding start_threads.simps
  proof (rule fails_or_bind [OF one], clarify)
    fix p1 :: "'k process" and n1 :: 's and l assume b: "built interest (thread_of i) (addr_of i) l q (p1, n1)"
    note sp = spare_start [OF Cons.prems(2) b]
    have ok: "fds_ok (fst (p1, n1))" using b unfolding built_def by blast
    have sub: "pool_failures fate is \<subseteq> pool_failures fate (i # is)" by (auto simp: pool_failures_def)
    have first: "loop_on (thread_of i) (addr_of i) l (p1, n1)" "watched interest (addr_of i) l"
      "pr_open p1 = loop_fds l @ pr_open (fst q)"
      "\<And>t a. t \<noteq> thread_of i \<Longrightarrow> a \<noteq> addr_of i \<Longrightarrow> same_at t a q (p1, n1)"
      using b by (simp_all add: built_def loop_on_def same_at_def)
    show "fails_or (pool_failures fate (i # is)) (\<lambda>(p', q'). p' = p\<lparr>lp_loops := lp_loops p @ map addr_of (i # is)\<rparr> \<and> fds_ok (fst q') \<and>
        (\<exists>ls. pool_running interest thread_of addr_of (i # is) ls q' \<and> pr_open (fst q') = pool_fds ls @ pr_open (fst q)) \<and>
        (\<forall>t a. t \<notin> thread_of ` set (i # is) \<longrightarrow> a \<notin> addr_of ` set (i # is) \<longrightarrow> same_at t a q q'))
      (start_threads (start_thread ctl k0 alloc fate thread_of addr_of) is (p\<lparr>lp_loops := lp_loops p @ [addr_of i]\<rparr>) (p1, n1))"
    proof (rule fails_or_more [OF fails_or_mono [OF Cons.IH [OF ok sp(1)]] sub], clarify, intro conjI)
      fix p2 :: "'k process" and n2 :: 's and ls
      assume ls: "pool_running interest thread_of addr_of is ls (p2, n2)" "pr_open (fst (p2, n2)) = pool_fds ls @ pr_open (fst (p1, n1))"
        and keep: "\<forall>t a. t \<notin> thread_of ` set is \<longrightarrow> a \<notin> addr_of ` set is \<longrightarrow> same_at t a (p1, n1) (p2, n2)"
        and fo: "fds_ok (fst (p2, n2))"
      have "same_at (thread_of i) (addr_of i) (p1, n1) (p2, n2)"
        by (rule keep [rule_format]) (use sp(2) in force)+
      then have "loop_on (thread_of i) (addr_of i) l (p2, n2)" using first(1) same_at_loop by blast
      then have "pool_running interest thread_of addr_of (i # is) (l # ls) (p2, n2)"
        using ls(1) first(2) by (simp add: pool_running_def)
      moreover have "pr_open (fst (p2, n2)) = pool_fds (l # ls) @ pr_open (fst q)" using ls(2) first(3) by simp
      ultimately show "\<exists>ls. pool_running interest thread_of addr_of (i # is) ls (p2, n2) \<and>
          pr_open (fst (p2, n2)) = pool_fds ls @ pr_open (fst q)" by blast
      have "same_at t a q (p2, n2)" if "t \<notin> thread_of ` set (i # is)" "a \<notin> addr_of ` set (i # is)" for t a
        using keep [rule_format, of t a] first(4) [of t a] that by (simp add: same_at_def)
      then show "\<forall>t a. t \<notin> thread_of ` set (i # is) \<longrightarrow> a \<notin> addr_of ` set (i # is) \<longrightarrow> same_at t a q (p2, n2)" by blast
      show "fds_ok (fst (p2, n2))" by (rule fo)
    qed simp
  qed
qed

lemma pool_start_ok:
  fixes q :: "('k, 's) machine"
  assumes "epoll_fds ctl interest" and "fd_law alloc" and "interest k0 = Map.empty"
    and lp: "looping_on interest t a later before l q" and "spare thread_of addr_of is q"
    and own: "t \<notin> thread_of ` set is" "a \<notin> addr_of ` set is" and "is = [0..<nat n]"
  shows "fails_or (pool_failures fate is) (\<lambda>(p, q').
        p = (setThreadNum n (new_pool a))\<lparr>lp_started := True, lp_loops := map addr_of is\<rparr> \<and>
        (\<exists>ls. pool_running interest thread_of addr_of is ls q' \<and> looping_on interest t a (pool_fds ls @ later) before l q'))
      (pool_start (start_thread ctl k0 alloc fate thread_of addr_of) True (setThreadNum n (new_pool a)) q)"
proof -
  let ?p = "(setThreadNum n (new_pool a))\<lparr>lp_started := True\<rparr>"
  have "fds_ok (fst q)" using lp by (simp add: looping_on_def)
  note ok = start_threads_ok [OF assms(1-3) this assms(5), of fate ?p]
  have "pool_start (start_thread ctl k0 alloc fate thread_of addr_of) True (setThreadNum n (new_pool a)) q
      = start_threads (start_thread ctl k0 alloc fate thread_of addr_of) is ?p q"
    by (simp add: pool_start_def setThreadNum_def new_pool_def assms(8))
  then show ?thesis
  proof (simp only:, intro fails_or_mono [OF ok], clarify, intro conjI)
    fix p' :: "'k process" and n' :: 's and ls
    assume "pool_running interest thread_of addr_of is ls (p', n')" "pr_open (fst (p', n')) = pool_fds ls @ pr_open (fst q)"
      and keep: "\<forall>t a. t \<notin> thread_of ` set is \<longrightarrow> a \<notin> addr_of ` set is \<longrightarrow> same_at t a q (p', n')"
      and "fds_ok (fst (p', n'))"
    moreover have "same_at t a q (p', n')" using keep own by blast
    ultimately have "looping_on interest t a (pool_fds ls @ later) before l (p', n')"
      using lp by (simp add: looping_on_def same_at_loop)
    then show "\<exists>ls. pool_running interest thread_of addr_of is ls (p', n') \<and>
        looping_on interest t a (pool_fds ls @ later) before l (p', n')"
      using \<open>pool_running interest thread_of addr_of is ls (p', n')\<close> by blast
  qed (simp add: setThreadNum_def new_pool_def)
qed

subsection \<open>Listening\<close>

text \<open>The two channels a loop registers with its own poller.\<close>

definition own_channels :: "nat \<Rightarrow> 'k loop_obj \<Rightarrow> loop_channel interest_list" where
  "own_channels a l =
     (if lo_timerfd l < 0 then Map.empty else [lo_timerfd l \<mapsto> (EPOLLIN OR EPOLLPRI, TimerChannel a)])
       (lo_wakeupfd l \<mapsto> (EPOLLIN OR EPOLLPRI, WakeChannel a))"

lemma watched_own: "watched interest a l \<longleftrightarrow> interest (lo_poll l) = own_channels a l"
  by (simp add: watched_def own_channels_def Let_def)

lemma own_channels_fds: "own_channels a l fd \<noteq> None \<Longrightarrow> fd \<in> set (loop_fds l)"
  by (auto simp: own_channels_def loop_fds_def split: if_splits)

lemma own_channels_poll [simp]:
  "own_channels a (l\<lparr>lo_poll := k\<rparr>) = own_channels a l" "loop_fds (l\<lparr>lo_poll := k\<rparr>) = loop_fds l"
  by (simp_all add: own_channels_def loop_fds_def)

lemma enable_on_loop:
  assumes "epoll_fds ctl interest" and "pr_loops (fst q) a = Some l" and "0 \<le> fd" and "interest (lo_poll l) fd = None"
  obtains k where "enableRead (loop_ctl ctl a) True self (new_channel fd) q
      = Inr ((new_channel fd)\<lparr>ch_events := EPOLLIN OR EPOLLPRI, ch_state := kAdded\<rparr>,
             ((fst q)\<lparr>pr_loops := (pr_loops (fst q))(a \<mapsto> l\<lparr>lo_poll := k\<rparr>)\<rparr>, snd q), None)"
    and "interest k = (interest (lo_poll l))(fd \<mapsto> (EPOLLIN OR EPOLLPRI, self))"
proof -
  obtain k where "ctl CtlAdd fd (EPOLLIN OR EPOLLPRI, self) (lo_poll l) = Inr k"
    "interest k = (interest (lo_poll l))(fd \<mapsto> (EPOLLIN OR EPOLLPRI, self))"
    using epoll_fds.add_open [OF assms(1,3,4)] by blast
  moreover have "EPOLLIN OR EPOLLPRI \<noteq> 0" by (simp add: epoll_consts)
  ultimately show ?thesis
    by (intro that [of k]) (simp_all add: enableRead_def updateChannel_def isNoEvent_def poll_update_def
        new_channel_def loop_ctl_def assms(2) Let_def)
qed

text \<open>What a started acceptor has changed.\<close>

definition listening ::
  "('k \<Rightarrow> loop_channel interest_list) \<Rightarrow> nat \<Rightarrow> nat \<Rightarrow> 'k loop_obj \<Rightarrow> acceptor \<Rightarrow> ('k, 's) machine \<Rightarrow>
   ('k, 's) machine \<Rightarrow> bool" where
  "listening interest a b l ac q q' \<longleftrightarrow>
     (\<exists>k. interest k = (interest (lo_poll l))(ac_lfd ac \<mapsto> (EPOLLIN OR EPOLLPRI, OtherChannel b)) \<and>
          fst q' = (fst q)\<lparr>pr_loops := (pr_loops (fst q))(a \<mapsto> l\<lparr>lo_poll := k\<rparr>)\<rparr>)"

lemma acceptor_listen_on_loop:
  fixes os :: "(('k, 's) machine) sock_os"
  assumes "epoll_fds ctl interest" and "sockets_law os" and "pr_loops (fst q) a = Some l"
    and "ac_channel ac = new_channel (ac_lfd ac)" and "0 \<le> ac_lfd ac" and "interest (lo_poll l) (ac_lfd ac) = None"
  shows "aborts_or (\<lambda>(ac', q'). (\<exists>c. ac' = ac\<lparr>ac_channel := c\<rparr>) \<and> listening interest a b l ac q q')
      (acceptor_listen os (loop_ctl ctl a) (OtherChannel b) True ac q)"
proof -
  have keep: "fst (snd (so_listen os fd n q)) = fst q" for fd n
    using assms(2) unfolding sockets_law_def by blast
  have lst: "aborts_or (\<lambda>r. fst (snd r) = fst q) (Listen os (ac_lfd ac) SOMAXCONN q)"
    unfolding Listen_def by (rule fails_or_call) (simp, rule keep)
  show ?thesis
    unfolding acceptor_listen_def check_True rbind_Inr
  proof (rule fails_or_bind [OF lst])
    fix x :: "int \<times> ('k, 's) machine" assume x0: "fst (snd x) = fst q"
    obtain r p n where x: "x = (r, (p, n))" by (cases x) auto
    from x0 have p: "p = fst q" by (simp add: x)
    then have "pr_loops (fst (p, n)) a = Some l" using assms(3) by simp
    then obtain k where "enableRead (loop_ctl ctl a) True (OtherChannel b) (new_channel (ac_lfd ac)) (p, n)
        = Inr ((new_channel (ac_lfd ac))\<lparr>ch_events := EPOLLIN OR EPOLLPRI, ch_state := kAdded\<rparr>,
             (p\<lparr>pr_loops := (pr_loops p)(a \<mapsto> l\<lparr>lo_poll := k\<rparr>)\<rparr>, n), None)"
      "interest k = (interest (lo_poll l))(ac_lfd ac \<mapsto> (EPOLLIN OR EPOLLPRI, OtherChannel b))"
      using enable_on_loop [OF assms(1) _ assms(5,6), of "(p, n)" a "OtherChannel b"] by auto
    then show "aborts_or (\<lambda>(ac', q'). (\<exists>c. ac' = ac\<lparr>ac_channel := c\<rparr>) \<and> listening interest a b l ac q q')
       (case x of (_, s1) \<Rightarrow> rbind (enableRead (loop_ctl ctl a) True (OtherChannel b) (ac_channel ac) s1)
         (\<lambda>(c, s2, err). Inr (ac\<lparr>ac_channel := c\<rparr>, s2)))"
      using p by (auto simp: x assms(4) listening_def)
  qed
qed


subsection \<open>A started server\<close>

definition fresh_server :: "int \<Rightarrow> sockaddr_in \<Rightarrow> nat \<Rightarrow> int \<Rightarrow> nat tcp_server" where
  "fresh_server fd host loop n =
     \<lparr> sv_nextConnId = 0, sv_acceptor = fresh_acceptor fd host, sv_connections = [],
       sv_threads = setThreadNum n (new_pool loop), sv_closing = [] \<rparr>"

lemma new_server_fresh:
  assumes "sockets_law os"
  shows "aborts_or (\<lambda>(s, q'). \<exists>fd. s = fresh_server fd host loop 0 \<and> opened fd q q') (new_server os loop host q)"
  unfolding new_server_def
  by (rule fails_or_bind [OF new_acceptor_fresh [OF assms]])
    (auto simp: fresh_server_def setThreadNum_def new_pool_def)

lemma fresh_server_threads: "server_setThreadNum n (fresh_server fd host loop m) = fresh_server fd host loop n"
  by (simp add: fresh_server_def server_setThreadNum_def setThreadNum_def)

text \<open>
  The server is ready: no connections yet, the pool has its loops, the loop's poller watches its own two
  channels and the listening socket.  The open descriptors are distinct: those from \<open>before\<close>, those of the loop,
  and those opened \<open>later\<close>, the listening socket among them.
\<close>

definition serving ::
  "('k \<Rightarrow> loop_channel interest_list) \<Rightarrow> nat \<Rightarrow> nat \<Rightarrow> nat \<Rightarrow> nat list \<Rightarrow> int list \<Rightarrow> int list \<Rightarrow> nat tcp_server \<Rightarrow>
   ('k, 's) machine \<Rightarrow> bool" where
  "serving interest t a b loops later before s q \<longleftrightarrow>
     (\<exists>l. loop_on t a l q \<and>
        interest (lo_poll l) = (own_channels a l)(ac_lfd (sv_acceptor s) \<mapsto> (EPOLLIN OR EPOLLPRI, OtherChannel b)) \<and>
        pr_open (fst q) = later @ loop_fds l @ before) \<and>
     ac_lfd (sv_acceptor s) \<in> set later \<and> fds_ok (fst q) \<and>
     ac_host (sv_acceptor s) = host_1234 \<and> sv_connections s = [] \<and> sv_nextConnId s = 0 \<and> sv_closing s = [] \<and>
     lp_baseLoop (sv_threads s) = a \<and> lp_started (sv_threads s) \<and> lp_loops (sv_threads s) = loops"

lemma listening_loop:
  assumes "looping_on interest t a later before l q" and "listening interest a b l ac q q'"
  obtains k where "loop_on t a (l\<lparr>lo_poll := k\<rparr>) q'"
    and "interest k = (own_channels a l)(ac_lfd ac \<mapsto> (EPOLLIN OR EPOLLPRI, OtherChannel b))"
    and "pr_open (fst q') = later @ loop_fds l @ before" and "fds_ok (fst q')"
    and "\<And>t2 a2. a2 \<noteq> a \<Longrightarrow> same_at t2 a2 q q'"
proof -
  from assms(2) obtain k where k: "interest k = (interest (lo_poll l))(ac_lfd ac \<mapsto> (EPOLLIN OR EPOLLPRI, OtherChannel b))"
    "fst q' = (fst q)\<lparr>pr_loops := (pr_loops (fst q))(a \<mapsto> l\<lparr>lo_poll := k\<rparr>)\<rparr>"
    by (auto simp: listening_def)
  have "fds_ok (fst q')" using assms(1) unfolding k(2) looping_on_def fds_ok_def by (elim conjE) (intro conjI; simp del: distinct_append)
  with assms(1) k show ?thesis
    by (intro that [of k]) (simp_all add: looping_on_def loop_on_def watched_own same_at_def)
qed

lemma not_watched_yet:
  assumes "looping_on interest t a later before l q" and "fd \<in> set later"
  shows "interest (lo_poll l) fd = None"
proof -
  have "own_channels a l fd = None" using looping_fd(2) [OF assms] own_channels_fds [of a l fd] by blast
  then show ?thesis using assms(1) by (simp add: looping_on_def watched_own)
qed

lemma listen_on_loop:
  fixes os :: "(('k, 's) machine) sock_os"
  assumes "epoll_fds ctl interest" and "sockets_law os" and lp: "looping_on interest t a later before l q" and fd: "fd \<in> set later"
  shows "aborts_or (\<lambda>(ac', q'). (\<exists>c. ac' = (fresh_acceptor fd host)\<lparr>ac_channel := c\<rparr>) \<and>
        listening interest a b l (fresh_acceptor fd host) q q')
      (acceptor_listen os (loop_ctl ctl a) (OtherChannel b) True (fresh_acceptor fd host) q)"
  using looping_fd(1) [OF lp fd] not_watched_yet [OF lp fd] lp
  by (intro acceptor_listen_on_loop [OF assms(1,2)]) (simp_all add: fresh_acceptor_def looping_on_def loop_on_def)

lemma start_on_serves:
  fixes q :: "('k, 's) machine"
  assumes "epoll_fds ctl interest" and "fd_law alloc" and "interest k0 = Map.empty" and "sockets_law os"
    and lp: "looping_on interest t a later before l q" and fd: "fd \<in> set later"
    and "spare thread_of addr_of is q"
    and own: "t \<notin> thread_of ` set is" "a \<notin> addr_of ` set is" and "is": "is = [0..<nat n]"
  shows "fails_or (pool_failures fate is) (\<lambda>(s, q'). ac_lfd (sv_acceptor s) = fd \<and>
        (\<exists>ls. pool_running interest thread_of addr_of is ls q' \<and>
           serving interest t a b (map addr_of is) (pool_fds ls @ later) before s q'))
      (start_on ctl os (start_thread ctl k0 alloc fate thread_of addr_of) t a b (fresh_server fd host_1234 a n) q)"
proof -
  let ?S = "start_thread ctl k0 alloc fate thread_of addr_of"
  let ?pool = "(setThreadNum n (new_pool a))\<lparr>lp_started := True, lp_loops := map addr_of is\<rparr>"
  let ?s = "(fresh_server fd host_1234 a n)\<lparr>sv_threads := ?pool\<rparr>"
  have run: "start_on ctl os ?S t a b (fresh_server fd host_1234 a n) q =
      rbind (pool_start ?S True (setThreadNum n (new_pool a)) q) (\<lambda>(p, q1).
      rbind (acceptor_listen os (loop_ctl ctl a) (OtherChannel b) True (fresh_acceptor fd host_1234) q1) (\<lambda>(ac, q2).
      Inr ((fresh_server fd host_1234 a n)\<lparr>sv_threads := p, sv_acceptor := ac\<rparr>, q2)))"
    by (simp add: start_on_def looping_ask [OF lp] server_start_def fresh_server_def)
  show ?thesis
    unfolding run
  proof (rule fails_or_bind [OF pool_start_ok [OF assms(1-3) lp assms(7) own "is"]], clarify)
    fix p1 :: "'k process" and n1 :: 's and ls
    assume ls: "pool_running interest thread_of addr_of is ls (p1, n1)"
      and lp1: "looping_on interest t a (pool_fds ls @ later) before l (p1, n1)"
    have fd1: "fd \<in> set (pool_fds ls @ later)" using fd by simp
    have "aborts_or (\<lambda>(ac', q'). (\<exists>c. ac' = (fresh_acceptor fd host_1234)\<lparr>ac_channel := c\<rparr>) \<and>
        listening interest a b l (fresh_acceptor fd host_1234) (p1, n1) q')
      (acceptor_listen os (loop_ctl ctl a) (OtherChannel b) True (fresh_acceptor fd host_1234) (p1, n1))"
      by (rule listen_on_loop [OF assms(1,4) lp1 fd1])
    then have "fails_or (pool_failures fate is) (\<lambda>(ac', q'). (\<exists>c. ac' = (fresh_acceptor fd host_1234)\<lparr>ac_channel := c\<rparr>) \<and>
        listening interest a b l (fresh_acceptor fd host_1234) (p1, n1) q')
      (acceptor_listen os (loop_ctl ctl a) (OtherChannel b) True (fresh_acceptor fd host_1234) (p1, n1))"
      by (rule fails_or_more) (simp add: pool_failures_def)
    then show "fails_or (pool_failures fate is) (\<lambda>(s, q'). ac_lfd (sv_acceptor s) = fd \<and>
        (\<exists>ls. pool_running interest thread_of addr_of is ls q' \<and>
           serving interest t a b (map addr_of is) (pool_fds ls @ later) before s q'))
      (rbind (acceptor_listen os (loop_ctl ctl a) (OtherChannel b) True (fresh_acceptor fd host_1234) (p1, n1)) (\<lambda>(ac, q2).
         Inr ((fresh_server fd host_1234 a n)\<lparr>sv_threads := ?pool, sv_acceptor := ac\<rparr>, q2)))"
    proof (rule fails_or_bind, clarify)
      fix c and p2 :: "'k process" and n2 :: 's
      let ?ac = "(fresh_acceptor fd host_1234)\<lparr>ac_channel := c\<rparr>"
      assume "listening interest a b l (fresh_acceptor fd host_1234) (p1, n1) (p2, n2)"
      from listening_loop [OF lp1 this] obtain k where k: "loop_on t a (l\<lparr>lo_poll := k\<rparr>) (p2, n2)"
        "interest k = (own_channels a l)(fd \<mapsto> (EPOLLIN OR EPOLLPRI, OtherChannel b))"
        "pr_open p2 = (pool_fds ls @ later) @ loop_fds l @ before" "fds_ok p2"
        "\<And>t2 a2. a2 \<noteq> a \<Longrightarrow> same_at t2 a2 (p1, n1) (p2, n2)"
        by (metis fresh_acceptor_def acceptor.select_convs(1) fst_conv)
      have "pool_running interest thread_of addr_of is ls (p2, n2)"
        by (rule pool_running_same [OF _ ls], intro ballI k(5)) (use own(2) in auto)
      moreover have "serving interest t a b (map addr_of is) (pool_fds ls @ later) before
          (?s\<lparr>sv_acceptor := ?ac\<rparr>) (p2, n2)"
        unfolding serving_def using k(1-4) fd1
        by (intro conjI exI [of _ "l\<lparr>lo_poll := k\<rparr>"])
          (simp_all add: fresh_server_def fresh_acceptor_def setThreadNum_def new_pool_def)
      ultimately show "fails_or (pool_failures fate is) (\<lambda>(s, q'). ac_lfd (sv_acceptor s) = fd \<and>
          (\<exists>ls. pool_running interest thread_of addr_of is ls q' \<and>
             serving interest t a b (map addr_of is) (pool_fds ls @ later) before s q'))
        (Inr (?s\<lparr>sv_acceptor := ?ac\<rparr>, (p2, n2)))"
        by (auto simp: fresh_acceptor_def)
    qed
  qed
qed

text \<open>A server without threads starts none.\<close>

lemma start_on_alone:
  "start_on ctl os starLoop t a b (fresh_server fd host loop 0) q = start_on ctl os starLoop2 t a b (fresh_server fd host loop 0) q"
  by (simp add: start_on_def server_start_def pool_start_def fresh_server_def setThreadNum_def new_pool_def)

lemma start_alone_serves:
  fixes q :: "('k, 's) machine"
  assumes "epoll_fds ctl interest" and "fd_law alloc" and "interest k0 = Map.empty" and "sockets_law os"
    and lp: "looping_on interest t a later before l q" and fd: "fd \<in> set later"
  shows "aborts_or (\<lambda>(s, q'). ac_lfd (sv_acceptor s) = fd \<and> serving interest t a b [] later before s q')
      (start_on ctl os starLoop t a b (fresh_server fd host_1234 a 0) q)"
proof -
  have "spare (\<lambda>i. i) (\<lambda>i. i) [] q" by (simp add: spare_def)
  from start_on_serves [OF assms(1-4) lp fd this, of 0 "\<lambda>_. Notified" b] show ?thesis
    unfolding start_on_alone [of ctl os starLoop t a b fd host_1234 a q "start_thread ctl k0 alloc (\<lambda>_. Notified) (\<lambda>i. i) (\<lambda>i. i)"]
    by (simp add: case_prod_beta)
qed

subsection \<open>Properties\<close>

lemma lives_vacant:
  assumes "lives ctl k0 alloc (fst q)" and "epoll_fds ctl interest" and "fd_law alloc" and "interest k0 = Map.empty"
    and "pr_eventloop (fst q) t = None" and "pr_loops (fst q) a = None"
  shows "vacant t a q"
  using process_ok_fds [OF lives_ok [OF assms(1-4)]] assms(5,6) by (simp add: vacant_def)

lemma new_webserver_opens:
  assumes "\<And>path. opens_fd (open_dir path)"
  shows "aborts_or (\<lambda>(ws, q'). dirfd (ws_location ws) \<noteq> -1 \<and> opened (dirfd (ws_location ws)) q q') (new_webserver open_dir q)"
proof -
  let ?root = "''/mnt/e/bloghexo/blog/public''"
  obtain fd q' where f: "open_dir ?root q = (fd, q')" by (cases "open_dir ?root q")
  with opens_fdD [OF assms f] show ?thesis by (auto simp: new_webserver_def Let_def opened_def)
qed

text \<open>C6. Starting a server ends in \<open>loop.loop()\<close> with everything in place, or aborts.  For the \<open>main\<close> of the
  chat server, the \<open>main\<close> of the web server and the test of the HTTP server, in a thread without a loop of
  any process: no assert fails, no freed object is used and the only failure is an abort (of a system
  call whose error is fatal, of \<open>daemon\<close> or of the missing directory).  Otherwise the thread's loop is the
  new one, its poller watches the wake-up descriptor, the timer descriptor (if there is one) and the
  listening socket, each with the channel it belongs to; these, \<open>epfd_\<close> and, in the web server, the directory
  it serves are the only new descriptors, and all are distinct; the server is bound to port 1234 and has no
  connections, and it accepts in the thread of its loop as it has no others.\<close>

theorem servers_start:
  fixes q :: "('k, 's) machine"
  assumes "lives ctl k0 alloc (fst q)" and "epoll_fds ctl interest" and "fd_law alloc" and "interest k0 = Map.empty"
    and "sockets_law os" and "\<And>path. opens_fd (open_dir path)"
    and "pr_eventloop (fst q) t = None" and "pr_loops (fst q) a = None"
  shows "aborts_or (\<lambda>(s, users, q'). users = [] \<and> serving interest t a b [] [ac_lfd (sv_acceptor s)] (pr_open (fst q)) s q')
       (chat_main ctl k0 alloc os starLoop t a b q) \<and>
     aborts_or (\<lambda>(s, ws, q'). daemon_ret \<noteq> -1 \<and> dirfd (ws_location ws) \<noteq> -1 \<and>
          serving interest t a b [] [dirfd (ws_location ws), ac_lfd (sv_acceptor s)] (pr_open (fst q)) s q')
       (web_main daemon_ret open_dir ctl k0 alloc os starLoop t a b q) \<and>
     aborts_or (\<lambda>(here, s, q'). here \<and> serving interest t a b [] [ac_lfd (sv_acceptor s)] (pr_open (fst q)) s q')
       (http_server_test ctl k0 alloc os starLoop t a b q)"
proof -
  let ?before = "pr_open (fst q)"
  note loop = make_loop_ok [OF assms(2-4) lives_vacant [OF assms(1-4,7,8)]]
  have start: "aborts_or (\<lambda>(s, q'). ac_lfd (sv_acceptor s) = fd \<and> serving interest t a b [] later ?before s q')
      (start_on ctl os starLoop t a b (fresh_server fd host_1234 a 0) q2)"
    if "looping_on interest t a later ?before l q2" "fd \<in> set later" for l fd later and q2 :: "('k, 's) machine"
    by (rule start_alone_serves [OF assms(2-5) that])
  have server: "aborts_or (\<lambda>(s, q'). serving interest t a b [] [ac_lfd (sv_acceptor s)] ?before s q')
      (rbind (new_server os a host_1234 q1) (\<lambda>(s, q2). start_on ctl os starLoop t a b s q2))"
    if lp: "looping_on interest t a [] ?before l q1" for l and q1 :: "('k, 's) machine"
  proof (rule fails_or_bind [OF new_server_fresh [OF assms(5)]], clarify)
    fix fd and p2 :: "'k process" and n2 :: 's assume "opened fd q1 (p2, n2)"
    note lp2 = looping_opened [OF lp this]
    show "aborts_or (\<lambda>(s, q'). serving interest t a b [] [ac_lfd (sv_acceptor s)] ?before s q')
      (start_on ctl os starLoop t a b (fresh_server fd host_1234 a 0) (p2, n2))"
      by (rule fails_or_mono [OF start [OF lp2]]) auto
  qed
  have web_server: "aborts_or (\<lambda>(s, ws, q'). dirfd (ws_location ws) \<noteq> -1 \<and>
        serving interest t a b [] [dirfd (ws_location ws), ac_lfd (sv_acceptor s)] ?before s q')
      (rbind (new_server os a host_1234 q1) (\<lambda>(s, q2). rbind (new_webserver open_dir q2) (\<lambda>(ws, q3).
         rbind (start_on ctl os starLoop t a b s q3) (\<lambda>(s1, q4). Inr (s1, ws, q4)))))"
    if lp: "looping_on interest t a [] ?before l q1" for l and q1 :: "('k, 's) machine"
  proof (rule fails_or_bind [OF new_server_fresh [OF assms(5)]], clarify)
    fix fd and p2 :: "'k process" and n2 :: 's assume "opened fd q1 (p2, n2)"
    note lp2 = looping_opened [OF lp this]
    show "aborts_or (\<lambda>(s, ws, q'). dirfd (ws_location ws) \<noteq> -1 \<and>
          serving interest t a b [] [dirfd (ws_location ws), ac_lfd (sv_acceptor s)] ?before s q')
        (rbind (new_webserver open_dir (p2, n2)) (\<lambda>(ws, q3).
           rbind (start_on ctl os starLoop t a b (fresh_server fd host_1234 a 0) q3) (\<lambda>(s1, q4). Inr (s1, ws, q4))))"
    proof (rule fails_or_bind [OF new_webserver_opens [OF assms(6)]], clarify)
      fix ws and p3 :: "'k process" and n3 :: 's
      assume dir: "dirfd (ws_location ws) \<noteq> -1" and o3: "opened (dirfd (ws_location ws)) (p2, n2) (p3, n3)"
      have "fd \<in> set [dirfd (ws_location ws), fd]" by simp
      from start [OF looping_opened [OF lp2 o3] this] dir
      show "aborts_or (\<lambda>(s, ws, q'). dirfd (ws_location ws) \<noteq> -1 \<and>
            serving interest t a b [] [dirfd (ws_location ws), ac_lfd (sv_acceptor s)] ?before s q')
          (rbind (start_on ctl os starLoop t a b (fresh_server fd host_1234 a 0) (p3, n3)) (\<lambda>(s1, q4). Inr (s1, ws, q4)))"
        by (auto simp: fails_or_rbind elim!: fails_or_mono)
    qed
  qed
  have "aborts_or (\<lambda>(s, users, q'). users = [] \<and> serving interest t a b [] [ac_lfd (sv_acceptor s)] ?before s q')
      (chat_main ctl k0 alloc os starLoop t a b q)"
    unfolding chat_main_def Let_def
  proof (rule fails_or_bind [OF loop], elim exE conjE)
    fix l and q1 :: "('k, 's) machine" assume "looping_on interest t a [] ?before l q1"
    from server [OF this]
    show "aborts_or (\<lambda>(s, users, q'). users = [] \<and> serving interest t a b [] [ac_lfd (sv_acceptor s)] ?before s q')
        (rbind (new_server os a host_1234 q1) (\<lambda>(s, q2). rbind (start_on ctl os starLoop t a b s q2) (\<lambda>(s1, q3). Inr (s1, [], q3))))"
      by (auto simp: fails_or_rbind elim!: fails_or_mono)
  qed
  moreover have "aborts_or (\<lambda>(s, ws, q'). daemon_ret \<noteq> -1 \<and> dirfd (ws_location ws) \<noteq> -1 \<and>
          serving interest t a b [] [dirfd (ws_location ws), ac_lfd (sv_acceptor s)] ?before s q')
      (web_main daemon_ret open_dir ctl k0 alloc os starLoop t a b q)"
  proof (cases "daemon_ret = -1")
    case True
    then show ?thesis by (simp add: web_main_def)
  next
    case False
    show ?thesis
      unfolding web_main_def if_not_P [OF False] new_http_server_def
    proof (rule fails_or_bind [OF loop], elim exE conjE)
      fix l and q1 :: "('k, 's) machine" assume "looping_on interest t a [] ?before l q1"
      from web_server [OF this] False
      show "aborts_or (\<lambda>(s, ws, q'). daemon_ret \<noteq> -1 \<and> dirfd (ws_location ws) \<noteq> -1 \<and>
            serving interest t a b [] [dirfd (ws_location ws), ac_lfd (sv_acceptor s)] ?before s q')
          (rbind (new_server os a host_1234 q1) (\<lambda>(s, q2). rbind (new_webserver open_dir q2) (\<lambda>(ws, q3).
            rbind (start_on ctl os starLoop t a b s q3) (\<lambda>(s1, q4). Inr (s1, ws, q4)))))"
        by simp
    qed
  qed
  moreover have "aborts_or (\<lambda>(here, s, q'). here \<and> serving interest t a b [] [ac_lfd (sv_acceptor s)] ?before s q')
      (http_server_test ctl k0 alloc os starLoop t a b q)"
    unfolding http_server_test_def new_http_server_def
  proof (rule fails_or_bind [OF loop], elim exE conjE)
    fix l and q1 :: "('k, 's) machine" assume lp: "looping_on interest t a [] ?before l q1"
    from server [OF lp]
    show "aborts_or (\<lambda>(here, s, q'). here \<and> serving interest t a b [] [ac_lfd (sv_acceptor s)] ?before s q')
        (rbind (ask_loop t a q1) (\<lambda>(here, q2). rbind (new_server os a host_1234 q2) (\<lambda>(s, q3).
          rbind (start_on ctl os starLoop t a b s q3) (\<lambda>(s1, q4). Inr (here, s1, q4)))))"
      by (auto simp: looping_ask [OF lp] fails_or_rbind elim!: fails_or_mono)
  qed
  ultimately show ?thesis by blast
qed

text \<open>A desktop: descriptors in order, and no failing call.\<close>

type_synonym desk = "(loop_channel interest_list, unit) machine"

definition desk_fd :: "desk \<Rightarrow> int \<times> desk" where
  "desk_fd q = (let fd = next_fd (pr_open (fst q)) in (fd, ((fst q)\<lparr>pr_open := fd # pr_open (fst q)\<rparr>, ())))"

definition desk_sock :: "desk sock_os" where
  "desk_sock =
     \<lparr> so_socket = (\<lambda>d ty pr. desk_fd),
       so_bind = (\<lambda>fd a q. (0, q)), so_connect = (\<lambda>fd a q. (0, q)), so_accept = (\<lambda>fd q. (-1, q)),
       so_listen = (\<lambda>fd n q. (0, q)), so_setsockopt = (\<lambda>fd l n v q. (0, q)) \<rparr>"

lemma desk_opens: "opens_fd desk_fd"
proof -
  have "fd = -1 \<or> 0 \<le> fd \<and> fd \<notin> set fds" if "next_fd fds = fd" for fd fds
    using next_fd_law that unfolding fd_law_def by blast
  then show ?thesis by (auto simp: opens_fd_def desk_fd_def Let_def)
qed

lemma desk_sock_law: "sockets_law desk_sock"
  by (simp add: sockets_law_def desk_sock_def desk_opens)

definition started_process :: "loop_channel interest_list process" where
  "started_process = one_loop\<lparr>pr_open := [7, 6, 5, 4, 3],
     pr_loops := [100 \<mapsto> (demo_loop 10 100 3)\<lparr>lo_poll :=
        (lo_poll (demo_loop 10 100 3))(6 \<mapsto> (EPOLLIN OR EPOLLPRI, OtherChannel 7))\<rparr>]\<rparr>"

theorem servers_start_witness:
  "\<exists>s ws. web_main 0 (\<lambda>path. desk_fd) epoll_fd_ref Map.empty next_fd desk_sock (\<lambda>i q. Inl NoReturn) 10 100 7 (new_process, ())
       = Inr (s, ws, (started_process, ())) \<and>
     serving (\<lambda>k. k) 10 100 7 [] [7, 6] [] s (started_process, ()) \<and> ac_lfd (sv_acceptor s) = 6 \<and> dirfd (ws_location ws) = 7"
proof -
  let ?S = "\<lambda>i q. Inl NoReturn :: (nat \<times> desk) res"
  have one: "make_loop epoll_fd_ref Map.empty next_fd 10 100 (new_process, ()) = Inr (one_loop, ())"
    by (simp add: make_loop_def construct_one)
  have srv: "new_server desk_sock 100 host_1234 (one_loop, ()) = Inr (fresh_server 6 host_1234 100 0, (one_loop\<lparr>pr_open := [6, 5, 4, 3]\<rparr>, ()))"
    by (simp add: new_server_def new_acceptor_def Socket_def Setsockopt_def Bind_def or_abort_def desk_sock_def desk_fd_def
        fresh_server_def fresh_acceptor_def setThreadNum_def new_pool_def next_fd_def one_loop_def new_channel_def Let_def)
  have dir: "\<exists>ws. new_webserver (\<lambda>path. desk_fd) (one_loop\<lparr>pr_open := [6, 5, 4, 3]\<rparr>, ()) =
      Inr (ws, (one_loop\<lparr>pr_open := [7, 6, 5, 4, 3]\<rparr>, ())) \<and> dirfd (ws_location ws) = 7"
    by (simp add: new_webserver_def desk_fd_def next_fd_def one_loop_def Let_def)
  have "\<exists>s. start_on epoll_fd_ref desk_sock ?S 10 100 7 (fresh_server 6 host_1234 100 0) (one_loop\<lparr>pr_open := [7, 6, 5, 4, 3]\<rparr>, ())
      = Inr (s, (started_process, ())) \<and> ac_lfd (sv_acceptor s) = 6"
    by (simp add: start_on_def ask_loop_def loop_isInLoopThread_def in_thread_def gettid_def server_start_def pool_start_def
        fresh_server_def fresh_acceptor_def setThreadNum_def new_pool_def acceptor_listen_def Listen_def or_abort_def
        desk_sock_def enableRead_def updateChannel_def new_channel_def isNoEvent_def EPOLLIN_PRI_nonzero poll_update_def
        loop_ctl_def epoll_fd_ref_def epoll_ref_def one_loop_def demo_loop_def started_process_def Let_def)
  with dir have run: "\<exists>s ws. web_main 0 (\<lambda>path. desk_fd) epoll_fd_ref Map.empty next_fd desk_sock ?S 10 100 7 (new_process, ())
      = Inr (s, ws, (started_process, ())) \<and> ac_lfd (sv_acceptor s) = 6 \<and> dirfd (ws_location ws) = 7"
    by (auto simp: web_main_def one new_http_server_def srv)
  have "lives epoll_fd_ref Map.empty next_fd (fst (new_process, ()))" by (simp add: begins)
  from servers_start [OF this efd.epoll_fds_axioms next_fd_law refl desk_sock_law desk_opens, where t = 10 and a = 100 and b = 7
      and starLoop = ?S and daemon_ret = 0] run
  show ?thesis by (fastforce simp: new_process_def)
qed


end
