(* ===== verification/StartTests.thy ===== *)
theory StartTests
  imports Programs Client
begin

text \<open>
  The tests of \<open>testcase\<close> that construct objects without calling \<open>loop()\<close>: a loop with an acceptor, a
  server, a pool, a channel or a connector (\<open>testEventLoop.cpp\<close>, \<open>testTcpConnection.cpp\<close>, \<open>testTcpClient.cpp\<close>, \<open>testTimerQueue.cpp\<close>), up
  to the end of their scope, and the tests of \<open>runInLoop\<close>, of \<open>Buffer::append\<close> and of a client.
\<close>

subsection \<open>The tests\<close>

text \<open>\<open>Acceptor::~Acceptor\<close>; a server without connections and threads has nothing else to give back.\<close>

definition destroy_acceptor :: "acceptor \<Rightarrow> ('k, 's) machine \<Rightarrow> ('k, 's) machine" where
  "destroy_acceptor ac q = (close_fd (ac_lfd ac) (fst q), snd q)"

text \<open>
  A test that constructs a loop, sees whether it is in its thread, runs \<open>body\<close>, which destroys what it
  constructs, and destroys the loop.
\<close>

definition loop_test ::
  "('k, loop_channel) epoll_ctl \<Rightarrow> 'k \<Rightarrow> (int list \<Rightarrow> int) \<Rightarrow> nat \<Rightarrow> nat \<Rightarrow>
   (('k, 's) machine \<Rightarrow> ('r \<times> ('k, 's) machine) res) \<Rightarrow> ('k, 's) machine \<Rightarrow> (bool \<times> 'r \<times> ('k, 's) machine) res" where
  "loop_test ctl k0 alloc t a body q =
     rbind (make_loop ctl k0 alloc t a q) (\<lambda>q1.
     rbind (ask_loop t a q1) (\<lambda>(here, q2).
     rbind (body q2) (\<lambda>(x, q3).
     rbind (destroy_loop t a (fst q3)) (\<lambda>p. Inr (here, x, (p, snd q3))))))"

text \<open>\<open>EventLoopTest.listen\<close>.\<close>

definition listen_body ::
  "('k, loop_channel) epoll_ctl \<Rightarrow> (('k, 's) machine) sock_os \<Rightarrow> nat \<Rightarrow> nat \<Rightarrow> nat \<Rightarrow> ('k, 's) machine \<Rightarrow>
   (unit \<times> ('k, 's) machine) res" where
  "listen_body ctl os t a b q =
     rbind (new_acceptor os host_1234 q) (\<lambda>(ac, q1).
     rbind (ask_loop t a q1) (\<lambda>(inLoop, q2).
     rbind (acceptor_listen os (loop_ctl ctl a) (OtherChannel b) inLoop ac q2) (\<lambda>(ac1, q3).
     Inr ((), destroy_acceptor ac1 q3))))"

text \<open>
  The servers of \<open>testTcpConnection.cpp\<close>; \<open>prepare\<close> is what a test does before \<open>start\<close>.  The message
  callbacks, set after it, are those of \<open>EchoTests\<close>.  The result is the pool's loops: the pool's destructor
  does not end their threads, which go on in the process.
\<close>

definition server_body ::
  "('k, loop_channel) epoll_ctl \<Rightarrow> (('k, 's) machine) sock_os \<Rightarrow> ('k, 's) starter \<Rightarrow> (nat tcp_server \<Rightarrow> nat tcp_server) \<Rightarrow>
   nat \<Rightarrow> nat \<Rightarrow> nat \<Rightarrow> ('k, 's) machine \<Rightarrow> (nat list \<times> ('k, 's) machine) res" where
  "server_body ctl os starLoop prepare t a b q =
     rbind (new_server os a host_1234 q) (\<lambda>(s, q1).
     rbind (start_on ctl os starLoop t a b (prepare s) q1) (\<lambda>(s1, q2).
     Inr (lp_loops (sv_threads s1), destroy_acceptor (sv_acceptor s1) q2)))"

text \<open>\<open>EventLoopThreadPoolTest\<close>.\<close>

definition pool_body ::
  "('k, 's) starter \<Rightarrow> nat \<Rightarrow> nat \<Rightarrow> ('k, 's) machine \<Rightarrow> (nat list \<times> ('k, 's) machine) res" where
  "pool_body starLoop t a q =
     (let threads = setThreadNum 4 (new_pool a) in
      rbind (ask_loop t a q) (\<lambda>(inLoop, q1).
      rbind (pool_start starLoop inLoop threads q1) (\<lambda>(p, q2). Inr (lp_loops p, q2))))"

text \<open>
  A channel for the descriptor \<open>fd\<close>, at the address \<open>b\<close>, which never calls \<open>disableAll\<close>.  In
  \<open>EventLoopTest.loop\<close> it is the standard input, in \<open>TimerQueueTest.timer\<close> a timerfd, which is armed and closed
  before the loop's destructor.  The connector of \<open>TcpClientTest.Connector\<close> is not started.
\<close>

definition channel_body ::
  "('k, loop_channel) epoll_ctl \<Rightarrow> nat \<Rightarrow> nat \<Rightarrow> nat \<Rightarrow> int \<Rightarrow> ('k, 's) machine \<Rightarrow> (unit \<times> ('k, 's) machine) res" where
  "channel_body ctl t a b fd q =
     rbind (ask_loop t a q) (\<lambda>(inLoop, q1).
     rbind (enableRead (loop_ctl ctl a) inLoop (OtherChannel b) (new_channel fd) q1) (\<lambda>(c, q2, err). Inr ((), q2)))"

definition timerfd_body ::
  "('k, loop_channel) epoll_ctl \<Rightarrow> (int list \<Rightarrow> int) \<Rightarrow> (int \<Rightarrow> 's \<Rightarrow> 's) \<Rightarrow> nat \<Rightarrow> nat \<Rightarrow> nat \<Rightarrow>
   ('k, 's) machine \<Rightarrow> (unit \<times> ('k, 's) machine) res" where
  "timerfd_body ctl alloc settime t a b q =
     (case open_fd alloc (fst q) of (timerfd, p) \<Rightarrow>
        rbind (channel_body ctl t a b timerfd (p, snd q)) (\<lambda>(x, q1).
        Inr ((), (close_fd timerfd (fst q1), settime timerfd (snd q1)))))"

definition connector_body ::
  "(('k, 's) machine) sock_os \<Rightarrow> ('k, 's) machine \<Rightarrow> (unit \<times> ('k, 's) machine) res" where
  "connector_body os q =
     rbind (new_connector os host_1234 q) (\<lambda>(cn, q1).
     Inr ((), if \<not> cn_connected cn then (close_fd (cn_cfd cn) (fst q1), snd q1) else q1))"

text \<open>The tests: of \<open>testEventLoop.cpp\<close>, \<open>testTcpConnection.cpp\<close> and \<open>testTcpClient.cpp\<close>.\<close>

definition stdin_test ::
  "('k, loop_channel) epoll_ctl \<Rightarrow> 'k \<Rightarrow> (int list \<Rightarrow> int) \<Rightarrow> nat \<Rightarrow> nat \<Rightarrow> nat \<Rightarrow> ('k, 's) machine \<Rightarrow>
   (bool \<times> unit \<times> ('k, 's) machine) res" where
  "stdin_test ctl k0 alloc t a b = loop_test ctl k0 alloc t a (channel_body ctl t a b 0)"

definition timerfd_test ::
  "('k, loop_channel) epoll_ctl \<Rightarrow> 'k \<Rightarrow> (int list \<Rightarrow> int) \<Rightarrow> (int \<Rightarrow> 's \<Rightarrow> 's) \<Rightarrow> nat \<Rightarrow> nat \<Rightarrow> nat \<Rightarrow>
   ('k, 's) machine \<Rightarrow> (bool \<times> unit \<times> ('k, 's) machine) res" where
  "timerfd_test ctl k0 alloc settime t a b = loop_test ctl k0 alloc t a (timerfd_body ctl alloc settime t a b)"

definition listen_test ::
  "('k, loop_channel) epoll_ctl \<Rightarrow> 'k \<Rightarrow> (int list \<Rightarrow> int) \<Rightarrow> (('k, 's) machine) sock_os \<Rightarrow> nat \<Rightarrow> nat \<Rightarrow> nat \<Rightarrow>
   ('k, 's) machine \<Rightarrow> (bool \<times> unit \<times> ('k, 's) machine) res" where
  "listen_test ctl k0 alloc os t a b = loop_test ctl k0 alloc t a (listen_body ctl os t a b)"

definition message_test ::
  "('k, loop_channel) epoll_ctl \<Rightarrow> 'k \<Rightarrow> (int list \<Rightarrow> int) \<Rightarrow> (('k, 's) machine) sock_os \<Rightarrow> ('k, 's) starter \<Rightarrow>
   nat \<Rightarrow> nat \<Rightarrow> nat \<Rightarrow> ('k, 's) machine \<Rightarrow> (bool \<times> nat list \<times> ('k, 's) machine) res" where
  "message_test ctl k0 alloc os starLoop t a b =
     loop_test ctl k0 alloc t a (server_body ctl os starLoop (\<lambda>server. server) t a b)"

definition send_message_test ::
  "('k, loop_channel) epoll_ctl \<Rightarrow> 'k \<Rightarrow> (int list \<Rightarrow> int) \<Rightarrow> (('k, 's) machine) sock_os \<Rightarrow> ('k, 's) starter \<Rightarrow>
   nat \<Rightarrow> nat \<Rightarrow> nat \<Rightarrow> ('k, 's) machine \<Rightarrow> (bool \<times> nat list \<times> ('k, 's) machine) res" where
  "send_message_test ctl k0 alloc os starLoop t a b =
     loop_test ctl k0 alloc t a (server_body ctl os starLoop (\<lambda>server. server) t a b)"

definition pool_server_test ::
  "('k, loop_channel) epoll_ctl \<Rightarrow> 'k \<Rightarrow> (int list \<Rightarrow> int) \<Rightarrow> (('k, 's) machine) sock_os \<Rightarrow> ('k, 's) starter \<Rightarrow>
   nat \<Rightarrow> nat \<Rightarrow> nat \<Rightarrow> ('k, 's) machine \<Rightarrow> (bool \<times> nat list \<times> ('k, 's) machine) res" where
  "pool_server_test ctl k0 alloc os starLoop t a b =
     loop_test ctl k0 alloc t a (server_body ctl os starLoop (server_setThreadNum 4) t a b)"

definition thread_pool_test ::
  "('k, loop_channel) epoll_ctl \<Rightarrow> 'k \<Rightarrow> (int list \<Rightarrow> int) \<Rightarrow> ('k, 's) starter \<Rightarrow> nat \<Rightarrow> nat \<Rightarrow> ('k, 's) machine \<Rightarrow>
   (bool \<times> nat list \<times> ('k, 's) machine) res" where
  "thread_pool_test ctl k0 alloc starLoop t a = loop_test ctl k0 alloc t a (pool_body starLoop t a)"

definition connector_test ::
  "('k, loop_channel) epoll_ctl \<Rightarrow> 'k \<Rightarrow> (int list \<Rightarrow> int) \<Rightarrow> (('k, 's) machine) sock_os \<Rightarrow> nat \<Rightarrow> nat \<Rightarrow>
   ('k, 's) machine \<Rightarrow> (bool \<times> unit \<times> ('k, 's) machine) res" where
  "connector_test ctl k0 alloc os t a = loop_test ctl k0 alloc t a (connector_body os)"

text \<open>\<open>EventLoopTest.runInLoop\<close>: the thread \<open>t\<close> makes a loop, the thread \<open>t2\<close> hands it a task, and \<open>loop()\<close> is not called.\<close>

definition runInLoop_test ::
  "('e \<Rightarrow> int + 'e) \<Rightarrow> ('k \<Rightarrow> ('k, 'e) evloop \<Rightarrow> ('k, 'e) evloop res) \<Rightarrow> nat \<Rightarrow> nat \<Rightarrow> 'k \<Rightarrow> int + 'e \<Rightarrow>
   (bool \<times> ('k, 'e) evloop) res" where
  "runInLoop_test efd_write exec t t2 hello efd =
     rbind (new_evloop t False efd) (\<lambda>l.
     rbind (runInLoop efd_write exec t2 hello l) (\<lambda>l1. Inr (isInLoopThread t l, l1)))"

text \<open>\<open>BufferTest.append\<close>: what the two expectations compare.\<close>

definition test_bytes :: string where
  "test_bytes = ''123456789abcdef'' @ [CHR 0x00]"

definition buffer_append_test :: "(nat \<times> bool) res" where
  "buffer_append_test =
     rbind (append_buf test_bytes (new_buffer 8)) (\<lambda>b.
     rbind (retrieveAllAsString b) (\<lambda>(s, b1). Inr (readableBytes b, cstr test_bytes = cstr s)))"

text \<open>\<open>TcpClientTest.Client\<close>, on the loop of the world \<open>w\<close>.\<close>

definition client_test ::
  "('e, 'o) os \<Rightarrow> 'o net_os \<Rightarrow> 'o sock_os \<Rightarrow> ('e, 'o, 'a) cworld client_callbacks \<Rightarrow> nat \<Rightarrow>
   ('e, 'o, 'a) cworld \<Rightarrow> ('e, 'o, 'a) cworld res" where
  "client_test os net sos cbs tid w =
     rbind (new_client sos host_1234 (cl_app (w_user w)) (w_os w)) (\<lambda>(cl, o1).
     rbind (client_start os net cbs tid (w\<lparr>w_user := cl, w_os := o1\<rparr>)) (\<lambda>w1.
     Inr (w1\<lparr>w_os := destroy_connector os (cl_connector (w_user w1)) (w_os w1)\<rparr>)))"

text \<open>
  \<open>TcpConnectionTest.Connector\<close>, a connector without a client around it, on the loop of the world \<open>w\<close>; its callback
  prints the address it is given.
\<close>

definition started_connector_test ::
  "('e, 'o) os \<Rightarrow> 'o net_os \<Rightarrow> 'o sock_os \<Rightarrow> (int \<Rightarrow> sockaddr_in \<Rightarrow> ('e, 'o, 'a) cworld \<Rightarrow> ('e, 'o, 'a) cworld res) \<Rightarrow>
   nat \<Rightarrow> ('e, 'o, 'a) cworld \<Rightarrow> (bool \<times> ('e, 'o, 'a) cworld) res" where
  "started_connector_test os net sos print_peer tid w =
     rbind (new_connector sos host_1234 (w_os w)) (\<lambda>(cn, o1).
     rbind (connector_start os net None (Some print_peer) tid (upd_connector (\<lambda>_. cn) (w\<lparr>w_os := o1\<rparr>))) (\<lambda>w1.
     Inr (isInLoopThread tid w, w1\<lparr>w_os := destroy_connector os (cl_connector (w_user w1)) (w_os w1)\<rparr>)))"

subsection \<open>The end of a test\<close>

lemma fds_okD:
  assumes "fds_ok p" and "pr_open p = ds"
  shows "\<forall>t. pr_cachedTid p t = 0 \<or> pr_cachedTid p t = t" and "distinct ds" and "\<forall>fd \<in> set ds. 0 \<le> fd"
  using assms unfolding fds_ok_def by blast+

lemma fds_ok_same: "fds_ok p \<Longrightarrow> pr_open p' = pr_open p \<Longrightarrow> pr_cachedTid p' = pr_cachedTid p \<Longrightarrow> fds_ok p'"
  by (simp add: fds_ok_def)

lemma destroy_own:
  assumes "loop_on t a l q" and "pr_open (fst q) = later @ loop_fds l @ before" and "fds_ok (fst q)"
  obtains p where "destroy_loop t a (fst q) = Inr p" and "pr_open p = later @ before" and "pr_eventloop p t = None"
    and "pr_loops p a = None" and "\<And>t2 a2. t2 \<noteq> t \<Longrightarrow> a2 \<noteq> a \<Longrightarrow> same_at t2 a2 q (p, snd q)"
proof -
  note d = fds_okD(2) [OF assms(3,2)]
  have "lo_timerfd l < 0 \<Longrightarrow> lo_timerfd l \<notin> set (later @ before)"
    using fds_okD(3) [OF assms(3,2)] by (metis Un_iff linorder_not_less set_append)
  then have "remove1 (lo_epfd l) (remove1 (lo_timerfd l) (remove1 (lo_wakeupfd l) (later @ loop_fds l @ before))) = later @ before"
    using d by (auto simp: loop_fds_def remove1_append remove1_idem)
  then show ?thesis
    using assms(1,2) by (intro that [of "(fst q)\<lparr>pr_eventloop := (pr_eventloop (fst q))(t := None), pr_open := later @ before,
        pr_loops := (pr_loops (fst q))(a := None)\<rparr>"]) (simp_all add: destroy_loop_def loop_on_def close_fd_def same_at_def Let_def)
qed

text \<open>
  A body gives back what it opens, except for the loops of the threads it starts, and so does the whole test.
  Without threads exactly the descriptors from before are open.
\<close>

definition ending :: "('k \<Rightarrow> loop_channel interest_list) \<Rightarrow> (nat \<Rightarrow> nat) \<Rightarrow> (nat \<Rightarrow> nat) \<Rightarrow> nat list \<Rightarrow> nat \<Rightarrow> nat \<Rightarrow>
    int list \<Rightarrow> ('k, 's) machine \<Rightarrow> bool" where
  "ending interest thread_of addr_of is t a before q \<longleftrightarrow>
     (\<exists>l ls. loop_on t a l q \<and> fds_ok (fst q) \<and> pool_running interest thread_of addr_of is ls q \<and>
          pr_open (fst q) = pool_fds ls @ loop_fds l @ before)"

abbreviation ending_alone :: "('k \<Rightarrow> loop_channel interest_list) \<Rightarrow> nat \<Rightarrow> nat \<Rightarrow> int list \<Rightarrow> ('k, 's) machine \<Rightarrow> bool" where
  "ending_alone interest \<equiv> ending interest (\<lambda>i. i) (\<lambda>i. i) []"

definition leaves_pool :: "('k \<Rightarrow> loop_channel interest_list) \<Rightarrow> (nat \<Rightarrow> nat) \<Rightarrow> (nat \<Rightarrow> nat) \<Rightarrow> nat list \<Rightarrow> nat \<Rightarrow> nat \<Rightarrow>
    ('k, 's) machine \<Rightarrow> ('k, 's) machine \<Rightarrow> bool" where
  "leaves_pool interest thread_of addr_of is t a q q' \<longleftrightarrow>
     (\<exists>ls. pool_running interest thread_of addr_of is ls q' \<and> pr_open (fst q') = pool_fds ls @ pr_open (fst q)) \<and>
     pr_eventloop (fst q') t = None \<and> pr_loops (fst q') a = None"

definition tidy :: "nat \<Rightarrow> nat \<Rightarrow> ('k, 's) machine \<Rightarrow> ('k, 's) machine \<Rightarrow> bool" where
  "tidy t a q q' \<longleftrightarrow> pr_open (fst q') = pr_open (fst q) \<and> pr_eventloop (fst q') t = None \<and> pr_loops (fst q') a = None"

lemma leaves_none: "leaves_pool interest thread_of addr_of [] t a q q' \<longleftrightarrow> tidy t a q q'"
  by (simp add: leaves_pool_def tidy_def)

lemma loop_test_leaves:
  fixes q :: "('k, 's) machine"
  assumes "epoll_fds ctl interest" and "fd_law alloc" and "interest k0 = Map.empty" and "vacant t a q"
    and own: "t \<notin> thread_of ` set ns" "a \<notin> addr_of ` set ns"
    and body: "\<And>l q1. looping_on interest t a [] (pr_open (fst q)) l q1 \<Longrightarrow> built interest t a l q q1 \<Longrightarrow>
      fails_or (pool_failures fate ns) (\<lambda>(x, q2). x = r \<and> ending interest thread_of addr_of ns t a (pr_open (fst q)) q2) (body q1)"
  shows "fails_or (pool_failures fate ns) (\<lambda>(here, x, q'). here \<and> x = r \<and> leaves_pool interest thread_of addr_of ns t a q q')
      (loop_test ctl k0 alloc t a body q)"
proof -
  have loop: "fails_or (pool_failures fate ns) (\<lambda>q'. \<exists>l. looping_on interest t a [] (pr_open (fst q)) l q' \<and> built interest t a l q q')
      (make_loop ctl k0 alloc t a q)"
    by (rule fails_or_more [OF make_loop_ok [OF assms(1-4)]]) (simp add: pool_failures_def)
  show ?thesis
    unfolding loop_test_def
  proof (rule fails_or_bind [OF loop], elim exE conjE)
    fix l and q1 :: "('k, 's) machine"
    assume lp: "looping_on interest t a [] (pr_open (fst q)) l q1" and b: "built interest t a l q q1"
    have "fails_or (pool_failures fate ns) (\<lambda>(here, x, q'). here \<and> x = r \<and> leaves_pool interest thread_of addr_of ns t a q q')
      (rbind (body q1) (\<lambda>(x, q3). rbind (destroy_loop t a (fst q3)) (\<lambda>p. Inr (True, x, (p, snd q3)))))"
    proof (rule fails_or_bind [OF body [OF lp b]], clarify)
      fix p3 :: "'k process" and n :: 's assume "ending interest thread_of addr_of ns t a (pr_open (fst q)) (p3, n)"
      then obtain l' ls where l': "loop_on t a l' (p3, n)" "fds_ok (fst (p3, n))" "pool_running interest thread_of addr_of ns ls (p3, n)"
        "pr_open (fst (p3, n)) = pool_fds ls @ loop_fds l' @ pr_open (fst q)"
        unfolding ending_def by blast
      obtain p where p: "destroy_loop t a (fst (p3, n)) = Inr p" "pr_open p = pool_fds ls @ pr_open (fst q)"
        "pr_eventloop p t = None" "pr_loops p a = None"
        and keep: "\<And>t2 a2. t2 \<noteq> t \<Longrightarrow> a2 \<noteq> a \<Longrightarrow> same_at t2 a2 (p3, n) (p, snd (p3, n))"
        by (rule destroy_own [OF l'(1,4,2)]) blast
      have "pool_running interest thread_of addr_of ns ls (p, snd (p3, n))"
        by (rule pool_running_same [OF _ l'(3)], intro ballI keep) (use own in auto)
      then have "leaves_pool interest thread_of addr_of ns t a q (p, n)" using p(2-4) by (auto simp: leaves_pool_def)
      with p(1) show "fails_or (pool_failures fate ns)
          (\<lambda>(here, x, q'). here \<and> x = r \<and> leaves_pool interest thread_of addr_of ns t a q q')
         (rbind (destroy_loop t a (fst (p3, n))) (\<lambda>p. Inr (True, r, (p, snd (p3, n)))))"
        by simp
    qed
    then show "fails_or (pool_failures fate ns) (\<lambda>(here, x, q'). here \<and> x = r \<and> leaves_pool interest thread_of addr_of ns t a q q')
      (rbind (ask_loop t a q1) (\<lambda>(here, q2). rbind (body q2) (\<lambda>(x, q3).
         rbind (destroy_loop t a (fst q3)) (\<lambda>p. Inr (here, x, (p, snd q3))))))"
      by (simp add: looping_ask [OF lp])
  qed
qed

lemma loop_test_tidy:
  fixes q :: "('k, 's) machine"
  assumes "epoll_fds ctl interest" and "fd_law alloc" and "interest k0 = Map.empty" and "vacant t a q"
    and body: "\<And>l q1. looping_on interest t a [] (pr_open (fst q)) l q1 \<Longrightarrow>
      aborts_or (\<lambda>(x, q2). x = r \<and> ending_alone interest t a (pr_open (fst q)) q2) (body q1)"
  shows "aborts_or (\<lambda>(here, x, q'). here \<and> x = r \<and> tidy t a q q') (loop_test ctl k0 alloc t a body q)"
proof -
  have "fails_or (pool_failures (\<lambda>_. Notified) []) (\<lambda>(here, x, q'). here \<and> x = r \<and> leaves_pool interest (\<lambda>i. i) (\<lambda>i. i) [] t a q q')
      (loop_test ctl k0 alloc t a body q)"
    by (rule loop_test_leaves [OF assms(1-4)]) (use body in simp_all)
  then show ?thesis by (simp add: leaves_none)
qed

text \<open>Threads without a loop other than \<open>t\<close>, and addresses for their loops other than \<open>a\<close>.\<close>

definition pool_free :: "(nat \<Rightarrow> nat) \<Rightarrow> (nat \<Rightarrow> nat) \<Rightarrow> nat list \<Rightarrow> nat \<Rightarrow> nat \<Rightarrow> ('k, 's) machine \<Rightarrow> bool" where
  "pool_free thread_of addr_of is t a q \<longleftrightarrow>
     spare thread_of addr_of is q \<and> t \<notin> thread_of ` set is \<and> a \<notin> addr_of ` set is"

lemma pool_free_built:
  assumes "pool_free thread_of addr_of is t a q" and "built interest t a l q q1"
  shows "pool_free thread_of addr_of is t a q1"
  using assms unfolding pool_free_def spare_def built_def by (auto simp: image_iff)

lemma pool_free_opened: "pool_free thread_of addr_of is t a q \<Longrightarrow> opened fd q q1 \<Longrightarrow> pool_free thread_of addr_of is t a q1"
  by (simp add: pool_free_def spare_def opened_def)

lemma pool_body_leaves:
  fixes q1 :: "('k, 's) machine"
  assumes "epoll_fds ctl interest" and "fd_law alloc" and "interest k0 = Map.empty"
    and lp: "looping_on interest t a [] before l q1" and free: "pool_free thread_of addr_of [0..<4] t a q1"
  shows "fails_or (pool_failures fate [0..<4]) (\<lambda>(x, q2). x = map addr_of [0..<4] \<and>
        ending interest thread_of addr_of [0..<4] t a before q2)
      (pool_body (start_thread ctl k0 alloc fate thread_of addr_of) t a q1)"
proof -
  have "[0..<4] = [0..<nat 4]" by simp
  note start = pool_start_ok [OF assms(1-3) lp _ _ _ this, of thread_of addr_of fate]
  have sp: "spare thread_of addr_of [0..<4] q1" "t \<notin> thread_of ` set [0..<4]" "a \<notin> addr_of ` set [0..<4]"
    using free unfolding pool_free_def by blast+
  show ?thesis
    unfolding pool_body_def Let_def looping_ask [OF lp] rbind_Inr prod.case
  proof (rule fails_or_bind [OF start [OF sp]], clarify)
    fix p2 :: "'k process" and n2 :: 's and ls
    assume "pool_running interest thread_of addr_of [0..<4] ls (p2, n2)" "looping_on interest t a (pool_fds ls @ []) before l (p2, n2)"
    then have "ending interest thread_of addr_of [0..<4] t a before (p2, n2)"
      unfolding ending_def looping_on_def by auto
    then show "fails_or (pool_failures fate [0..<4]) (\<lambda>(x, q2). x = map addr_of [0..<4] \<and>
        ending interest thread_of addr_of [0..<4] t a before q2)
       (Inr (lp_loops ((setThreadNum 4 (new_pool a))\<lparr>lp_started := True, lp_loops := map addr_of [0..<4]\<rparr>), (p2, n2)))"
      by simp
  qed
qed

text \<open>Closing a descriptor that is open once.\<close>

lemma close_later:
  assumes "fds_ok (fst q)" and "pr_open (fst q) = xs @ fd # ys"
  shows "fds_ok (close_fd fd (fst q))" and "pr_open (close_fd fd (fst q)) = xs @ ys"
proof -
  have "fd \<notin> set xs" using assms by (simp add: fds_ok_def)
  then show op: "pr_open (close_fd fd (fst q)) = xs @ ys" using assms(2) by (simp add: close_fd_def remove1_append)
  show "fds_ok (close_fd fd (fst q))"
    using fds_okD [OF assms] unfolding fds_ok_def op by (simp add: close_fd_def)
qed

lemma close_keeps:
  "loop_on t a l (close_fd fd (fst q), n) = loop_on t a l q"
  "pool_running interest thread_of addr_of is ls (close_fd fd (fst q), n) = pool_running interest thread_of addr_of is ls q"
  by (simp_all add: loop_on_def close_fd_def pool_running_def)

lemma serving_closed:
  assumes "serving interest t a b loops (pool_fds ls @ [fd]) before s q" and "ac_lfd (sv_acceptor s) = fd"
    and "pool_running interest thread_of addr_of is ls q"
  shows "ending interest thread_of addr_of is t a before (destroy_acceptor (sv_acceptor s) q)"
proof -
  obtain l where l: "loop_on t a l q" "pr_open (fst q) = pool_fds ls @ fd # loop_fds l @ before" "fds_ok (fst q)"
    using assms(1) by (auto simp: serving_def)
  with close_later [OF l(3,2)] assms(2,3) show ?thesis
    by (intro iffD2 [OF ending_def] exI [of _ l] exI [of _ ls]) (simp add: destroy_acceptor_def close_keeps)
qed

text \<open>The web server's \<open>main\<close> gives its directory back, too, before its acceptor.\<close>

lemma web_closed:
  assumes "serving interest t a b [] [dirfd (ws_location ws), fd] before s q" and "ac_lfd (sv_acceptor s) = fd"
  shows "ending_alone interest t a before (destroy_acceptor (sv_acceptor s) (destroy_webserver ws q))"
proof -
  let ?d = "dirfd (ws_location ws)" and ?q = "destroy_webserver ws q"
  obtain l where l: "loop_on t a l q" "pr_open (fst q) = [] @ ?d # fd # loop_fds l @ before" "fds_ok (fst q)"
    using assms(1) by (auto simp: serving_def)
  note c = close_later [OF l(3,2)]
  have q: "fds_ok (fst ?q)" "pr_open (fst ?q) = [] @ fd # loop_fds l @ before" "loop_on t a l ?q"
    using c l(1) by (simp_all add: destroy_webserver_def close_keeps)
  with close_later [OF q(1,2)] assms(2) show ?thesis
    by (intro iffD2 [OF ending_def] exI [of _ l] exI [of _ "[]"]) (simp add: destroy_acceptor_def close_keeps)
qed

lemma server_body_leaves:
  fixes q1 :: "('k, 's) machine"
  assumes "epoll_fds ctl interest" and "fd_law alloc" and "interest k0 = Map.empty" and "sockets_law os"
    and lp: "looping_on interest t a [] before l q1" and free: "pool_free thread_of addr_of is t a q1" and "is": "is = [0..<nat n]"
    and prep: "\<And>fd. prepare (fresh_server fd host_1234 a 0) = fresh_server fd host_1234 a n"
  shows "fails_or (pool_failures fate is) (\<lambda>(x, q2). x = map addr_of is \<and> ending interest thread_of addr_of is t a before q2)
      (server_body ctl os (start_thread ctl k0 alloc fate thread_of addr_of) prepare t a b q1)"
proof -
  let ?S = "start_thread ctl k0 alloc fate thread_of addr_of"
  have new: "fails_or (pool_failures fate is) (\<lambda>(s, q'). \<exists>fd. s = fresh_server fd host_1234 a 0 \<and> opened fd q1 q')
      (new_server os a host_1234 q1)"
    by (rule fails_or_more [OF new_server_fresh [OF assms(4)]]) (simp add: pool_failures_def)
  show ?thesis
    unfolding server_body_def
  proof (rule fails_or_bind [OF new], clarify)
    fix fd and p2 :: "'k process" and n2 :: 's assume opn: "opened fd q1 (p2, n2)"
    note lp2 = looping_opened [OF lp opn]
    have sp: "spare thread_of addr_of is (p2, n2)" "t \<notin> thread_of ` set is" "a \<notin> addr_of ` set is"
      using pool_free_opened [OF free opn] unfolding pool_free_def by blast+
    have fd: "fd \<in> set [fd]" by simp
    show "fails_or (pool_failures fate is) (\<lambda>(x, q2). x = map addr_of is \<and> ending interest thread_of addr_of is t a before q2)
        (rbind (start_on ctl os ?S t a b (prepare (fresh_server fd host_1234 a 0)) (p2, n2))
          (\<lambda>(s1, q2). Inr (lp_loops (sv_threads s1), destroy_acceptor (sv_acceptor s1) q2)))"
      unfolding prep
      by (rule fails_or_bind [OF start_on_serves [OF assms(1-4) lp2 fd sp "is"]], clarify)
        (use serving_closed in \<open>fastforce simp: serving_def\<close>)
  qed
qed

lemma server_body_tidy:
  fixes q1 :: "('k, 's) machine"
  assumes "epoll_fds ctl interest" and "fd_law alloc" and "interest k0 = Map.empty" and "sockets_law os"
    and lp: "looping_on interest t a [] before l q1"
  shows "aborts_or (\<lambda>(x, q2). x = [] \<and> ending_alone interest t a before q2) (server_body ctl os starLoop (\<lambda>server. server) t a b q1)"
proof -
  have start: "aborts_or (\<lambda>(s, q'). ac_lfd (sv_acceptor s) = fd \<and> serving interest t a b [] [fd] before s q')
      (start_on ctl os starLoop t a b (fresh_server fd host_1234 a 0) q2)"
    if "opened fd q1 q2" for fd and q2 :: "('k, 's) machine"
    by (rule start_alone_serves [OF assms(1-4) looping_opened [OF lp that]]) simp
  have closed: "ending_alone interest t a before (destroy_acceptor (sv_acceptor s) q')"
    if "serving interest t a b [] [ac_lfd (sv_acceptor s)] before s q'" for s and q' :: "('k, 's) machine"
    using serving_closed [of interest t a b "[]" "[]" "ac_lfd (sv_acceptor s)" before s q'] that by simp
  show ?thesis
    unfolding server_body_def
  proof (rule fails_or_bind [OF new_server_fresh [OF assms(4)]], clarify)
    fix fd and p2 :: "'k process" and n2 :: 's assume "opened fd q1 (p2, n2)"
    show "aborts_or (\<lambda>(x, q2). x = [] \<and> ending_alone interest t a before q2)
        (rbind (start_on ctl os starLoop t a b (fresh_server fd host_1234 a 0) (p2, n2))
          (\<lambda>(s1, q2). Inr (lp_loops (sv_threads s1), destroy_acceptor (sv_acceptor s1) q2)))"
      by (rule fails_or_bind [OF start [OF \<open>opened fd q1 (p2, n2)\<close>]], clarify) (use closed in \<open>auto simp: serving_def\<close>)
  qed
qed

lemma listen_body_tidy:
  fixes q1 :: "('k, 's) machine"
  assumes "epoll_fds ctl interest" and "sockets_law os" and lp: "looping_on interest t a [] before l q1"
  shows "aborts_or (\<lambda>(x, q2). x = () \<and> ending_alone interest t a before q2) (listen_body ctl os t a b q1)"
  unfolding listen_body_def
proof (rule fails_or_bind [OF new_acceptor_fresh [OF assms(2)]])
  fix x assume "case x of (ac, q2) \<Rightarrow> \<exists>fd. ac = fresh_acceptor fd host_1234 \<and> opened fd q1 q2"
  then obtain fd p2 n2 where x: "x = (fresh_acceptor fd host_1234, (p2, n2))" and "opened fd q1 (p2, n2)"
    by (cases x) auto
  note lp2 = looping_opened [OF lp this(2)]
  have lst: "aborts_or (\<lambda>(ac', q'). (\<exists>c. ac' = (fresh_acceptor fd host_1234)\<lparr>ac_channel := c\<rparr>) \<and>
        listening interest a b l (fresh_acceptor fd host_1234) (p2, n2) q')
      (acceptor_listen os (loop_ctl ctl a) (OtherChannel b) True (fresh_acceptor fd host_1234) (p2, n2))"
    by (rule listen_on_loop [OF assms(1,2) lp2]) simp
  have "aborts_or (\<lambda>(x, q2). x = () \<and> ending_alone interest t a before q2)
      (rbind (acceptor_listen os (loop_ctl ctl a) (OtherChannel b) True (fresh_acceptor fd host_1234) (p2, n2))
        (\<lambda>(ac1, q3). Inr ((), destroy_acceptor ac1 q3)))"
  proof (rule fails_or_bind [OF lst])
    fix r assume "case r of (ac', q') \<Rightarrow> (\<exists>c. ac' = (fresh_acceptor fd host_1234)\<lparr>ac_channel := c\<rparr>) \<and>
        listening interest a b l (fresh_acceptor fd host_1234) (p2, n2) q'"
    then obtain c p3 n3 where r: "r = ((fresh_acceptor fd host_1234)\<lparr>ac_channel := c\<rparr>, (p3, n3))"
      and "listening interest a b l (fresh_acceptor fd host_1234) (p2, n2) (p3, n3)"
      by (cases r) auto
    from listening_loop [OF lp2 this(2)] obtain k where k: "loop_on t a (l\<lparr>lo_poll := k\<rparr>) (p3, n3)"
      "pr_open (fst (p3, n3)) = [] @ fd # loop_fds (l\<lparr>lo_poll := k\<rparr>) @ before" "fds_ok (fst (p3, n3))"
      by (metis append_Cons append_Nil own_channels_poll(2))
    with close_later [OF k(3,2)] have "ending_alone interest t a before (destroy_acceptor ((fresh_acceptor fd host_1234)\<lparr>ac_channel := c\<rparr>) (p3, n3))"
      by (intro iffD2 [OF ending_def] exI [of _ "l\<lparr>lo_poll := k\<rparr>"] exI [of _ "[]"])
        (simp add: destroy_acceptor_def fresh_acceptor_def close_keeps [where q = "(p3, n3)", simplified])
    then show "aborts_or (\<lambda>(x, q2). x = () \<and> ending_alone interest t a before q2)
        (case r of (ac1, q3) \<Rightarrow> Inr ((), destroy_acceptor ac1 q3))" by (simp add: r)
  qed
  then show "aborts_or (\<lambda>(x, q2). x = () \<and> ending_alone interest t a before q2)
      (case x of (ac, q1) \<Rightarrow> rbind (ask_loop t a q1) (\<lambda>(inLoop, q2).
         rbind (acceptor_listen os (loop_ctl ctl a) (OtherChannel b) inLoop ac q2)
          (\<lambda>(ac1, q3). Inr ((), destroy_acceptor ac1 q3))))"
    by (simp add: x looping_ask [OF lp2])
qed


lemma channel_body_runs:
  assumes on: "loop_on t a l q1"
  shows "\<exists>k p. channel_body ctl t a b fd q1 = Inr ((), (p, snd q1)) \<and> loop_on t a (l\<lparr>lo_poll := k\<rparr>) (p, snd q1) \<and>
     pr_open p = pr_open (fst q1) \<and> pr_cachedTid p = pr_cachedTid (fst q1)"
proof -
  have l: "pr_loops (fst q1) a = Some l" using on by (simp add: loop_on_def)
  have nz: "EPOLLIN OR EPOLLPRI \<noteq> 0" by (simp add: epoll_consts)
  show ?thesis
  proof (cases "ctl CtlAdd fd (EPOLLIN OR EPOLLPRI, OtherChannel b) (lo_poll l)")
    case (Inl err)
    then show ?thesis
      using on by (intro exI [of _ "lo_poll l"] exI [of _ "fst q1"]) (simp add: channel_body_def ask_own [OF on]
          enableRead_def updateChannel_def isNoEvent_def poll_update_def new_channel_def loop_ctl_def l nz Let_def)
  next
    case (Inr k)
    let ?p = "(fst q1)\<lparr>pr_loops := (pr_loops (fst q1))(a \<mapsto> l\<lparr>lo_poll := k\<rparr>)\<rparr>"
    have "channel_body ctl t a b fd q1 = Inr ((), (?p, snd q1))"
      by (simp add: channel_body_def ask_own [OF on] enableRead_def updateChannel_def isNoEvent_def poll_update_def
          new_channel_def loop_ctl_def l nz Inr Let_def)
    with on show ?thesis by (intro exI [of _ k] exI [of _ ?p]) (simp add: loop_on_def)
  qed
qed

text \<open>A loop whose poller alone has changed.\<close>

lemma ending_polled:
  assumes "loop_on t a (l\<lparr>lo_poll := k\<rparr>) q" and "pr_open (fst q) = loop_fds l @ before" and "fds_ok (fst q)"
  shows "ending_alone interest t a before q"
  using assms by (intro iffD2 [OF ending_def] exI [of _ "l\<lparr>lo_poll := k\<rparr>"] exI [of _ "[]"]) simp

lemma channel_body_tidy:
  assumes "looping_on interest t a [] before l q1"
  shows "aborts_or (\<lambda>(x, q2). x = () \<and> ending_alone interest t a before q2) (channel_body ctl t a b fd q1)"
proof -
  have "loop_on t a l q1" using assms by (simp add: looping_on_def)
  then obtain k p where k: "channel_body ctl t a b fd q1 = Inr ((), (p, snd q1))"
    "loop_on t a (l\<lparr>lo_poll := k\<rparr>) (p, snd q1)" "pr_open p = pr_open (fst q1)" "pr_cachedTid p = pr_cachedTid (fst q1)"
    using channel_body_runs by blast
  have "fds_ok (fst (p, snd q1))" using fds_ok_same [of "fst q1" p] assms k(3,4) by (simp add: looping_on_def)
  moreover have "pr_open (fst (p, snd q1)) = loop_fds l @ before" using assms k(3) by (simp add: looping_on_def)
  ultimately show ?thesis using ending_polled [OF k(2)] k(1) by simp
qed

lemma timerfd_body_tidy:
  fixes q1 :: "('k, 's) machine"
  assumes "fd_law alloc" and lp: "looping_on interest t a [] before l q1"
  shows "aborts_or (\<lambda>(x, q2). x = () \<and> ending_alone interest t a before q2) (timerfd_body ctl alloc settime t a b q1)"
proof -
  obtain fd p0 where fd: "open_fd alloc (fst q1) = (fd, p0)" by (cases "open_fd alloc (fst q1)")
  have opn: "pr_open p0 = (if fd < 0 then [] else [fd]) @ pr_open (fst q1)" "loop_on t a l (p0, snd q1)"
    "fd \<notin> set (pr_open (fst q1))" "pr_cachedTid p0 = pr_cachedTid (fst q1)"
    using lp by (rule_tac open_fd_cases [OF assms(1) fd]; force simp: looping_on_def loop_on_def fds_ok_def)+
  obtain k p where k: "channel_body ctl t a b fd (p0, snd q1) = Inr ((), (p, snd q1))"
    "loop_on t a (l\<lparr>lo_poll := k\<rparr>) (p, snd q1)" "pr_open p = pr_open p0" "pr_cachedTid p = pr_cachedTid p0"
    using channel_body_runs [OF opn(2)] by fastforce
  let ?q = "(close_fd fd p, settime fd (snd q1))"
  have same: "pr_open (fst ?q) = pr_open (fst q1)"
    using opn(1,3) by (simp add: close_fd_def k(3) remove1_idem)
  then have "fds_ok (fst ?q)"
    using fds_ok_same [of "fst q1" "fst ?q"] lp opn(4) k(4) by (simp add: looping_on_def close_fd_def)
  moreover have "loop_on t a (l\<lparr>lo_poll := k\<rparr>) ?q" using k(2) by (simp add: loop_on_def close_fd_def)
  moreover have "pr_open (fst ?q) = loop_fds l @ before" using lp same by (simp add: looping_on_def)
  ultimately have "ending_alone interest t a before ?q" by (intro ending_polled)
  then show ?thesis using fd k(1) by (simp add: timerfd_body_def)
qed

lemma connector_body_tidy:
  assumes "sockets_law os" and lp: "looping_on interest t a [] before l q1"
  shows "aborts_or (\<lambda>(x, q2). x = () \<and> ending_alone interest t a before q2) (connector_body os q1)"
proof -
  obtain fd q2 where s: "so_socket os (int AF_INET) sock_type 0 q1 = (fd, q2)"
    by (cases "so_socket os (int AF_INET) sock_type 0 q1")
  have e: "ending_alone interest t a before (close_fd fd (fst q2), snd q2)" if "fd \<noteq> -1"
  proof -
    have "opened fd q1 q2" using sockets_lawD [OF assms(1) s] that by simp
    then have lp2: "looping_on interest t a [fd] before l q2" by (rule looping_opened [OF lp])
    then have *: "fds_ok (fst q2)" "pr_open (fst q2) = [] @ fd # loop_fds l @ before" "loop_on t a l q2"
      by (simp_all add: looping_on_def)
    with close_later [OF *(1,2)] show ?thesis
      by (intro iffD2 [OF ending_def] exI [of _ l] exI [of _ "[]"]) (simp add: close_keeps)
  qed
  show ?thesis
  proof (cases "fd = -1")
    case True
    then show ?thesis by (simp add: connector_body_def new_connector_def Socket_def s or_abort_def)
  next
    case False
    with e show ?thesis by (simp add: connector_body_def new_connector_def Socket_def s or_abort_def)
  qed
qed

subsection \<open>The smaller tests\<close>

text \<open>The task of the \<open>runInLoop\<close> test stays in the queue: nothing is printed.\<close>

lemma runInLoop_test_queued:
  assumes "t2 \<noteq> t"
  shows "\<exists>l. runInLoop_test efd_write exec t t2 hello (Inr e) = Inr (True, l) \<and> el_tasks l = [hello] \<and> \<not> el_looping l"
  using assms by (simp add: runInLoop_test_def new_evloop_def runInLoop_def isInLoopThread_def addTask_def push_task_def
      wakeup_def Let_def split: sum.split)

lemma buffer_append_test_passes: "buffer_append_test = Inr (16, True)"
proof -
  have len: "length test_bytes = 16" by (simp add: test_bytes_def)
  have "buffer_ok (new_buffer 8)" and "has_room (length test_bytes) (new_buffer 8)"
    by (simp_all add: new_buffer_ok new_buffer_room len kCheapPrepend_def kMaxSize_def)
  then obtain b where b: "append_buf test_bytes (new_buffer 8) = Inr b" "buffer_ok b" "readable b = test_bytes"
    by (rule append_buf_correct) (simp add: new_buffer_empty)
  obtain b' where "retrieveAsString (readableBytes b) b = Inr (take (readableBytes b) (readable b), b')"
    by (rule retrieveAsString_correct [OF b(2), of "readableBytes b"]) (simp_all add: readableBytes_length b(2))
  then have "retrieveAllAsString b = Inr (test_bytes, b')"
    by (simp add: retrieveAllAsString_def readableBytes_length b(2,3))
  then show ?thesis using b len by (simp add: buffer_append_test_def readableBytes_length)
qed

text \<open>The client of its test ends while its connection attempt is under way, and closes the descriptor.\<close>

lemma client_test_pending:
  assumes "epoll_kernel (os_ctl os) interest" and "keeps_interest net interest" and "isInLoopThread tid w"
    and "w_conn w = None" and "w_wire w = []" and "\<not> w_shut w"
    and "Socket sos (int AF_INET) sock_type 0 (w_os w) = Inr (fd, o1)" and "interest o1 fd = None"
    and "fst (no_connect net fd host_1234 o1) = EINPROGRESS"
  shows "\<exists>w1. client_test os net sos cbs tid w = Inr (w1\<lparr>w_os := os_close os fd (w_os w1)\<rparr>) \<and>
     w_conn w1 = None \<and> \<not> cl_connection (w_user w1) \<and> interest (w_os w1) = (interest o1)(fd \<mapsto> (EPOLLOUT, ()))"
proof -
  let ?cn = "\<lparr> cn_server = host_1234, cn_cfd = fd, cn_connected = False, cn_started = False, cn_channel = new_channel fd \<rparr>"
  let ?cl = "\<lparr> cl_connector = ?cn, cl_connection = False, cl_name = [], cl_tasks = [], cl_app = cl_app (w_user w) \<rparr>"
  let ?w = "w\<lparr>w_user := ?cl, w_os := o1\<rparr>"
  have new: "new_client sos host_1234 (cl_app (w_user w)) (w_os w) = Inr (?cl, o1)"
    by (simp add: new_client_def new_connector_def assms(7))
  have fresh: "client_fresh tid fd ?w" using assms(3-6) by (simp add: client_fresh_def)
  then obtain w1 where "client_start os net cbs tid ?w = Inr w1" "interest (w_os w1) = (interest (w_os ?w))(fd \<mapsto> (EPOLLOUT, ()))"
    "cn_cfd (cl_connector (w_user w1)) = fd" "\<not> cn_connected (cl_connector (w_user w1))" "\<not> cl_connection (w_user w1)"
    "w_conn w1 = None"
    using connector_start_pending [OF assms(1,2) fresh, of "clientError cbs" "Some (client_newConnection os net cbs tid)"]
      assms(8,9) unfolding client_start_in_loop [OF client_fresh_thread [OF fresh]] by auto
  then show ?thesis by (intro exI [of _ w1]) (simp add: client_test_def new destroy_connector_def)
qed

text \<open>So does the connector that is started without a client.\<close>

lemma started_connector_pending:
  assumes "epoll_kernel (os_ctl os) interest" and "keeps_interest net interest" and "isInLoopThread tid w"
    and "w_conn w = None" and "w_wire w = []" and "\<not> w_shut w" and "\<not> cl_connection (w_user w)"
    and "Socket sos (int AF_INET) sock_type 0 (w_os w) = Inr (fd, o1)" and "interest o1 fd = None"
    and "fst (no_connect net fd host_1234 o1) = EINPROGRESS"
  shows "\<exists>w1. started_connector_test os net sos print_peer tid w = Inr (True, w1\<lparr>w_os := os_close os fd (w_os w1)\<rparr>) \<and>
     w_conn w1 = None \<and> interest (w_os w1) = (interest o1)(fd \<mapsto> (EPOLLOUT, ()))"
proof -
  let ?cn = "\<lparr> cn_server = host_1234, cn_cfd = fd, cn_connected = False, cn_started = False, cn_channel = new_channel fd \<rparr>"
  let ?w = "upd_connector (\<lambda>_. ?cn) (w\<lparr>w_os := o1\<rparr>)"
  have fresh: "client_fresh tid fd ?w" using assms(3-7) by (simp add: client_fresh_def upd_connector_def isInLoopThread_def)
  have at: "interest (w_os ?w) fd = None"
    "fst (no_connect net fd (cn_server (cl_connector (w_user ?w))) (w_os ?w)) = EINPROGRESS"
    using assms(9,10) by (simp_all add: upd_connector_def)
  obtain w1 where "connector_start os net None (Some print_peer) tid ?w = Inr w1"
    "interest (w_os w1) = (interest o1)(fd \<mapsto> (EPOLLOUT, ()))"
    "cn_cfd (cl_connector (w_user w1)) = fd" "\<not> cn_connected (cl_connector (w_user w1))" "w_conn w1 = None"
    by (rule connector_start_pending [OF assms(1,2) fresh at, of None "Some print_peer"]) simp
  then show ?thesis
    using assms(3) by (intro exI [of _ w1]) (simp add: started_connector_test_def new_connector_def assms(8) destroy_connector_def)
qed

subsection \<open>Properties\<close>

text \<open>C20. The tests that construct a loop and what runs on it pass, and without threads they leave nothing behind: a channel for
  the standard input that is never disabled, one for a timerfd that is closed before the loop, a listening acceptor, the two
  servers without threads, and a connector that is not started.  Unless a system call whose error is fatal
  fails, \<open>ASSERT_TRUE(loop.isInLoopThread())\<close> holds, no assert fails, no freed object is used, and at the
  end the loop is gone, the thread has no loop and exactly the descriptors from before are open.  The server
  and the pool with four threads end in the same way if no notification of a new thread is lost, with the
  addresses of four loops as the pool's; but these loops, each with its thread and a poller that watches its own descriptors, are
  still there, and the descriptors open at the end are those from before and exactly the ones of the four.\<close>

theorem tests_tidy:
  fixes q :: "('k, 's) machine"
  assumes "lives ctl k0 alloc (fst q)" and "epoll_fds ctl interest" and "fd_law alloc" and "interest k0 = Map.empty"
    and "sockets_law os" and "pr_eventloop (fst q) t = None" and "pr_loops (fst q) a = None"
    and "pool_free thread_of addr_of [0..<4] t a q"
  shows "aborts_or (\<lambda>(here, x, q'). here \<and> tidy t a q q') (stdin_test ctl k0 alloc t a b q) \<and>
     aborts_or (\<lambda>(here, x, q'). here \<and> tidy t a q q') (timerfd_test ctl k0 alloc settime t a b q) \<and>
     aborts_or (\<lambda>(here, x, q'). here \<and> tidy t a q q') (listen_test ctl k0 alloc os t a b q) \<and>
     aborts_or (\<lambda>(here, loops, q'). here \<and> loops = [] \<and> tidy t a q q') (message_test ctl k0 alloc os starLoop t a b q) \<and>
     aborts_or (\<lambda>(here, loops, q'). here \<and> loops = [] \<and> tidy t a q q') (send_message_test ctl k0 alloc os starLoop t a b q) \<and>
     aborts_or (\<lambda>(here, x, q'). here \<and> tidy t a q q') (connector_test ctl k0 alloc os t a q) \<and>
     fails_or (pool_failures fate [0..<4]) (\<lambda>(here, loops, q'). here \<and> loops = map addr_of [0..<4] \<and>
          leaves_pool interest thread_of addr_of [0..<4] t a q q')
       (pool_server_test ctl k0 alloc os (start_thread ctl k0 alloc fate thread_of addr_of) t a b q) \<and>
     fails_or (pool_failures fate [0..<4]) (\<lambda>(here, loops, q'). here \<and> loops = map addr_of [0..<4] \<and>
          leaves_pool interest thread_of addr_of [0..<4] t a q q')
       (thread_pool_test ctl k0 alloc (start_thread ctl k0 alloc fate thread_of addr_of) t a q)"
proof -
  note vac = lives_vacant [OF assms(1-4,6,7)]
  note test = loop_test_tidy [OF assms(2-4) vac]
  have own: "t \<notin> thread_of ` set [0..<4]" "a \<notin> addr_of ` set [0..<4]"
    using assms(8) unfolding pool_free_def by blast+
  note pool = loop_test_leaves [OF assms(2-4) vac own]
  note free = pool_free_built [OF assms(8)]
  have unit: "aborts_or (\<lambda>(here, x, q'). here \<and> tidy t a q q') m"
    if "aborts_or (\<lambda>(here, x, q'). here \<and> x = () \<and> tidy t a q q') m" for m :: "(bool \<times> unit \<times> ('k, 's) machine) res"
    using that by (rule fails_or_mono) auto
  have server: "aborts_or (\<lambda>(here, loops, q'). here \<and> loops = [] \<and> tidy t a q q')
       (loop_test ctl k0 alloc t a (server_body ctl os starLoop (\<lambda>server. server) t a b) q)"
    by (rule test, rule server_body_tidy [OF assms(2-5)])
  have four: "[0..<4] = [0..<nat 4]" by simp
  have "aborts_or (\<lambda>(here, x, q'). here \<and> tidy t a q q') (stdin_test ctl k0 alloc t a b q)"
    unfolding stdin_test_def by (rule unit) (rule test, rule channel_body_tidy)
  moreover have "aborts_or (\<lambda>(here, x, q'). here \<and> tidy t a q q') (timerfd_test ctl k0 alloc settime t a b q)"
    unfolding timerfd_test_def by (rule unit) (rule test, rule timerfd_body_tidy [OF assms(3)])
  moreover have "aborts_or (\<lambda>(here, x, q'). here \<and> tidy t a q q') (listen_test ctl k0 alloc os t a b q)"
    unfolding listen_test_def by (rule unit) (rule test, rule listen_body_tidy [OF assms(2,5)])
  moreover have "aborts_or (\<lambda>(here, x, q'). here \<and> tidy t a q q') (connector_test ctl k0 alloc os t a q)"
    unfolding connector_test_def by (rule unit) (rule test, rule connector_body_tidy [OF assms(5)])
  moreover have "fails_or (pool_failures fate [0..<4]) (\<lambda>(here, loops, q'). here \<and> loops = map addr_of [0..<4] \<and>
        leaves_pool interest thread_of addr_of [0..<4] t a q q')
     (pool_server_test ctl k0 alloc os (start_thread ctl k0 alloc fate thread_of addr_of) t a b q)"
    unfolding pool_server_test_def
    by (rule pool, rule server_body_leaves [OF assms(2-5) _ free four fresh_server_threads])
  moreover have "fails_or (pool_failures fate [0..<4]) (\<lambda>(here, loops, q'). here \<and> loops = map addr_of [0..<4] \<and>
        leaves_pool interest thread_of addr_of [0..<4] t a q q')
     (thread_pool_test ctl k0 alloc (start_thread ctl k0 alloc fate thread_of addr_of) t a q)"
    unfolding thread_pool_test_def by (rule pool, rule pool_body_leaves [OF assms(2-4) _ free])
  ultimately show ?thesis using server unfolding message_test_def send_message_test_def by blast
qed

text \<open>The pool's test on the desktop: four threads construct their loops, and the test's own loop goes.\<close>

lemma construct_next:
  assumes "pr_cachedTid p t = 0" and "pr_eventloop p t = None" and "next_fd (pr_open p) = fd" and "0 \<le> fd"
  shows "construct_loop epoll_fd_ref Map.empty next_fd t a p =
     Inr (p\<lparr>pr_cachedTid := (pr_cachedTid p)(t := t), pr_eventloop := (pr_eventloop p)(t \<mapsto> a),
            pr_loops := (pr_loops p)(a \<mapsto> demo_loop t a fd), pr_open := [fd + 2, fd + 1, fd] @ pr_open p\<rparr>)"
proof -
  have g: "gettid t p = (t, p\<lparr>pr_cachedTid := (pr_cachedTid p)(t := t)\<rparr>)" using assms(1) by (simp add: gettid_def)
  have steps: "next_fd (fd # pr_open p) = fd + 1" "next_fd ((fd + 1) # fd # pr_open p) = fd + 2"
    using assms(3) by (simp_all add: next_fd_def)
  show ?thesis
    using assms(2-4)
    by (simp add: construct_loop_def g new_poll_def open_fd_def construct_timerq_def in_thread_def
       chan_do_update updateChannel_def isNoEvent_def mask_after_def poll_update_def epoll_fd_ref_def epoll_ref_def
       new_channel_def Let_def EPOLLIN_PRI_nonzero steps demo_loop_def)
qed

definition four_loops :: "loop_channel interest_list process" where
  "four_loops = \<lparr> pr_cachedTid = (\<lambda>_. 0)(10 := 10, 11 := 11, 12 := 12, 13 := 13, 14 := 14),
     pr_eventloop = [11 \<mapsto> 200, 12 \<mapsto> 300, 13 \<mapsto> 400, 14 \<mapsto> 500],
     pr_loops = [200 \<mapsto> demo_loop 11 200 6, 300 \<mapsto> demo_loop 12 300 9, 400 \<mapsto> demo_loop 13 400 12, 500 \<mapsto> demo_loop 14 500 15],
     pr_open = [17, 16, 15, 14, 13, 12, 11, 10, 9, 8, 7, 6] \<rparr>"

lemma four_started:
  "\<exists>p. start_threads (start_thread epoll_fd_ref Map.empty next_fd (\<lambda>_. Notified) (\<lambda>i. 11 + i) (\<lambda>i. 200 + 100 * i)) [0..<4]
      pool (one_loop, ()) = Inr (pool\<lparr>lp_loops := lp_loops pool @ [200, 300, 400, 500]\<rparr>, (p, ())) \<and>
     destroy_loop 10 100 p = Inr four_loops \<and> loop_on 10 100 (demo_loop 10 100 3) (p, ())"
  by (simp add: upt_rec start_thread_def make_loop_def construct_next one_loop_def next_fd_def destroy_loop_def close_fd_def
      loop_on_def demo_loop_def Let_def)
    (auto simp: four_loops_def demo_loop_def fun_eq_iff)

theorem tests_tidy_witness:
  "\<exists>q'. thread_pool_test epoll_fd_ref Map.empty next_fd
        (start_thread epoll_fd_ref Map.empty next_fd (\<lambda>_. Notified) (\<lambda>i. 11 + i) (\<lambda>i. 200 + 100 * i)) 10 100 (new_process, ())
       = Inr (True, [200, 300, 400, 500], q') \<and>
     leaves_pool (\<lambda>k. k) (\<lambda>i. 11 + i) (\<lambda>i. 200 + 100 * i) [0..<4] 10 100 (new_process, ()) q' \<and>
     pr_open (fst q') = [17, 16, 15, 14, 13, 12, 11, 10, 9, 8, 7, 6]"
proof -
  let ?S = "start_thread epoll_fd_ref Map.empty next_fd (\<lambda>_. Notified) (\<lambda>i. 11 + i) (\<lambda>i. 200 + 100 * i)"
  have one: "make_loop epoll_fd_ref Map.empty next_fd 10 100 (new_process, ()) = Inr (one_loop, ())"
    by (simp add: make_loop_def construct_one)
  have on: "ask_loop 10 100 (one_loop, ()) = Inr (True, (one_loop, ()))"
    by (rule ask_own [of _ _ "demo_loop 10 100 3"]) (simp add: loop_on_def one_loop_def demo_loop_def)
  have run: "thread_pool_test epoll_fd_ref Map.empty next_fd ?S 10 100 (new_process, ()) = Inr (True, [200, 300, 400, 500], (four_loops, ()))"
    using four_started [of "(setThreadNum 4 (new_pool 100))\<lparr>lp_started := True\<rparr>"]
    by (auto simp: thread_pool_test_def loop_test_def one on pool_body_def pool_start_def setThreadNum_def new_pool_def Let_def)
  have "lives epoll_fd_ref Map.empty next_fd (fst (new_process, ()))" by (simp add: begins)
  moreover have "pool_free (\<lambda>i. 11 + i) (\<lambda>i. 200 + 100 * i) [0..<4] 10 100 (new_process, ())"
    by (auto simp: pool_free_def spare_def new_process_def upt_rec)
  ultimately have "fails_or (pool_failures (\<lambda>_. Notified) [0..<4]) (\<lambda>(here, loops, q'). here \<and> loops = map (\<lambda>i. 200 + 100 * i) [0..<4] \<and>
          leaves_pool (\<lambda>k. k) (\<lambda>i. 11 + i) (\<lambda>i. 200 + 100 * i) [0..<4] 10 100 (new_process, ()) q')
       (thread_pool_test epoll_fd_ref Map.empty next_fd ?S 10 100 (new_process, ()))"
    by (intro tests_tidy [THEN conjunct2, THEN conjunct2, THEN conjunct2, THEN conjunct2, THEN conjunct2, THEN conjunct2, THEN conjunct2,
        OF _ efd.epoll_fds_axioms next_fd_law _ desk_sock_law]) (simp_all add: new_process_def)
  then show ?thesis unfolding run by (intro exI [of _ "(four_loops, ())"]) (simp add: four_loops_def)
qed

end
