(* ===== verification/SendFile.thy ===== *)
theory SendFile
  imports TcpConnection
begin

text \<open>
  A file behind a message, as \<open>TcpConnection::setSendFd\<close> and \<open>handleWrite\<close> send it: the message
  goes out first, then \<open>sendfile\<close> sends the file until \<open>st_size\<close> has come down to zero.  The
  rest of the file is an observation \<open>file\<close> of the operating system's state; \<open>file_law\<close> says
  what \<open>sendfile(2)\<close> documents, for a file whose length is the \<open>st_size\<close> that was given.
\<close>

definition file_law :: "('e, 'o) os \<Rightarrow> int \<Rightarrow> ('o \<Rightarrow> char list) \<Rightarrow> bool" where
  "file_law os sfd file \<longleftrightarrow>
     (\<forall>fd o1. case os_sendfile os fd sfd o1 of
        (Inl err, o2) \<Rightarrow> file o2 = file o1 | (Inr bytes, o2) \<Rightarrow> bytes @ file o2 = file o1) \<and>
     (\<forall>fd data o1. file (snd (os_write os fd data o1)) = file o1) \<and>
     (\<forall>op fd ev o1 o2. os_ctl os op fd ev o1 = Inr o2 \<longrightarrow> file o2 = file o1)"

lemma file_lawD:
  assumes "file_law os sfd file"
  shows "os_sendfile os fd sfd o1 = (Inl err, o2) \<Longrightarrow> file o2 = file o1"
    and "os_sendfile os fd sfd o1 = (Inr bytes, o2) \<Longrightarrow> bytes @ file o2 = file o1"
    and "file (snd (os_write os fd data o1)) = file o1"
    and "file (fst (poll_update (os_ctl os) op self ch o1)) = file o1"
proof -
  have 1: "case os_sendfile os fd sfd o1 of
      (Inl err, o2) \<Rightarrow> file o2 = file o1 | (Inr bytes, o2) \<Rightarrow> bytes @ file o2 = file o1" for fd :: int and o1
    using assms by (simp add: file_law_def)
  show "os_sendfile os fd sfd o1 = (Inl err, o2) \<Longrightarrow> file o2 = file o1" using 1 [of o1 fd] by simp
  show "os_sendfile os fd sfd o1 = (Inr bytes, o2) \<Longrightarrow> bytes @ file o2 = file o1" using 1 [of o1 fd] by simp
  show "file (snd (os_write os fd data o1)) = file o1" using assms by (simp add: file_law_def)
  show "file (fst (poll_update (os_ctl os) op self ch o1)) = file o1"
    using assms by (auto simp: poll_update_def file_law_def split: sum.split)
qed

text \<open>While a file is being sent: the bytes taken by the kernel, those in the output buffer and the
  rest of the file are \<open>acc\<close>, write interest is on and the write side is open.\<close>

definition file_state ::
  "('o \<Rightarrow> char list) \<Rightarrow> int \<Rightarrow> nat \<Rightarrow> nat \<Rightarrow> char list \<Rightarrow> ('e, 'o, 'u) world \<Rightarrow> tcp_conn \<Rightarrow> bool" where
  "file_state file sfd tid k acc w c \<longleftrightarrow>
     w_conn w = Some c \<and> buffer_ok (tc_outBuffer c) \<and> has_room k (tc_outBuffer c) \<and>
     tc_sendFd c = sfd \<and> tc_stSize c = int (length (file (w_os w))) \<and> file (w_os w) \<noteq> [] \<and>
     tc_state c \<in> {kConnected, kDisconnecting} \<and>
     ch_state (tc_channel c) = kAdded \<and> isReading (tc_channel c) \<and> isWriting (tc_channel c) \<and>
     isInLoopThread tid w \<and> 0 < w_refs w \<and> \<not> w_shut w \<and>
     w_wire w @ readable (tc_outBuffer c) @ file (w_os w) = acc"

lemma file_stateD:
  assumes "file_state file sfd tid k acc w c"
  shows "w_conn w = Some c" and "buffer_ok (tc_outBuffer c)" and "has_room k (tc_outBuffer c)"
    and "tc_sendFd c = sfd" and "tc_stSize c = int (length (file (w_os w)))" and "file (w_os w) \<noteq> []"
    and "tc_state c = kConnected \<or> tc_state c = kDisconnecting"
    and "ch_state (tc_channel c) = kAdded" and "isReading (tc_channel c)" and "isWriting (tc_channel c)"
    and "isInLoopThread tid w" and "0 < w_refs w" and "\<not> w_shut w"
    and "w_wire w @ readable (tc_outBuffer c) @ file (w_os w) = acc"
    and "readableBytes (tc_outBuffer c) = length (readable (tc_outBuffer c))"
  using assms by (auto simp: file_state_def readableBytes_length)

text \<open>Sending, or sent and streaming again.\<close>

definition delivering ::
  "('o \<Rightarrow> char list) \<Rightarrow> int \<Rightarrow> nat \<Rightarrow> nat \<Rightarrow> char list \<Rightarrow> ('e, 'o, 'u) world \<Rightarrow> tcp_conn \<Rightarrow> bool" where
  "delivering file sfd tid k acc w c \<longleftrightarrow>
     file_state file sfd tid k acc w c \<or> stream_state tid k acc w c"

lemma file_write_step:
  assumes st: "file_state file sfd tid k acc w c" and law: "file_law os sfd file"
    and wb: "write_bounded os" and q: "readable (tc_outBuffer c) \<noteq> []"
  obtains w' c' where "conn_handleWrite os cbs tid w = Inr w'" and "tc_state c' = tc_state c"
    and "file_state file sfd tid k acc w' c'"
proof -
  note s = file_stateD [OF st]
  let ?q = "readable (tc_outBuffer c)"
  obtain r o' where r: "os_write os (ch_fd (tc_channel c)) ?q (w_os w) = (r, o')"
    by (cases "os_write os (ch_fd (tc_channel c)) ?q (w_os w)")
  have keep: "file o' = file (w_os w)"
    using file_lawD(3) [OF law, of "ch_fd (tc_channel c)" ?q "w_os w"] r by simp
  have rd: "mem_read (peek (tc_outBuffer c)) (readableBytes (tc_outBuffer c))
      (buf_data (tc_outBuffer c)) = Inr ?q"
    using s by (simp add: peek_def mem_simps)
  show ?thesis
  proof (cases r)
    case (Inl err)
    have "conn_handleWrite os cbs tid w = Inr (w\<lparr>w_os := o'\<rparr>)"
      using s q rd r Inl by (simp add: conn_handleWrite_def)
    moreover have "file_state file sfd tid k acc (w\<lparr>w_os := o'\<rparr>) c"
      using st keep by (simp add: file_state_def)
    ultimately show ?thesis by (rule that [OF _ refl])
  next
    case (Inr n)
    have n: "n \<le> length ?q" using write_boundedD [OF wb] r Inr by simp
    from retrieve_correct [OF s(2) n] obtain b where b: "retrieve n (tc_outBuffer c) = Inr b"
      "buffer_ok b" "readable b = drop n ?q" "writerIndex b \<le> writerIndex (tc_outBuffer c)" .
    let ?c = "c\<lparr>tc_outBuffer := b\<rparr>"
    let ?w = "w\<lparr>w_os := o', w_wire := w_wire w @ take n ?q, w_conn := Some ?c\<rparr>"
    have size: "tc_stSize c \<noteq> 0" using s(5,6) by simp
    have run: "conn_handleWrite os cbs tid w = Inr ?w"
      using s(1,10,11,15) q rd r Inr b(1) size by (simp add: conn_handleWrite_def)
    have "file_state file sfd tid k acc ?w ?c"
      using st b s(3) keep by (simp add: file_state_def has_room_def) (metis append_assoc append_take_drop_id)
    then show ?thesis by (rule that [OF run, rotated]) simp
  qed
qed

lemma file_send_step:
  assumes st: "file_state file sfd tid k acc w c" and law: "file_law os sfd file"
    and q: "readable (tc_outBuffer c) = []"
  obtains w' c' where "conn_handleWrite os cbs tid w = Inr w'" and "tc_state c' = tc_state c"
    and "delivering file sfd tid k acc w' c'"
proof -
  note s = file_stateD [OF st]
  have size: "tc_stSize c \<noteq> 0" using s(5,6) by simp
  obtain r o' where r: "os_sendfile os (ch_fd (tc_channel c)) sfd (w_os w) = (r, o')"
    by (cases "os_sendfile os (ch_fd (tc_channel c)) sfd (w_os w)")
  show ?thesis
  proof (cases r)
    case (Inl err)
    then have run: "conn_handleWrite os cbs tid w = Inr (w\<lparr>w_os := o'\<rparr>)"
      using s q r size by (simp add: conn_handleWrite_def)
    have "file_state file sfd tid k acc (w\<lparr>w_os := o'\<rparr>) c"
      using st file_lawD(1) [OF law] r Inl by (simp add: file_state_def)
    then have "delivering file sfd tid k acc (w\<lparr>w_os := o'\<rparr>) c" by (simp add: delivering_def)
    then show ?thesis by (rule that [OF run, rotated]) simp
  next
    case (Inr bytes)
    then have rest: "bytes @ file o' = file (w_os w)" using file_lawD(2) [OF law] r by simp
    let ?n = "tc_stSize c - int (length bytes)"
    let ?c = "c\<lparr>tc_stSize := ?n\<rparr>"
    let ?w = "w\<lparr>w_os := o', w_wire := w_wire w @ bytes, w_conn := Some ?c\<rparr>"
    have n: "?n = int (length (file o'))" using s(5) rest [symmetric] by simp
    have acc: "w_wire w @ bytes @ file o' = acc" using s(14) q rest by simp
    show ?thesis
    proof (cases "file o' = []")
      case False
      then have run: "conn_handleWrite os cbs tid w = Inr ?w"
        using s(1,4,10,11,15) q r Inr size n by (simp add: conn_handleWrite_def)
      have "file_state file sfd tid k acc ?w ?c"
        using st n acc False q by (simp add: file_state_def)
      then have "delivering file sfd tid k acc ?w ?c" by (simp add: delivering_def)
      then show ?thesis by (rule that [OF run, rotated]) simp
    next
      case True
      obtain w1 where w1: "output_done os tid ?w = Inr w1" "stream_state tid k acc w1 (set_mask DisableWrite ?c)"
        by (rule output_done_stream [of ?w ?c tid k acc os]) (use s q n acc True in simp_all)
      have run: "conn_handleWrite os cbs tid w = Inr (w1\<lparr>w_os := os_close os sfd (w_os w1)\<rparr>)"
        using s(1,4,10,11,15) q r Inr size n True w1(1) by (simp add: conn_handleWrite_def)
      have "stream_state tid k acc (w1\<lparr>w_os := os_close os sfd (w_os w1)\<rparr>) (set_mask DisableWrite ?c)"
        using w1(2) by (simp add: stream_state_def)
      then have "delivering file sfd tid k acc (w1\<lparr>w_os := os_close os sfd (w_os w1)\<rparr>) (set_mask DisableWrite ?c)"
        by (simp add: delivering_def)
      then show ?thesis by (rule that [OF run, rotated]) simp
    qed
  qed
qed

lemma file_shutdown_step:
  assumes st: "file_state file sfd tid k acc w c"
  obtains w' c' where "conn_shutdown os cbs tid w = Inr w'" and "tc_state c' = kDisconnecting"
    and "file_state file sfd tid k acc w' c'"
proof (cases "tc_state c = kConnected")
  case False
  note s = file_stateD [OF st]
  have "conn_shutdown os cbs tid w = Inr w" using s False by (simp add: conn_shutdown_def)
  then show ?thesis using st s False by (intro that [of w c]) simp_all
next
  case True
  note s = file_stateD [OF st]
  let ?c = "c\<lparr>tc_state := kDisconnecting\<rparr>"
  let ?w = "w\<lparr>w_conn := Some ?c\<rparr>"
  have run: "conn_shutdown os cbs tid w = Inr ?w"
    using s True by (cases w) (simp add: conn_shutdown_def upd_conn_def run_task_def holding_def runInLoop_def
        exec_task_def shutdownInLoop_def release_def isInLoopThread_def)
  have "file_state file sfd tid k acc ?w ?c" using st by (simp add: file_state_def)
  then show ?thesis by (rule that [OF run, rotated]) simp
qed

lemma file_handleWrite:
  assumes "file_state file sfd tid k acc w c" and "file_law os sfd file" and "write_bounded os"
  obtains w' c' where "conn_handleWrite os cbs tid w = Inr w'" and "tc_state c' = tc_state c"
    and "delivering file sfd tid k acc w' c'"
proof (cases "readable (tc_outBuffer c) = []")
  case True
  from file_send_step [OF assms(1,2) True] obtain w' c' where
    "conn_handleWrite os cbs tid w = Inr w'" "tc_state c' = tc_state c" "delivering file sfd tid k acc w' c'" .
  then show ?thesis by (rule that)
next
  case False
  from file_write_step [OF assms False] obtain w' c' where
    "conn_handleWrite os cbs tid w = Inr w'" "tc_state c' = tc_state c" "file_state file sfd tid k acc w' c'" .
  then show ?thesis by (intro that [of w' c']) (simp_all add: delivering_def)
qed

lemma deliver_step:
  assumes del: "delivering file sfd tid k acc w c" and law: "file_law os sfd file"
    and wb: "write_bounded os" and wc: "benign (writeCompleteCallback cbs)" and op: "op \<in> {Writable, Shutdown}"
  obtains w' c' where "conn_step os cbs tid op w = Inr w'" and "delivering file sfd tid k acc w' c'"
    and "tc_state c' = kDisconnecting \<longleftrightarrow> tc_state c = kDisconnecting \<or> op = Shutdown"
proof (cases "op = Writable")
  case True
  have "\<exists>w' c'. conn_handleWrite os cbs tid w = Inr w' \<and> tc_state c' = tc_state c \<and> delivering file sfd tid k acc w' c'"
    using del file_handleWrite [OF _ law wb, of tid k acc w c cbs] handleWrite_stream [OF _ wb wc, of tid k acc w c]
    unfolding delivering_def by metis
  with True show ?thesis by (auto intro: that)
next
  case False
  then have op: "op = Shutdown" using op by simp
  have "\<exists>w' c'. conn_shutdown os cbs tid w = Inr w' \<and> tc_state c' = kDisconnecting \<and> delivering file sfd tid k acc w' c'"
    using del file_shutdown_step [where os = os and cbs = cbs] conn_shutdown_stream [where os = os and cbs = cbs]
    unfolding delivering_def by metis
  with op show ?thesis by (auto intro: that)
qed

lemma deliver_run:
  assumes "delivering file sfd tid k acc w c" and "file_law os sfd file"
    and "write_bounded os" and "benign (writeCompleteCallback cbs)" and "set ops \<subseteq> {Writable, Shutdown}"
  shows "\<exists>w' c'. run_list (conn_step os cbs tid) ops w = Inr w' \<and> delivering file sfd tid k acc w' c' \<and>
     (tc_state c' = kDisconnecting \<longleftrightarrow> tc_state c = kDisconnecting \<or> Shutdown \<in> set ops)"
  using assms(1,5)
proof (induction ops arbitrary: w c)
  case (Cons op ops)
  from Cons.prems(2) have "op \<in> {Writable, Shutdown}" "set ops \<subseteq> {Writable, Shutdown}" by auto
  from deliver_step [OF Cons.prems(1) assms(2-4) this(1)] obtain w1 c1 where
    "conn_step os cbs tid op w = Inr w1" "delivering file sfd tid k acc w1 c1"
    "tc_state c1 = kDisconnecting \<longleftrightarrow> tc_state c = kDisconnecting \<or> op = Shutdown" .
  with Cons.IH [of w1 c1] \<open>set ops \<subseteq> {Writable, Shutdown}\<close> show ?case by auto
qed auto

text \<open>The message in front of the file: what the direct write leaves goes to the output buffer, and
  write interest is switched on for the file even if nothing is left.\<close>

lemma send_before_file:
  assumes st: "stream_state tid (length data + k) acc w c" and conn: "tc_state c = kConnected"
    and law: "file_law os sfd file" and wb: "write_bounded os" and wc: "benign (writeCompleteCallback cbs)"
    and content: "file (w_os w) \<noteq> []"
  obtains w' c' where
    "conn_send os cbs tid data (upd_conn (setSendFd sfd (int (length (file (w_os w))))) w) = Inr w'"
    and "file_state file sfd tid k (acc @ data @ file (w_os w)) w' c'" and "tc_state c' = kConnected"
proof -
  note s = stream_stateD [OF st] and c = streamingD [OF stream_stateD(2) [OF st]]
  let ?n = "int (length (file (w_os w)))"
  let ?c0 = "setSendFd sfd ?n c"
  let ?w0 = "upd_conn (setSendFd sfd ?n) w"
  have w0: "w_conn ?w0 = Some ?c0" "0 < w_refs ?w0" "isInLoopThread tid ?w0"
    using s by (simp_all add: upd_conn_def)
  have c0: "tc_outBuffer ?c0 = tc_outBuffer c" "tc_channel ?c0 = tc_channel c" "tc_state ?c0 = kConnected"
    "tc_stSize ?c0 = ?n" "tc_sendFd ?c0 = sfd"
    using conn by (simp_all add: setSendFd_def)
  have size: "?n \<noteq> 0" using content by simp
  obtain n o' u where dw: "direct_write os cbs data ?w0
      = Inr (n, ?w0\<lparr>w_os := o', w_wire := w_wire ?w0 @ take n data, w_user := u\<rparr>)"
    and n: "n \<le> length data" "0 < n \<longrightarrow> readable (tc_outBuffer ?c0) = []"
    and o': "o' = w_os ?w0 \<or> o' = snd (os_write os (ch_fd (tc_channel ?c0)) data (w_os ?w0))"
    by (rule direct_write_cases [OF w0(1) _ w0(2) wb wc]) (use c(1) in \<open>simp_all add: c0\<close>)
  note n = n [unfolded c0(1)]
  let ?w1 = "?w0\<lparr>w_os := o', w_wire := w_wire ?w0 @ take n data, w_user := u\<rparr>"
  have file1: "file o' = file (w_os w)" using o' file_lawD(3) [OF law] by (auto simp: upd_conn_def)
  have "has_room (length (drop n data) + k) (tc_outBuffer c)" using s(5) n by (simp add: has_room_def)
  with c(1) obtain b where b: "append_buf (drop n data) (tc_outBuffer c) = Inr b" "buffer_ok b"
      "has_room k b" "readable b = readable (tc_outBuffer c) @ drop n data"
    using buf.enq_law by blast
  let ?c2 = "?c0\<lparr>tc_outBuffer := b\<rparr>"
  let ?w2 = "upd_conn (\<lambda>c. c\<lparr>tc_outBuffer := b\<rparr>) ?w1"
  have send: "conn_send os cbs tid data ?w0
      = (if \<not> isWriting (tc_channel c) then conn_channel os tid EnableWrite ?w2 else Inr ?w2)"
    using w0 c0 dw b(1) size s(1) by (simp add: conn_send_def sendInLoop_def upd_conn_def)
  have bytes: "w_wire w @ take n data @ readable b @ file (w_os w) = acc @ data @ file (w_os w)"
    using n s(6) b(4) by (cases "n = 0") auto
  have closed: "\<not> w_shut w" using s(7) conn by simp
  have mid: "w_conn ?w2 = Some ?c2" "isInLoopThread tid ?w2" using s(1,3) by (simp_all add: upd_conn_def)
  show ?thesis
  proof (cases "isWriting (tc_channel c)")
    case True
    have "file_state file sfd tid k (acc @ data @ file (w_os w)) ?w2 ?c2"
      using True b c(3,4) c0 file1 content bytes closed s by (simp add: file_state_def upd_conn_def)
    then show ?thesis using send True c0 by (intro that [of ?w2 ?c2]) simp_all
  next
    case False
    let ?ch = "(tc_channel c)\<lparr>ch_events := mask_after EnableWrite (ch_events (tc_channel c))\<rparr>"
    let ?o = "fst (poll_update (os_ctl os) CtlMod () ?ch o')"
    let ?c3 = "set_mask EnableWrite ?c2"
    have "\<not> isNoEvent ?ch"
      using set_mask_bits(1) [of EnableWrite c] c(4) by (auto simp: isNoEvent_def isReading_bit set_mask_def)
    then have "conn_channel os tid EnableWrite ?w2 = Inr (?w2\<lparr>w_conn := Some ?c3, w_os := ?o\<rparr>)"
      using mid c0 c(3)
      by (simp add: conn_channel_def chan_do_update updateChannel_def set_mask_def upd_conn_def split: prod.split)
    moreover have "file_state file sfd tid k (acc @ data @ file (w_os w)) (?w2\<lparr>w_conn := Some ?c3, w_os := ?o\<rparr>) ?c3"
      using b c(3,4) c0 file1 content bytes closed s file_lawD(4) [OF law]
      by (simp add: file_state_def upd_conn_def)
    ultimately show ?thesis
      using send False c0 by (intro that [of "?w2\<lparr>w_conn := Some ?c3, w_os := ?o\<rparr>" ?c3]) simp_all
  qed
qed


lemma send_delivering:
  assumes "stream_state tid (length data) acc w c" and "tc_state c = kConnected"
    and "file_law os sfd file" and "write_bounded os" and "benign (writeCompleteCallback cbs)"
  shows "\<exists>w1 c1. conn_send os cbs tid data (upd_conn (setSendFd sfd (int (length (file (w_os w))))) w) = Inr w1 \<and>
      delivering file sfd tid 0 (acc @ data @ file (w_os w)) w1 c1 \<and> tc_state c1 = kConnected"
proof -
  let ?w0 = "upd_conn (setSendFd sfd (int (length (file (w_os w))))) w"
  have st: "stream_state tid (length data + 0) acc w c" using assms(1) by simp
  show ?thesis
  proof (cases "file (w_os w) = []")
    case False
    from send_before_file [OF st assms(2-5) False] show ?thesis unfolding delivering_def by metis
  next
    case True
    let ?c0 = "setSendFd sfd 0 c"
    have "stream_state tid (length data + 0) acc ?w0 ?c0"
      using st True by (simp add: stream_state_def streaming_def upd_conn_def setSendFd_def)
    moreover have "tc_state ?c0 = kConnected" using assms(2) by (simp add: setSendFd_def)
    ultimately obtain w1 c1 where "conn_send os cbs tid data ?w0 = Inr w1" "tc_state c1 = kConnected"
      "stream_state tid 0 (acc @ data) w1 c1"
      using conn_send_stream [OF _ assms(4,5), of tid data 0 acc ?w0 ?c0] by metis
    with True show ?thesis by (intro exI [of _ w1] exI [of _ c1]) (simp add: delivering_def)
  qed
qed

subsection \<open>Progress\<close>

text \<open>A writable socket takes at least one byte, and \<open>sendfile\<close> sends at least one byte of a file
  that is not at its end.\<close>

definition progressing :: "('e, 'o) os \<Rightarrow> int \<Rightarrow> ('o \<Rightarrow> char list) \<Rightarrow> bool" where
  "progressing os sfd file \<longleftrightarrow>
     (\<forall>fd data o1. data \<noteq> [] \<longrightarrow> (\<exists>n o2. os_write os fd data o1 = (Inr n, o2) \<and> 0 < n)) \<and>
     (\<forall>fd o1. file o1 \<noteq> [] \<longrightarrow> (\<exists>bytes o2. os_sendfile os fd sfd o1 = (Inr bytes, o2) \<and> bytes \<noteq> []))"

lemma notify_wire:
  assumes "notify os cb w = Inr w'" and "benign cb"
  shows "w_wire w' = w_wire w"
proof (cases cb)
  case None
  with assms(1) show ?thesis by (auto simp: notify_def with_conn_def split: option.splits)
next
  case (Some f)
  with assms(2) obtain u where "f (w\<lparr>w_refs := w_refs w + 1\<rparr>) = Inr (w\<lparr>w_refs := w_refs w + 1, w_user := u\<rparr>)"
    by (auto simp: benign_def)
  with assms(1) Some show ?thesis
    by (auto simp: notify_def with_conn_def holding_def release_def destroy_conn_def res_simps Let_def
        split: option.splits if_splits)
qed

text \<open>What is left to send in a state that delivers \<open>acc\<close>.\<close>

lemma delivering_left:
  assumes "delivering file sfd tid k acc w c"
  shows "w_wire w @ readable (tc_outBuffer c) @ (if tc_stSize c = 0 then [] else file (w_os w)) = acc"
    and "w_conn w = Some c" and "isInLoopThread tid w" and "buffer_ok (tc_outBuffer c)"
    and "tc_stSize c \<noteq> 0 \<Longrightarrow> tc_sendFd c = sfd \<and> file (w_os w) \<noteq> []"
    and "isWriting (tc_channel c) \<longleftrightarrow> readable (tc_outBuffer c) @ (if tc_stSize c = 0 then [] else file (w_os w)) \<noteq> []"
    and "w_shut w \<longleftrightarrow> tc_state c = kDisconnecting \<and> w_wire w = acc"
  using assms by (auto simp: delivering_def file_state_def stream_state_def streaming_def)

lemma append_whole: "xs @ ys = zs \<Longrightarrow> length zs \<le> length xs \<Longrightarrow> ys = []"
  by auto

lemma handleWrite_progress:
  assumes del: "delivering file sfd tid k acc w c" and pr: "progressing os sfd file"
    and wc: "benign (writeCompleteCallback cbs)" and run: "conn_handleWrite os cbs tid w = Inr w'"
  shows "w_wire w = acc \<and> w' = w \<or> length (w_wire w) < length (w_wire w')"
proof (cases "isWriting (tc_channel c)")
  case False
  then have "conn_handleWrite os cbs tid w = Inr w"
    using delivering_left(2,3) [OF del] by (simp add: conn_handleWrite_def)
  with False run show ?thesis using delivering_left(1,6) [OF del] by auto
next
  case writing: True
  note s = delivering_left [OF del]
  let ?q = "readable (tc_outBuffer c)"
  have len: "readableBytes (tc_outBuffer c) = length ?q" by (rule readableBytes_length [OF s(4)])
  show ?thesis
  proof (cases "?q = []")
    case False
    obtain n o' where n: "os_write os (ch_fd (tc_channel c)) ?q (w_os w) = (Inr n, o')" "0 < n"
      using pr False unfolding progressing_def by blast
    have rd: "mem_read (peek (tc_outBuffer c)) (length ?q) (buf_data (tc_outBuffer c)) = Inr ?q"
      using s(4) len by (simp add: peek_def mem_simps)
    have "w_wire w' = w_wire w @ take n ?q"
      using run s(2,3) writing False len rd n(1)
      by (auto simp: conn_handleWrite_def res_simps Let_def dest!: output_done_wire notify_wire [OF _ wc] split: if_splits)
    with n(2) False show ?thesis by simp
  next
    case True
    with writing s(6) have size: "tc_stSize c \<noteq> 0" by (auto split: if_splits)
    then have f: "tc_sendFd c = sfd" "file (w_os w) \<noteq> []" using s(5) by auto
    obtain bytes o' where n: "os_sendfile os (ch_fd (tc_channel c)) sfd (w_os w) = (Inr bytes, o')" "bytes \<noteq> []"
      using pr f(2) unfolding progressing_def by blast
    have "w_wire w' = w_wire w @ bytes"
      using run s(2,3) writing True len size f(1) n(1)
      by (auto simp: conn_handleWrite_def res_simps Let_def dest!: output_done_wire split: if_splits)
    with n(2) show ?thesis by simp
  qed
qed

lemma writable_run:
  assumes "delivering file sfd tid k acc w c" and "file_law os sfd file"
    and "write_bounded os" and "benign (writeCompleteCallback cbs)" and "progressing os sfd file"
  shows "\<exists>w' c'. run_list (conn_step os cbs tid) (replicate n Writable) w = Inr w' \<and>
     delivering file sfd tid k acc w' c' \<and> tc_state c' = tc_state c \<and>
     min (length acc) (length (w_wire w) + n) \<le> length (w_wire w')"
  using assms(1)
proof (induction n arbitrary: w c)
  case 0
  then show ?case by auto
next
  case (Suc n)
  have "\<exists>w1 c1. conn_handleWrite os cbs tid w = Inr w1 \<and> tc_state c1 = tc_state c \<and> delivering file sfd tid k acc w1 c1"
    using Suc.prems file_handleWrite [OF _ assms(2,3)] handleWrite_stream [OF _ assms(3,4)]
    unfolding delivering_def by metis
  then obtain w1 c1 where w1: "conn_handleWrite os cbs tid w = Inr w1" "tc_state c1 = tc_state c"
    "delivering file sfd tid k acc w1 c1" by blast
  have grows: "w_wire w = acc \<and> w1 = w \<or> length (w_wire w) < length (w_wire w1)"
    by (rule handleWrite_progress [OF Suc.prems assms(5,4) w1(1)])
  obtain w' c' where w': "run_list (conn_step os cbs tid) (replicate n Writable) w1 = Inr w'"
    "delivering file sfd tid k acc w' c'" "tc_state c' = tc_state c1"
    "min (length acc) (length (w_wire w1) + n) \<le> length (w_wire w')"
    using Suc.IH [OF w1(3)] by blast
  have "min (length acc) (length (w_wire w) + Suc n) \<le> length (w_wire w')"
    using grows w'(4) by auto
  with w1 w' show ?case by (intro exI [of _ w'] exI [of _ c']) simp
qed

lemma writable_all:
  assumes "delivering file sfd tid k acc w c" and "file_law os sfd file"
    and "write_bounded os" and "benign (writeCompleteCallback cbs)" and "progressing os sfd file" and "length acc \<le> n"
  obtains w' c' where "run_list (conn_step os cbs tid) (replicate n Writable) w = Inr w'" and "w_conn w' = Some c'"
    and "w_wire w' = acc" and "\<not> isWriting (tc_channel c')" and "w_shut w' \<longleftrightarrow> tc_state c = kDisconnecting"
proof -
  obtain w' c' where w': "run_list (conn_step os cbs tid) (replicate n Writable) w = Inr w'"
    "delivering file sfd tid k acc w' c'" "tc_state c' = tc_state c"
    "min (length acc) (length (w_wire w) + n) \<le> length (w_wire w')"
    using writable_run [OF assms(1-5), of n] by auto
  note s = delivering_left [OF w'(2)]
  have "length acc \<le> length (w_wire w')" using w'(4) assms(6) by auto
  then have left: "readable (tc_outBuffer c') @ (if tc_stSize c' = 0 then [] else file (w_os w')) = []"
    by (rule append_whole [OF s(1)])
  then show ?thesis using w'(1,3) s(1,2,6,7) by (intro that [of w' c']) simp_all
qed

subsection \<open>Properties\<close>

text \<open>C31. A file behind a message arrives whole, behind it, and the connection is closed only at
  its end.  After \<open>setSendFd\<close> with the file's size and one \<open>send\<close>, for every sequence of
  writable events and shutdowns, whatever part of the message each \<open>write\<close> and of the file
  each \<open>sendfile\<close> takes: no assert fails, the bytes the kernel took, those in the output
  buffer and (while \<open>st_size\<close> is not zero) the rest of the file are exactly what was sent
  before, the message and the file's content, in order; write interest is on while any of
  them is left; and \<open>shutdown(SHUT_WR)\<close> has been called exactly when a shutdown was asked
  for and nothing is left.\<close>

theorem file_stream:
  assumes "stream_state tid (length data) acc w c" and "tc_state c = kConnected"
    and "file_law os sfd file" and "write_bounded os" and "benign (writeCompleteCallback cbs)"
    and "set ops \<subseteq> {Writable, Shutdown}"
  shows "\<exists>w' c'. rbind (conn_send os cbs tid data (upd_conn (setSendFd sfd (int (length (file (w_os w))))) w))
        (run_list (conn_step os cbs tid) ops) = Inr w' \<and> w_conn w' = Some c' \<and>
     (let left = readable (tc_outBuffer c') @ (if tc_stSize c' = 0 then [] else file (w_os w')) in
      w_wire w' @ left = acc @ data @ file (w_os w) \<and> (left \<noteq> [] \<longrightarrow> isWriting (tc_channel c')) \<and>
      (w_shut w' \<longleftrightarrow> Shutdown \<in> set ops \<and> left = []))"
proof -
  let ?w0 = "upd_conn (setSendFd sfd (int (length (file (w_os w))))) w"
  obtain w1 c1 where w1: "conn_send os cbs tid data ?w0 = Inr w1"
    "delivering file sfd tid 0 (acc @ data @ file (w_os w)) w1 c1" "tc_state c1 = kConnected"
    using send_delivering [OF assms(1-5)] by blast
  from deliver_run [OF w1(2) assms(3-6)] w1(3) obtain w' c' where
    w': "run_list (conn_step os cbs tid) ops w1 = Inr w'"
      "delivering file sfd tid 0 (acc @ data @ file (w_os w)) w' c'"
      "tc_state c' = kDisconnecting \<longleftrightarrow> Shutdown \<in> set ops" by auto
  show ?thesis
  proof (rule exI [of _ w'], rule exI [of _ c'], intro conjI)
    show "rbind (conn_send os cbs tid data ?w0) (run_list (conn_step os cbs tid) ops) = Inr w'"
      using w1(1) w'(1) by simp
    show "w_conn w' = Some c'" using w'(2) by (auto simp: delivering_def file_state_def stream_state_def)
    show "let left = readable (tc_outBuffer c') @ (if tc_stSize c' = 0 then [] else file (w_os w')) in
      w_wire w' @ left = acc @ data @ file (w_os w) \<and> (left \<noteq> [] \<longrightarrow> isWriting (tc_channel c')) \<and>
      (w_shut w' \<longleftrightarrow> Shutdown \<in> set ops \<and> left = [])"
      using w'(2,3) by (auto simp: delivering_def file_state_def stream_state_def streaming_def)
  qed
qed

text \<open>An operating system whose state is the rest of the file; it takes three bytes of a message
  and two of the file at a time.\<close>

definition file_os :: "(nat, char list) os" where
  "file_os = \<lparr> os_efd_write = counter_write, os_ctl = (\<lambda>op fd ev f. Inr f),
     os_write = (\<lambda>fd data f. (Inr (min 3 (length data)), f)),
     os_sendfile = (\<lambda>fd sfd f. (Inr (take 2 f), drop 2 f)),
     os_readv = (\<lambda>fd lens f. (ReadvData [], f)), os_shutdown = (\<lambda>fd f. f), os_close = (\<lambda>fd f. f) \<rparr>"

definition file_conn :: tcp_conn where
  "file_conn = (new_connection 5)\<lparr>tc_state := kConnected,
     tc_channel := (new_channel 5)\<lparr>ch_events := EPOLLIN OR EPOLLPRI, ch_state := kAdded\<rparr>\<rparr>"

definition file_world :: "(nat, char list, nat) world" where
  "file_world = \<lparr> el_tid = 1, el_quit = False, el_tasks = [], el_runningTasks = False,
     el_looping = True, el_wakeupfd = 0, w_conn = Some file_conn, w_os = ''page'',
     w_refs = 1, w_user = 0, w_wire = [], w_shut = False \<rparr>"

definition no_callbacks :: "(nat, char list, nat) world conn_callbacks" where
  "no_callbacks = \<lparr> connectionCallback = None, messageCallback = None, closeCallback = None,
     writeCompleteCallback = None \<rparr>"

lemma file_world_stream: "stream_state 1 (length ''head'') [] file_world file_conn"
  by (simp add: stream_state_def streaming_def file_world_def file_conn_def new_connection_def
      new_buffer_ok new_buffer_empty new_buffer_room kCheapPrepend_def kMaxSize_def isInLoopThread_def
      isReading_bit isWriting_bit bit_simps)

lemma file_os_law: "file_law file_os 8 (\<lambda>f. f)"
  by (simp add: file_law_def file_os_def)

lemma file_os_bounded: "write_bounded file_os"
  by (auto simp: write_bounded_def file_os_def)

lemma no_callbacks_benign: "benign (writeCompleteCallback no_callbacks)"
  by (simp add: benign_def no_callbacks_def)

theorem file_stream_witness:
  "\<exists>w' c'. rbind (conn_send file_os no_callbacks 1 ''head'' (upd_conn (setSendFd 8 4) file_world))
        (run_list (conn_step file_os no_callbacks 1) [Shutdown, Writable, Writable]) = Inr w' \<and> w_conn w' = Some c' \<and>
     (let left = readable (tc_outBuffer c') @ (if tc_stSize c' = 0 then [] else w_os w') in
      w_wire w' @ left = ''headpage'' \<and> (left \<noteq> [] \<longrightarrow> isWriting (tc_channel c')) \<and> (w_shut w' \<longleftrightarrow> left = []))"
  using file_stream [OF file_world_stream _ file_os_law file_os_bounded no_callbacks_benign,
      of "[Shutdown, Writable, Writable]"]
  by (simp add: file_world_def file_conn_def)

text \<open>The output is completed: when every writable event takes at least one byte, as many
  writable events as there are bytes bring out everything sent before, the message and the
  file, then turn the write interest off and shut the write side down.\<close>

lemma output_completes:
  assumes "stream_state tid (length data) acc w c" and "tc_state c = kConnected"
    and "file_law os sfd file" and "write_bounded os" and "benign (writeCompleteCallback cbs)"
    and "progressing os sfd file" and "length (acc @ data @ file (w_os w)) \<le> n"
  shows "\<exists>w' c'. rbind (conn_send os cbs tid data (upd_conn (setSendFd sfd (int (length (file (w_os w))))) w))
        (run_list (conn_step os cbs tid) (Shutdown # replicate n Writable)) = Inr w' \<and> w_conn w' = Some c' \<and>
     w_wire w' = acc @ data @ file (w_os w) \<and> \<not> isWriting (tc_channel c') \<and> w_shut w'"
proof -
  let ?acc = "acc @ data @ file (w_os w)"
  obtain w1 c1 where w1: "conn_send os cbs tid data (upd_conn (setSendFd sfd (int (length (file (w_os w))))) w) = Inr w1"
    "delivering file sfd tid 0 ?acc w1 c1" using send_delivering [OF assms(1-5)] by blast
  obtain w2 c2 where w2: "conn_step os cbs tid Shutdown w1 = Inr w2" "delivering file sfd tid 0 ?acc w2 c2"
    "tc_state c2 = kDisconnecting"
    using deliver_step [OF w1(2) assms(3-5), of Shutdown] by auto
  obtain w' c' where w': "run_list (conn_step os cbs tid) (replicate n Writable) w2 = Inr w'" "w_conn w' = Some c'"
    "w_wire w' = ?acc" "\<not> isWriting (tc_channel c')" "w_shut w' \<longleftrightarrow> tc_state c2 = kDisconnecting"
    by (rule writable_all [OF w2(2) assms(3-7)])
  then show ?thesis using w1(1) w2(1,3) by (intro exI [of _ w'] exI [of _ c']) simp
qed

end
