(* ===== verification/ConnProtocol.thy ===== *)
theory ConnProtocol
  imports TcpConnection
begin

text \<open>
  The order in which a \<open>TcpConnection\<close> (\<open>yvent/TcpConnection.cpp\<close>) calls the application back.  An
  application is a script: for every event it is told of, and its own state, the operations it
  performs inside the callback and its next state.  The history of the events is kept in front
  of the state of the application, and a small automaton says which histories are in order.
\<close>

subsection \<open>Applications\<close>

datatype conn_event = Connection ConnectionState | Message | WriteComplete | Closed

datatype app_op = ASend string | AShutdown | AForceClose | AConsume

type_synonym ('e, 'o, 'u) app_world = "('e, 'o, conn_event list \<times> 'u) world"
type_synonym 'u script = "conn_event \<Rightarrow> 'u \<Rightarrow> app_op list \<times> 'u"

abbreviation history :: "('e, 'o, 'u) app_world \<Rightarrow> conn_event list" where
  "history w \<equiv> fst (w_user w)"

text \<open>\<open>AConsume\<close> takes everything out of the input buffer, as \<open>buffer->retrieveAllAsString()\<close>
  in a message callback does.\<close>

definition conn_consume :: "('e, 'o, 'u) world \<Rightarrow> ('e, 'o, 'u) world res" where
  "conn_consume w =
     with_conn w (\<lambda>c. rbind (retrieveAllAsString (tc_inBuffer c)) (\<lambda>(s, b).
       Inr (upd_conn (\<lambda>c. c\<lparr>tc_inBuffer := b\<rparr>) w)))"

fun app_do ::
  "('e, 'o) os \<Rightarrow> ('e, 'o, 'u) world conn_callbacks \<Rightarrow> nat \<Rightarrow> app_op \<Rightarrow>
   ('e, 'o, 'u) world \<Rightarrow> ('e, 'o, 'u) world res" where
  "app_do os cbs tid (ASend data) w = conn_send os cbs tid data w"
| "app_do os cbs tid AShutdown w = conn_shutdown os cbs tid w"
| "app_do os cbs tid AForceClose w = conn_forceClose os cbs tid w"
| "app_do os cbs tid AConsume w = conn_consume w"

definition record_event :: "conn_event \<Rightarrow> 'u \<Rightarrow> ('e, 'o, 'u) app_world \<Rightarrow> ('e, 'o, 'u) app_world" where
  "record_event e u w = w\<lparr>w_user := (history w @ [e], u)\<rparr>"

definition react ::
  "'u script \<Rightarrow> (app_op list \<Rightarrow> ('e, 'o, 'u) app_world \<Rightarrow> ('e, 'o, 'u) app_world res) \<Rightarrow>
   conn_event \<Rightarrow> ('e, 'o, 'u) app_world \<Rightarrow> ('e, 'o, 'u) app_world res" where
  "react script run e w = (case script e (snd (w_user w)) of (ops, u) \<Rightarrow> run ops (record_event e u w))"

text \<open>
  The four callbacks of an application.  The connection callback looks at the state of the
  connection, as \<open>conn->connected()\<close> does; the close callback gives up one \<open>shared_ptr\<close>, as the
  server and the client do.
\<close>

definition callbacks_of ::
  "(conn_event \<Rightarrow> ('e, 'o, 'u) world \<Rightarrow> ('e, 'o, 'u) world res) \<Rightarrow> ('e, 'o, 'u) world conn_callbacks" where
  "callbacks_of f =
     \<lparr> connectionCallback = Some (\<lambda>w. with_conn w (\<lambda>c. f (Connection (tc_state c)) w)),
       messageCallback = Some (f Message),
       closeCallback = Some (\<lambda>w. f Closed (w\<lparr>w_refs := w_refs w - 1\<rparr>)),
       writeCompleteCallback = Some (f WriteComplete) \<rparr>"

text \<open>
  An operation inside a callback can lead to further callbacks.  \<open>n\<close> bounds the depth of the
  nesting: below it a callback only records its event.
\<close>

primrec app_callbacks ::
  "('e, 'o) os \<Rightarrow> nat \<Rightarrow> 'u script \<Rightarrow> nat \<Rightarrow> ('e, 'o, 'u) app_world conn_callbacks" where
  "app_callbacks os tid script 0 = callbacks_of (react script (\<lambda>ops. Inr))"
| "app_callbacks os tid script (Suc n) =
     callbacks_of (react script (run_list (app_do os (app_callbacks os tid script n) tid)))"

subsection \<open>What happens to a connection\<close>

text \<open>
  The server or client establishes it; the kernel reports events, which it does only for a channel
  it was given; the loop runs the queued tasks; any thread uses it.
\<close>

datatype conn_input = Establish | Ready "32 word" | Tasks | Use nat app_op

fun input_step ::
  "('e, 'o) os \<Rightarrow> ('e, 'o, 'u) world conn_callbacks \<Rightarrow> nat \<Rightarrow> conn_input \<Rightarrow>
   ('e, 'o, 'u) world \<Rightarrow> ('e, 'o, 'u) world res" where
  "input_step os cbs tid Establish w = conn_enableRead os cbs tid w"
| "input_step os cbs tid (Ready revents) w =
     (case w_conn w of None \<Rightarrow> Inr w
      | Some c \<Rightarrow> if ch_state (tc_channel c) = kAdded then conn_events os cbs tid revents w else Inr w)"
| "input_step os cbs tid Tasks w = conn_runTasks os cbs tid w"
| "input_step os cbs tid (Use t op) w = app_do os cbs t op w"

text \<open>
  A stream socket reports a hang-up together with \<open>EPOLLIN\<close>, or without any other reason to read.
\<close>

definition plain_hangup :: "conn_input \<Rightarrow> bool" where
  "plain_hangup i = (case i of Ready r \<Rightarrow>
       r AND EPOLLHUP \<noteq> 0 \<longrightarrow> r AND EPOLLIN = 0 \<longrightarrow> r AND (EPOLLIN OR EPOLLPRI OR EPOLLRDHUP) = 0
     | _ \<Rightarrow> True)"

subsection \<open>Histories in order\<close>

datatype phase = Unborn | Open | Down | Over

fun next_phase :: "phase \<Rightarrow> conn_event \<Rightarrow> phase option" where
  "next_phase Unborn (Connection kConnected) = Some Open"
| "next_phase Open Message = Some Open"
| "next_phase Open WriteComplete = Some Open"
| "next_phase Open (Connection kDisconnected) = Some Down"
| "next_phase Down Closed = Some Over"
| "next_phase _ _ = None"

fun phase_after :: "phase \<Rightarrow> conn_event list \<Rightarrow> phase option" where
  "phase_after p [] = Some p"
| "phase_after p (e # es) = (case next_phase p e of None \<Rightarrow> None | Some p' \<Rightarrow> phase_after p' es)"

lemma phase_after_append:
  "phase_after p (es @ es') = (case phase_after p es of None \<Rightarrow> None | Some p' \<Rightarrow> phase_after p' es')"
  by (induction es arbitrary: p) (auto split: option.split)

text \<open>The accepted histories written out.\<close>

lemma phase_after_open:
  "phase_after Open es = Some p \<Longrightarrow>
   \<exists>ms. set ms \<subseteq> {Message, WriteComplete} \<and>
     (p = Open \<and> es = ms \<or> p = Down \<and> es = ms @ [Connection kDisconnected] \<or>
      p = Over \<and> es = ms @ [Connection kDisconnected, Closed])"
proof (induction Open es rule: phase_after.induct)
  case 1
  then show ?case by (intro exI [of _ "[]"]) simp
next
  case (2 e es)
  note IH = "2.hyps"(1)
  from "2.prems" obtain p' where p': "next_phase Open e = Some p'" "phase_after p' es = Some p"
    by (auto split: option.splits)
  then consider "e \<in> {Message, WriteComplete}" "p' = Open" | "e = Connection kDisconnected" "p' = Down"
    by (cases "(Open, e)" rule: next_phase.cases) auto
  then show ?case
  proof cases
    case 1
    with IH p' obtain ms where "set ms \<subseteq> {Message, WriteComplete}"
      "p = Open \<and> es = ms \<or> p = Down \<and> es = ms @ [Connection kDisconnected] \<or>
       p = Over \<and> es = ms @ [Connection kDisconnected, Closed]" by auto
    with 1(1) show ?thesis by (intro exI [of _ "e # ms"]) auto
  next
    case 2
    have "es = [] \<and> p = Down \<or> es = [Closed] \<and> p = Over"
    proof (cases es)
      case (Cons e' es')
      with p'(2) 2(2) show ?thesis
        by (cases "(Down, e')" rule: next_phase.cases; cases es') auto
    qed (use p'(2) 2(2) in simp)
    with 2(1) show ?thesis by (intro exI [of _ "[]"]) auto
  qed
qed

subsection \<open>The phase follows the state of the connection\<close>

text \<open>\<open>r\<close> is the value of \<open>revents_\<close>, which nothing changes during a dispatch.\<close>

definition fits :: "32 word \<Rightarrow> phase \<Rightarrow> ('e, 'o, 'u) world \<Rightarrow> bool" where
  "fits r p w \<longleftrightarrow>
     (case w_conn w of
        None \<Rightarrow> p = Down \<or> p = Over
      | Some c \<Rightarrow> ch_revents (tc_channel c) = r \<and> tc_stSize c = 0 \<and>
          (case p of
             Unborn \<Rightarrow> tc_state c = kConnecting \<and> ch_state (tc_channel c) = kNew \<and>
               (\<forall>m. TSend m \<notin> set (el_tasks w))
           | Open \<Rightarrow> (tc_state c = kConnected \<or> tc_state c = kDisconnecting) \<and> ch_state (tc_channel c) \<noteq> kNew
           | _ \<Rightarrow> tc_state c = kDisconnected \<and> ch_state (tc_channel c) = kDeleted \<and> \<not> isWriting (tc_channel c)))"

definition at_phase :: "32 word \<Rightarrow> phase \<Rightarrow> ('e, 'o, 'u) app_world \<Rightarrow> bool" where
  "at_phase r p w \<longleftrightarrow> phase_after Unborn (history w) = Some p \<and> fits r p w"

text \<open>An operation of the application can only close an open connection.\<close>

definition onward_phase :: "phase \<Rightarrow> phase \<Rightarrow> bool" where
  "onward_phase p p' \<longleftrightarrow> p' = p \<or> p = Open \<and> p' = Over"

definition keeps_phase ::
  "32 word \<Rightarrow> (('e, 'o, 'u) app_world \<Rightarrow> ('e, 'o, 'u) app_world res) \<Rightarrow> bool" where
  "keeps_phase r f \<longleftrightarrow> (\<forall>p w w'. at_phase r p w \<longrightarrow> f w = Inr w' \<longrightarrow>
     (\<exists>p'. onward_phase p p' \<and> at_phase r p' w'))"

text \<open>A callback is told of an event that moves the phase on to the one the connection is in.\<close>

definition orderly ::
  "32 word \<Rightarrow> (conn_event \<Rightarrow> ('e, 'o, 'u) app_world \<Rightarrow> ('e, 'o, 'u) app_world res) \<Rightarrow> bool" where
  "orderly r f \<longleftrightarrow> (\<forall>e p p1 w w'. phase_after Unborn (history w) = Some p \<longrightarrow> next_phase p e = Some p1 \<longrightarrow>
     fits r p1 w \<longrightarrow> f e w = Inr w' \<longrightarrow> (\<exists>p'. onward_phase p1 p' \<and> at_phase r p' w'))"

lemma keeps_phaseI:
  "(\<And>p w w'. at_phase r p w \<Longrightarrow> f w = Inr w' \<Longrightarrow> \<exists>p'. onward_phase p p' \<and> at_phase r p' w') \<Longrightarrow>
   keeps_phase r f"
  by (auto simp: keeps_phase_def)

lemma keeps_phaseD:
  assumes "keeps_phase r f" and "at_phase r p w" and "f w = Inr w'"
  obtains p' where "onward_phase p p'" and "at_phase r p' w'"
  using assms unfolding keeps_phase_def by blast

lemma orderlyD:
  assumes "orderly r f" and "phase_after Unborn (history w) = Some p" and "next_phase p e = Some p1"
    and "fits r p1 w" and "f e w = Inr w'"
  obtains p' where "onward_phase p1 p'" and "at_phase r p' w'"
  using assms unfolding orderly_def by blast

lemma onward_refl [simp]: "onward_phase p p"
  by (simp add: onward_phase_def)

lemma onward_trans: "onward_phase p q \<Longrightarrow> onward_phase q s \<Longrightarrow> onward_phase p s"
  by (auto simp: onward_phase_def)

lemma fits_fields [simp]:
  "fits r p (w\<lparr>w_os := x\<rparr>) = fits r p w" "fits r p (w\<lparr>w_refs := n\<rparr>) = fits r p w"
  "fits r p (w\<lparr>w_user := u\<rparr>) = fits r p w" "fits r p (w\<lparr>w_wire := y\<rparr>) = fits r p w"
  "fits r p (w\<lparr>w_shut := b\<rparr>) = fits r p w" "fits r p (w\<lparr>el_wakeupfd := z\<rparr>) = fits r p w"
  "fits r p (w\<lparr>el_runningTasks := b\<rparr>) = fits r p w"
  by (simp_all add: fits_def split: option.split phase.split)

lemma at_phase_fields [simp]:
  "at_phase r p (w\<lparr>w_os := x\<rparr>) = at_phase r p w" "at_phase r p (w\<lparr>w_refs := n\<rparr>) = at_phase r p w"
  "at_phase r p (w\<lparr>w_wire := y\<rparr>) = at_phase r p w" "at_phase r p (w\<lparr>w_shut := b\<rparr>) = at_phase r p w"
  "at_phase r p (w\<lparr>el_wakeupfd := z\<rparr>) = at_phase r p w"
  "at_phase r p (w\<lparr>el_runningTasks := b\<rparr>) = at_phase r p w"
  by (simp_all add: at_phase_def)

lemma fits_Over: "fits r Over w = fits r Down w"
  by (simp add: fits_def split: option.split)

lemma fits_open:
  "w_conn w = Some c \<Longrightarrow> fits r p w \<Longrightarrow> tc_state c \<noteq> kConnecting \<Longrightarrow> tc_state c \<noteq> kDisconnected \<Longrightarrow> p = Open"
  by (cases p) (auto simp: fits_def)

text \<open>A change of the connection that the phase does not see.\<close>

lemma fits_conn:
  assumes "w_conn w = Some c" and "fits r p w" and "tc_state c' = tc_state c"
    and "tc_channel c' = tc_channel c" and "tc_stSize c' = tc_stSize c"
  shows "fits r p (w\<lparr>w_conn := Some c'\<rparr>)"
  using assms by (cases p) (simp_all add: fits_def)

lemma release_keeps: "keeps_phase r (release os n)"
proof (rule keeps_phaseI)
  fix p and w w' :: "('a, 'b, 'c) app_world"
  assume at: "at_phase r p w" and run: "release os n w = Inr w'"
  then have "at_phase r p w'"
    by (cases p) (auto simp: release_def destroy_conn_def with_conn_def at_phase_def fits_def Let_def
        res_simps split: option.splits if_splits)
  then show "\<exists>p'. onward_phase p p' \<and> at_phase r p' w'" by (intro exI [of _ p]) simp
qed

lemma keeps_then:
  assumes "keeps_phase r f" and "keeps_phase r g"
  shows "keeps_phase r (\<lambda>w. rbind (f w) g)"
proof (rule keeps_phaseI)
  fix p w w'
  assume at: "at_phase r p w" and run: "rbind (f w) g = Inr w'"
  from run obtain w1 where w1: "f w = Inr w1" "g w1 = Inr w'" by (auto simp: res_simps)
  from keeps_phaseD [OF assms(1) at w1(1)] obtain p1 where p1: "onward_phase p p1" "at_phase r p1 w1" .
  from keeps_phaseD [OF assms(2) p1(2) w1(2)] obtain p2 where "onward_phase p1 p2" "at_phase r p2 w'" .
  with p1(1) show "\<exists>p'. onward_phase p p' \<and> at_phase r p' w'" using onward_trans by blast
qed

lemma holding_keeps:
  assumes "keeps_phase r f"
  shows "keeps_phase r (holding os f)"
proof -
  have "keeps_phase r (\<lambda>w. f (w\<lparr>w_refs := w_refs w + 1\<rparr>))"
  proof (rule keeps_phaseI)
    fix p and w w' :: "('a, 'b, 'c) app_world"
    assume "at_phase r p w" "f (w\<lparr>w_refs := w_refs w + 1\<rparr>) = Inr w'"
    moreover from this(1) have "at_phase r p (w\<lparr>w_refs := w_refs w + 1\<rparr>)" by simp
    ultimately show "\<exists>p'. onward_phase p p' \<and> at_phase r p' w'" using assms by (meson keeps_phaseD)
  qed
  from keeps_then [OF this release_keeps] show ?thesis by (simp add: holding_def [abs_def])
qed

lemma run_list_keeps:
  assumes "\<And>x. x \<in> set xs \<Longrightarrow> keeps_phase r (f x)"
  shows "keeps_phase r (run_list f xs)"
  using assms
proof (induction xs)
  case Nil
  show ?case by (rule keeps_phaseI) (auto simp: onward_phase_def)
next
  case (Cons x xs)
  then have "keeps_phase r (f x)" "keeps_phase r (run_list f xs)" by simp_all
  from keeps_then [OF this] show ?case by (simp add: run_list.simps(2) [abs_def])
qed

lemma react_orderly:
  assumes "\<And>ops. keeps_phase r (run ops)"
  shows "orderly r (react script run)"
  unfolding orderly_def
proof (intro allI impI)
  fix e p p1 and w w' :: "('a, 'b, 'c) app_world"
  assume p: "phase_after Unborn (history w) = Some p" "next_phase p e = Some p1" and f: "fits r p1 w"
    and run: "react script run e w = Inr w'"
  obtain ops u where s: "script e (snd (w_user w)) = (ops, u)" by fastforce
  have "at_phase r p1 (record_event e u w)"
    using p f by (simp add: at_phase_def record_event_def phase_after_append)
  with run s assms show "\<exists>p'. onward_phase p1 p' \<and> at_phase r p' w'"
    by (auto simp: react_def elim: keeps_phaseD)
qed


subsection \<open>Operations keep the phase\<close>

lemma told:
  assumes "orderly r f" and "phase_after Unborn (history w) = Some p" and "next_phase p e = Some p1"
    and "fits r p1 w" and "g (w\<lparr>w_refs := w_refs w + 1\<rparr>) = f e (w\<lparr>w_refs := n\<rparr>)"
    and "holding os g w = Inr w'"
  obtains p' where "onward_phase p1 p'" and "at_phase r p' w'"
proof -
  from assms(5,6) obtain w1 where w1: "f e (w\<lparr>w_refs := n\<rparr>) = Inr w1" "release os 1 w1 = Inr w'"
    by (auto simp: holding_def res_simps)
  have "phase_after Unborn (history (w\<lparr>w_refs := n\<rparr>)) = Some p" "fits r p1 (w\<lparr>w_refs := n\<rparr>)"
    using assms(2,4) by simp_all
  from orderlyD [OF assms(1) this(1) assms(3) this(2) w1(1)] obtain p' where
    p': "onward_phase p1 p'" "at_phase r p' w1" .
  from keeps_phaseD [OF release_keeps p'(2) w1(2)] obtain p2 where "onward_phase p' p2" "at_phase r p2 w'" .
  with p'(1) show ?thesis using that onward_trans by blast
qed

lemma told_plain:
  assumes "orderly r f" and "at_phase r p w" and "next_phase p e = Some p" and "holding os (f e) w = Inr w'"
  shows "\<exists>p'. onward_phase p p' \<and> at_phase r p' w'"
  by (rule told [OF assms(1) _ assms(3) _ _ assms(4), where n = "w_refs w + 1"])
    (use assms(2) in \<open>auto simp: at_phase_def\<close>)

lemma conn_channel_effect:
  assumes "w_conn w = Some c" and "conn_channel os tid op w = Inr w'"
  obtains o' s where
    "w' = w\<lparr>w_conn := Some (c\<lparr>tc_channel := (tc_channel c)\<lparr>ch_events := mask_after op (ch_events (tc_channel c)),
       ch_state := s\<rparr>\<rparr>), w_os := o'\<rparr>"
    and "s \<noteq> kNew" and "mask_after op (ch_events (tc_channel c)) = 0 \<longrightarrow> s = kDeleted"
proof -
  from assms obtain ch o' err where
    u: "updateChannel (os_ctl os) (isInLoopThread tid w) ()
        ((tc_channel c)\<lparr>ch_events := mask_after op (ch_events (tc_channel c))\<rparr>) (w_os w) = Inr (ch, o', err)"
    and w': "w' = w\<lparr>w_conn := Some (c\<lparr>tc_channel := ch\<rparr>), w_os := o'\<rparr>"
    by (auto simp: conn_channel_def chan_do_update res_simps)
  from updateChannel_state [OF u] w' show ?thesis
    by (intro that [where s = "ch_state ch"]) (auto simp: isNoEvent_def)
qed

lemma write_interest_keeps:
  assumes "op = EnableWrite \<or> op = DisableWrite" and "at_phase r Open w" and "conn_channel os tid op w = Inr w'"
  shows "at_phase r Open w'"
proof -
  from assms(2) obtain c where c: "w_conn w = Some c" by (auto simp: at_phase_def fits_def split: option.splits)
  from conn_channel_effect [OF c assms(3)] obtain ch o' where
    w': "w' = w\<lparr>w_conn := Some (c\<lparr>tc_channel := ch\<rparr>), w_os := o'\<rparr>"
    and ch: "ch_state ch \<noteq> kNew" "ch_revents ch = ch_revents (tc_channel c)"
    by (metis (mono_tags) channel.select_convs(3,4) channel.surjective channel.update_convs(2,4))
  show ?thesis using assms(2) c ch by (simp add: w' at_phase_def fits_def)
qed

lemma handleClose_moves:
  assumes f: "orderly r f" and at: "at_phase r p w" and run: "conn_handleClose os (callbacks_of f) tid w = Inr w'"
  shows "p = Open \<and> at_phase r Over w'"
proof -
  from run obtain c where c: "w_conn w = Some c"
    and st: "tc_state c = kConnected \<or> tc_state c = kDisconnecting"
    by (auto simp: conn_handleClose_def with_conn_def res_simps split: option.splits)
  let ?w = "upd_conn (\<lambda>c. c\<lparr>tc_state := kDisconnected\<rparr>) w" and ?c = "c\<lparr>tc_state := kDisconnected\<rparr>"
  let ?con = "connectionCallback (callbacks_of f)" and ?clo = "closeCallback (callbacks_of f)"
  have p: "p = Open" using fits_open [OF c] at st by (auto simp: at_phase_def)
  from run c obtain w1 w2 where w1: "conn_channel os tid DisableAll ?w = Inr w1"
    and w2: "notify os ?con w1 = Inr w2" and w': "notify os ?clo w2 = Inr w'"
    by (auto simp: conn_handleClose_def res_simps Let_def)
  have "w_conn ?w = Some ?c" using c by (simp add: upd_conn_def)
  from conn_channel_effect [OF this w1] obtain o' where
    e1: "w1 = ?w\<lparr>w_conn := Some (?c\<lparr>tc_channel := (tc_channel c)\<lparr>ch_events := 0, ch_state := kDeleted\<rparr>\<rparr>),
       w_os := o'\<rparr>" by (auto simp: mask_after_def)
  let ?c1 = "?c\<lparr>tc_channel := (tc_channel c)\<lparr>ch_events := 0, ch_state := kDeleted\<rparr>\<rparr>"
  have c1: "w_conn w1 = Some ?c1" and h1: "history w1 = history w" by (simp_all add: e1 upd_conn_def)
  have f1: "fits r Down w1" using at c p by (simp add: e1 at_phase_def fits_def isWriting_def)
  have p1: "phase_after Unborn (history w1) = Some Open" using at h1 p by (simp add: at_phase_def)
  from w2 c1 have "holding os (\<lambda>w. with_conn w (\<lambda>c. f (Connection (tc_state c)) w)) w1 = Inr w2"
    by (simp add: notify_def callbacks_of_def)
  from told [OF f p1, of "Connection kDisconnected" Down, OF _ f1 _ this, of "w_refs w1 + 1"] c1 have a2: "at_phase r Down w2"
    by (auto simp: onward_phase_def)
  obtain g where g: "?clo = Some g" "g = (\<lambda>w. f Closed (w\<lparr>w_refs := w_refs w - 1\<rparr>))"
    by (simp add: callbacks_of_def)
  from w' g(1) have h: "holding os g w2 = Inr w'"
    by (auto simp: notify_def with_conn_def split: option.splits)
  have "fits r Over w2" using a2 by (simp add: at_phase_def fits_Over)
  from told [OF f _ _ this _ h, of Down Closed "w_refs w2"] a2 have "at_phase r Over w'"
    by (auto simp: at_phase_def onward_phase_def g(2))
  with p show ?thesis ..
qed

lemma forceClose_keeps:
  assumes "orderly r f"
  shows "keeps_phase r (forceCloseInLoop os (callbacks_of f) tid)"
proof (rule keeps_phaseI)
  fix p and w w' :: "('a, 'b, 'c) app_world"
  assume at: "at_phase r p w" and run: "forceCloseInLoop os (callbacks_of f) tid w = Inr w'"
  from run have "w' = w \<or> conn_handleClose os (callbacks_of f) tid w = Inr w'"
    by (auto simp: forceCloseInLoop_def with_conn_def res_simps split: option.splits if_splits)
  with handleClose_moves [OF assms at] at show "\<exists>p'. onward_phase p p' \<and> at_phase r p' w'"
    by (auto simp: onward_phase_def)
qed

lemma shutdown_keeps: "keeps_phase r (shutdownInLoop os tid)"
proof (rule keeps_phaseI)
  fix p and w w' :: "('a, 'b, 'c) app_world"
  assume at: "at_phase r p w" and run: "shutdownInLoop os tid w = Inr w'"
  then have "at_phase r p w'"
    by (auto simp: shutdownInLoop_def with_conn_def res_simps split: option.splits if_splits)
  then show "\<exists>p'. onward_phase p p' \<and> at_phase r p' w'" by (intro exI [of _ p]) simp
qed

lemma direct_write_phase:
  assumes f: "orderly r f" and at: "at_phase r Open w"
    and run: "direct_write os (callbacks_of f) data w = Inr (n, w1)"
  shows "\<exists>p'. onward_phase Open p' \<and> at_phase r p' w1 \<and> (n < length data \<longrightarrow> p' = Open)"
proof -
  from at obtain c where c: "w_conn w = Some c" by (auto simp: at_phase_def fits_def split: option.splits)
  from run c consider "at_phase r Open w1"
    | o' y where "holding os (f WriteComplete) (w\<lparr>w_os := o', w_wire := y\<rparr>) = Inr w1" "\<not> n < length data"
    using at by (auto simp: direct_write_def callbacks_of_def res_simps Let_def
        split: if_splits prod.splits sum.splits)
  then show ?thesis
  proof cases
    case 2
    have "at_phase r Open (w\<lparr>w_os := o', w_wire := y\<rparr>)" using at by simp
    from told_plain [OF f this _ 2(1)] 2(2) show ?thesis by simp
  qed (use onward_refl in blast)
qed

lemma sendInLoop_phase:
  assumes f: "orderly r f" and at: "at_phase r p w" and p: "p \<noteq> Unborn"
    and run: "sendInLoop os (callbacks_of f) tid data w = Inr w'"
  shows "\<exists>p'. onward_phase p p' \<and> at_phase r p' w'"
proof -
  from run obtain c where c: "w_conn w = Some c"
    by (auto simp: sendInLoop_def with_conn_def res_simps split: option.splits)
  show ?thesis
  proof (cases "tc_state c = kDisconnected")
    case True
    with run c have "w' = w" by (simp add: sendInLoop_def res_simps)
    with at onward_refl show ?thesis by blast
  next
    case False
    with at c p have p: "p = Open" by (cases p) (auto simp: at_phase_def fits_def)
    from run c False obtain n w1 c1 where dw: "direct_write os (callbacks_of f) data w = Inr (n, w1)"
      and c1: "w_conn w1 = Some c1"
      and rest: "(if n < length data \<or> tc_stSize c1 \<noteq> 0 then
             rbind (append_buf (drop n data) (tc_outBuffer c1)) (\<lambda>b.
             let w2 = upd_conn (\<lambda>c. c\<lparr>tc_outBuffer := b\<rparr>) w1 in
             if \<not> isWriting (tc_channel c1) then conn_channel os tid EnableWrite w2 else Inr w2)
           else Inr w1) = Inr w'"
      by (auto simp: sendInLoop_def res_simps with_conn_def split: option.splits)
    from direct_write_phase [OF f at [unfolded p] dw] obtain p' where p': "onward_phase Open p'"
      "at_phase r p' w1" "n < length data \<longrightarrow> p' = Open" by blast
    have "tc_stSize c1 = 0" using p'(2) c1 by (simp add: at_phase_def fits_def)
    show ?thesis
    proof (cases "n < length data")
      case False
      with rest \<open>tc_stSize c1 = 0\<close> have "w' = w1" by simp
      with p' p show ?thesis by blast
    next
      case True
      with rest obtain b where b: "(if \<not> isWriting (tc_channel c1)
          then conn_channel os tid EnableWrite (upd_conn (\<lambda>c. c\<lparr>tc_outBuffer := b\<rparr>) w1)
          else Inr (upd_conn (\<lambda>c. c\<lparr>tc_outBuffer := b\<rparr>) w1)) = Inr w'"
        by (auto simp: res_simps Let_def)
      have "at_phase r Open (upd_conn (\<lambda>c. c\<lparr>tc_outBuffer := b\<rparr>) w1)"
        using p' True c1 fits_conn [OF c1] by (simp add: at_phase_def upd_conn_def)
      with b have "at_phase r Open w'"
        using write_interest_keeps [of EnableWrite] by (auto split: if_splits)
      with p show ?thesis using onward_refl by blast
    qed
  qed
qed


lemma queued_phase:
  assumes "at_phase r p w" and "p = Unborn \<Longrightarrow> \<forall>m. task \<noteq> TSend m"
  shows "at_phase r p (addTask efd t task (w\<lparr>w_refs := n\<rparr>))"
proof -
  have "fits r p (w\<lparr>el_tasks := el_tasks w @ [task]\<rparr>)"
    using assms by (cases "w_conn w"; cases p) (auto simp: at_phase_def fits_def)
  with assms(1) have "at_phase r p (push_task task (w\<lparr>w_refs := n\<rparr>))"
    by (simp add: at_phase_def push_task_def fits_def split: option.splits phase.splits)
  then show ?thesis by (auto simp: addTask_def wakeup_def Let_def split: sum.split)
qed

lemma exec_task_phase:
  assumes f: "orderly r f" and at: "at_phase r p w" and p: "p = Unborn \<Longrightarrow> \<forall>m. task \<noteq> TSend m"
    and run: "exec_task os (callbacks_of f) tid task w = Inr w'"
  shows "\<exists>p'. onward_phase p p' \<and> at_phase r p' w'"
proof (cases task)
  case (TSend m)
  with p have "p \<noteq> Unborn" by auto
  from sendInLoop_phase [OF f at this] run TSend show ?thesis by (simp add: exec_task_def)
next
  case TShutdown
  with run have "shutdownInLoop os tid w = Inr w'" by (simp add: exec_task_def)
  from keeps_phaseD [OF shutdown_keeps at this] show ?thesis by blast
next
  case TForceClose
  with run have "forceCloseInLoop os (callbacks_of f) tid w = Inr w'" by (simp add: exec_task_def)
  from keeps_phaseD [OF forceClose_keeps [OF f] at this] show ?thesis by blast
qed

lemma run_task_phase:
  assumes f: "orderly r f" and at: "at_phase r p w" and p: "p = Unborn \<Longrightarrow> \<forall>m. task \<noteq> TSend m"
    and run: "run_task os (callbacks_of f) t task w = Inr w'"
  shows "\<exists>p'. onward_phase p p' \<and> at_phase r p' w'"
proof (cases "isInLoopThread t w")
  case False
  with run have "w' = addTask (os_efd_write os) t task (w\<lparr>w_refs := w_refs w + 1\<rparr>)"
    by (simp add: run_task_def runInLoop_def)
  with queued_phase [OF at p] onward_refl show ?thesis by blast
next
  case True
  let ?w = "w\<lparr>w_refs := w_refs w + 1\<rparr>"
  from run True obtain w1 where w1: "exec_task os (callbacks_of f) t task ?w = Inr w1"
    "release os 1 w1 = Inr w'"
    by (auto simp: run_task_def holding_def runInLoop_def res_simps)
  have "at_phase r p ?w" using at by simp
  from exec_task_phase [OF f this p w1(1)] obtain p' where p': "onward_phase p p'" "at_phase r p' w1"
    by blast
  from keeps_phaseD [OF release_keeps p'(2) w1(2)] p'(1) onward_trans show ?thesis by metis
qed

lemma app_do_conn: "app_do os cbs t op w = Inr w' \<Longrightarrow> \<exists>c. w_conn w = Some c"
  by (cases "w_conn w"; cases op)
    (simp_all add: conn_send_def conn_shutdown_def conn_forceClose_def conn_consume_def with_conn_def)

lemma app_do_keeps:
  assumes f: "orderly r f"
  shows "keeps_phase r (app_do os (callbacks_of f) t op)"
proof (rule keeps_phaseI)
  fix p and w w' :: "('a, 'b, 'c) app_world"
  assume at: "at_phase r p w" and run: "app_do os (callbacks_of f) t op w = Inr w'"
  obtain c where c: "w_conn w = Some c"
    using run app_do_conn by blast
  show "\<exists>p'. onward_phase p p' \<and> at_phase r p' w'"
  proof (cases "w' = w")
    case False
    show ?thesis
    proof (cases op)
      case (ASend data)
      with run c False have st: "tc_state c = kConnected"
        and "sendInLoop os (callbacks_of f) t data w = Inr w' \<or>
             run_task os (callbacks_of f) t (TSend data) w = Inr w'"
        by (auto simp: conn_send_def split: if_splits)
      moreover have "p = Open" using fits_open [OF c] at st by (auto simp: at_phase_def)
      ultimately show ?thesis using sendInLoop_phase [OF f at] run_task_phase [OF f at] by auto
    next
      case AShutdown
      let ?c = "c\<lparr>tc_state := kDisconnecting\<rparr>"
      from AShutdown run c False have st: "tc_state c = kConnected"
        and r: "run_task os (callbacks_of f) t TShutdown (w\<lparr>w_conn := Some ?c\<rparr>) = Inr w'"
        by (auto simp: conn_shutdown_def upd_conn_def split: if_splits)
      moreover have p: "p = Open" using fits_open [OF c] at st by (auto simp: at_phase_def)
      moreover have "at_phase r Open (w\<lparr>w_conn := Some ?c\<rparr>)"
        using at c p by (simp add: at_phase_def fits_def)
      ultimately show ?thesis using run_task_phase [OF f _ _ r] by simp
    next
      case AForceClose
      with run c False have "run_task os (callbacks_of f) t TForceClose w = Inr w'"
        by (auto simp: conn_forceClose_def split: if_splits)
      from run_task_phase [OF f at _ this] show ?thesis by simp
    next
      case AConsume
      with run c obtain b where w': "w' = w\<lparr>w_conn := Some (c\<lparr>tc_inBuffer := b\<rparr>)\<rparr>"
        by (auto simp: conn_consume_def upd_conn_def res_simps)
      have "fits r p (w\<lparr>w_conn := Some (c\<lparr>tc_inBuffer := b\<rparr>)\<rparr>)"
        using at by (intro fits_conn [OF c]) (simp_all add: at_phase_def)
      with at have "at_phase r p w'" by (simp add: at_phase_def w')
      then show ?thesis using onward_refl by blast
    qed
  qed (use at onward_refl in blast)
qed

text \<open>So the callbacks of an application keep the order, however deep they are nested.\<close>

definition app_reaction ::
  "('e, 'o) os \<Rightarrow> nat \<Rightarrow> 'u script \<Rightarrow> nat \<Rightarrow> conn_event \<Rightarrow> ('e, 'o, 'u) app_world \<Rightarrow> ('e, 'o, 'u) app_world res" where
  "app_reaction os tid script n = react script (case n of 0 \<Rightarrow> (\<lambda>ops. Inr)
     | Suc m \<Rightarrow> run_list (app_do os (app_callbacks os tid script m) tid))"

lemma app_callbacks_reaction: "app_callbacks os tid script n = callbacks_of (app_reaction os tid script n)"
  by (cases n) (simp_all add: app_reaction_def)

lemma Inr_keeps: "keeps_phase r Inr"
  by (rule keeps_phaseI) (auto intro: exI [of _ "_ :: phase"] onward_refl)

lemma app_reaction_orderly: "orderly r (app_reaction os tid script n)"
proof (induction n)
  case 0
  show ?case by (simp add: app_reaction_def react_orderly Inr_keeps)
next
  case (Suc n)
  have "keeps_phase r (run_list (app_do os (app_callbacks os tid script n) tid) ops)" for ops
    unfolding app_callbacks_reaction by (intro run_list_keeps app_do_keeps Suc)
  then show ?case by (simp add: app_reaction_def react_orderly)
qed


subsection \<open>Inputs keep the order\<close>

lemma tasks_phase:
  assumes f: "orderly r f" and at: "at_phase r p w" and tasks: "p = Unborn \<Longrightarrow> \<forall>m. TSend m \<notin> set ts"
    and run: "run_list (exec_task os (callbacks_of f) tid) ts w = Inr w'"
  shows "\<exists>p'. onward_phase p p' \<and> at_phase r p' w'"
  using at tasks run
proof (induction ts arbitrary: p w)
  case Nil
  then show ?case by (intro exI [of _ p]) simp
next
  case (Cons t ts)
  from Cons.prems(3) obtain w1 where w1: "exec_task os (callbacks_of f) tid t w = Inr w1"
    "run_list (exec_task os (callbacks_of f) tid) ts w1 = Inr w'"
    by (auto simp: res_simps)
  have "\<forall>m. t \<noteq> TSend m" if "p = Unborn" using Cons.prems(2) [OF that] by auto
  from exec_task_phase [OF f Cons.prems(1) this w1(1)] obtain p1 where
    p1: "onward_phase p p1" "at_phase r p1 w1" by blast
  have "\<forall>m. TSend m \<notin> set ts" if "p1 = Unborn"
    using that p1(1) Cons.prems(2) by (auto simp: onward_phase_def)
  from Cons.IH [OF p1(2) this w1(2)] onward_trans [OF p1(1)] show ?case by blast
qed

lemma runTasks_keeps:
  assumes f: "orderly r f"
  shows "keeps_phase r (conn_runTasks os (callbacks_of f) tid)"
proof (rule keeps_phaseI)
  fix p and w w' :: "('a, 'b, 'c) app_world"
  assume at: "at_phase r p w" and run: "conn_runTasks os (callbacks_of f) tid w = Inr w'"
  let ?w = "w\<lparr>el_runningTasks := True, el_tasks := []\<rparr>"
  from run obtain w1 n where w1: "run_list (exec_task os (callbacks_of f) tid) (el_tasks w) ?w = Inr w1"
    and w': "release os n (w1\<lparr>el_runningTasks := False\<rparr>) = Inr w'"
    by (auto simp: conn_runTasks_def runTasks_def Let_def res_simps)
  have "at_phase r p ?w"
    using at by (simp add: at_phase_def fits_def split: option.splits phase.splits)
  moreover have "\<forall>m. TSend m \<notin> set (el_tasks w)" if "p = Unborn"
    using at that by (cases "w_conn w") (simp_all add: at_phase_def fits_def)
  ultimately obtain p1 where p1: "onward_phase p p1" "at_phase r p1 w1"
    using tasks_phase [OF f _ _ w1] by blast
  then have "at_phase r p1 (w1\<lparr>el_runningTasks := False\<rparr>)" by simp
  from keeps_phaseD [OF release_keeps this w'] onward_trans [OF p1(1)]
  show "\<exists>p'. onward_phase p p' \<and> at_phase r p' w'" by metis
qed

lemma handleRead_phase:
  assumes f: "orderly r f" and at: "at_phase r Open w"
    and run: "conn_handleRead os (callbacks_of f) tid w = Inr w'"
  shows "\<exists>p'. onward_phase Open p' \<and> at_phase r p' w'"
proof -
  from at obtain c where c: "w_conn w = Some c" by (auto simp: at_phase_def fits_def split: option.splits)
  from run c obtain b o' where b: "w' = w\<lparr>w_conn := Some (c\<lparr>tc_inBuffer := b\<rparr>), w_os := o'\<rparr> \<or>
      conn_handleClose os (callbacks_of f) tid (w\<lparr>w_conn := Some (c\<lparr>tc_inBuffer := b\<rparr>), w_os := o'\<rparr>) = Inr w' \<or>
      holding os (f Message) (w\<lparr>w_conn := Some (c\<lparr>tc_inBuffer := b\<rparr>), w_os := o'\<rparr>) = Inr w'"
    by (auto simp: conn_handleRead_def notify_def callbacks_of_def res_simps Let_def
        split: prod.splits if_splits)
  let ?w = "w\<lparr>w_conn := Some (c\<lparr>tc_inBuffer := b\<rparr>), w_os := o'\<rparr>"
  have fit: "fits r Open ?w" using at fits_conn [OF c, of r Open "c\<lparr>tc_inBuffer := b\<rparr>"] by (simp add: at_phase_def)
  with at have at': "at_phase r Open ?w" by (simp add: at_phase_def)
  from b consider "w' = ?w" | "conn_handleClose os (callbacks_of f) tid ?w = Inr w'"
    | "holding os (f Message) ?w = Inr w'" by blast
  then show ?thesis
  proof cases
    case 2
    from handleClose_moves [OF f at' this] show ?thesis by (auto simp: onward_phase_def)
  next
    case 3
    from told_plain [OF f at' _ this] show ?thesis by simp
  qed (use at' onward_refl in blast)
qed

lemma output_done_phase:
  assumes "at_phase r Open w" and "output_done os tid w = Inr w'"
  shows "at_phase r Open w'"
proof -
  from assms(2) obtain w1 where w1: "conn_channel os tid DisableWrite w = Inr w1"
    and rest: "w' = w1 \<or> shutdownInLoop os tid w1 = Inr w'"
    by (auto simp: output_done_def with_conn_def res_simps split: option.splits if_splits)
  have "at_phase r Open w1" using write_interest_keeps [OF _ assms(1) w1] by simp
  with rest show ?thesis
    by (auto simp: shutdownInLoop_def with_conn_def res_simps split: option.splits if_splits)
qed

lemma handleWrite_phase:
  assumes f: "orderly r f" and at: "at_phase r p w" and p: "p \<noteq> Unborn"
    and run: "conn_handleWrite os (callbacks_of f) tid w = Inr w'"
  shows "\<exists>p'. onward_phase p p' \<and> at_phase r p' w'"
proof -
  from run obtain c where c: "w_conn w = Some c"
    by (auto simp: conn_handleWrite_def with_conn_def res_simps split: option.splits)
  have st: "tc_stSize c = 0" using at c by (simp add: at_phase_def fits_def)
  show ?thesis
  proof (cases "isWriting (tc_channel c) \<and> readableBytes (tc_outBuffer c) \<noteq> 0")
    case False
    with run c st have "w' = w" by (auto simp: conn_handleWrite_def res_simps split: if_splits)
    with at onward_refl show ?thesis by blast
  next
    case True
    then have p: "p = Open" using at c p by (cases p) (simp_all add: at_phase_def fits_def)
    obtain data res o' where d: "mem_read (peek (tc_outBuffer c)) (readableBytes (tc_outBuffer c))
        (buf_data (tc_outBuffer c)) = Inr data" "os_write os (ch_fd (tc_channel c)) data (w_os w) = (res, o')"
      using run c True by (fastforce simp: conn_handleWrite_def res_simps)
    have "w' = w\<lparr>w_os := o'\<rparr> \<or> (\<exists>b y w1. w1 = w\<lparr>w_os := o', w_wire := y, w_conn := Some (c\<lparr>tc_outBuffer := b\<rparr>)\<rparr> \<and>
         (w' = w1 \<or> rbind (output_done os tid w1) (notify os (Some (f WriteComplete))) = Inr w'))"
    proof (cases res)
      case (Inl err)
      with run c True d show ?thesis by (simp add: conn_handleWrite_def res_simps)
    next
      case (Inr n)
      with run c True st d obtain b where "retrieve n (tc_outBuffer c) = Inr b"
        by (auto simp: conn_handleWrite_def res_simps)
      with Inr run c True st d show ?thesis
        by (simp add: conn_handleWrite_def callbacks_of_def res_simps Let_def split: if_splits) blast+
    qed
    moreover have "at_phase r Open (w\<lparr>w_os := o', w_wire := y, w_conn := Some (c\<lparr>tc_outBuffer := b\<rparr>)\<rparr>)" for b y
      using at p c by (simp add: at_phase_def fits_def)
    moreover have "\<exists>p'. onward_phase Open p' \<and> at_phase r p' w'"
      if a1: "at_phase r Open w1"
        and r: "rbind (output_done os tid w1) (notify os (Some (f WriteComplete))) = Inr w'" for w1
    proof -
      from r obtain w2 where w2: "output_done os tid w1 = Inr w2"
        and h: "holding os (f WriteComplete) w2 = Inr w'"
        by (auto simp: notify_def with_conn_def res_simps split: option.splits)
      from output_done_phase [OF a1 w2] have "at_phase r Open w2" .
      from told_plain [OF f this _ h] show ?thesis by simp
    qed
    moreover have "at_phase r Open (w\<lparr>w_os := o'\<rparr>)" using at p by simp
    ultimately show ?thesis using p onward_refl by blast
  qed
qed

lemma when_revents_step:
  assumes "when_revents chan cond (Some g) w = Inr w'"
  shows "w' = w \<or> g w = Inr w'" and "chan w = Some c \<Longrightarrow> if cond (ch_revents c) then g w = Inr w' else w' = w"
  using assms by (auto simp: when_revents_def call_def split: option.splits if_splits)

lemma events_phase:
  assumes f: "orderly revents f" and at: "at_phase r Open w" and hup: "plain_hangup (Ready revents)"
    and run: "conn_events os (callbacks_of f) tid revents w = Inr w'"
  shows "\<exists>p'. onward_phase Open p' \<and> at_phase revents p' w'"
proof -
  let ?cbs = "callbacks_of f" and ?chan = "\<lambda>w. map_option tc_channel (w_conn w)"
  let ?w = "upd_conn (\<lambda>c. c\<lparr>tc_channel := setRevent revents (tc_channel c)\<rparr>) w"
  have at0: "at_phase revents Open ?w"
    using at by (auto simp: at_phase_def fits_def upd_conn_def setRevent_def split: option.splits)
  have rev: "ch_revents c = revents" if "at_phase revents p v" "?chan v = Some c" for p v c
    using that by (auto simp: at_phase_def fits_def)
  from run obtain w1 w2 w3 where
    w1: "when_revents ?chan (\<lambda>r. r AND EPOLLHUP \<noteq> 0 \<and> r AND EPOLLIN = 0)
           (Some (conn_handleClose os ?cbs tid)) ?w = Inr w1"
    and w2: "when_revents ?chan (\<lambda>r. r AND EPOLLERR \<noteq> 0) (Some conn_handleError) w1 = Inr w2"
    and w3: "when_revents ?chan (\<lambda>r. r AND (EPOLLIN OR EPOLLPRI OR EPOLLRDHUP) \<noteq> 0)
           (Some (conn_handleRead os ?cbs tid)) w2 = Inr w3"
    and w4: "when_revents ?chan (\<lambda>r. r AND EPOLLOUT \<noteq> 0) (Some (conn_handleWrite os ?cbs tid)) w3 = Inr w'"
    by (auto simp: conn_events_def handleEvents_def channel_callbacks_def res_simps Let_def)
  from when_revents_step(1) [OF w2] have e2: "w2 = w1"
    by (auto simp: conn_handleError_def with_conn_def split: option.splits)
  from at0 obtain c where c: "?chan ?w = Some c" by (auto simp: at_phase_def fits_def split: option.splits)
  note s1 = when_revents_step(2) [OF w1 c, unfolded rev [OF at0 c]]
  have "\<exists>p'. onward_phase Open p' \<and> at_phase revents p' w3"
  proof (cases "revents AND EPOLLHUP \<noteq> 0 \<and> revents AND EPOLLIN = 0")
    case True
    with s1 have "conn_handleClose os ?cbs tid ?w = Inr w1" by simp
    with handleClose_moves [OF f at0] have a1: "at_phase revents Over w1" by simp
    have "revents AND (EPOLLIN OR EPOLLPRI OR EPOLLRDHUP) = 0" using hup True by (simp add: plain_hangup_def)
    then have "w3 = w1"
      using when_revents_step(2) [OF w3] w3 rev [OF a1] e2
      by (cases "?chan w1") (auto simp: when_revents_def)
    with a1 show ?thesis by (auto simp: onward_phase_def)
  next
    case False
    with s1 have "w1 = ?w" by (simp split: if_splits)
    with when_revents_step(1) [OF w3] e2 consider "w3 = ?w" | "conn_handleRead os ?cbs tid ?w = Inr w3"
      by blast
    then show ?thesis
      using at0 handleRead_phase [OF f at0] onward_refl by cases blast+
  qed
  then obtain p where p: "onward_phase Open p" "at_phase revents p w3" by blast
  then have "p \<noteq> Unborn" by (auto simp: onward_phase_def)
  from when_revents_step(1) [OF w4] consider "w' = w3" | "conn_handleWrite os ?cbs tid w3 = Inr w'" by blast
  then show ?thesis
    using p handleWrite_phase [OF f p(2) \<open>p \<noteq> Unborn\<close>] onward_trans [OF p(1)] by cases blast+
qed

text \<open>Between two inputs a connection is unborn, open or over.\<close>

definition settled :: "('e, 'o, 'u) app_world \<Rightarrow> bool" where
  "settled w \<longleftrightarrow> (\<exists>r p. p \<noteq> Down \<and> at_phase r p w)"

lemma settled_onward: "onward_phase p p' \<Longrightarrow> p \<noteq> Down \<Longrightarrow> at_phase r p' w' \<Longrightarrow> settled w'"
  by (auto simp: settled_def onward_phase_def)

lemma establish_settled:
  assumes f: "orderly r f" and at: "at_phase r p w"
    and run: "conn_enableRead os (callbacks_of f) tid w = Inr w'"
  shows "settled w'"
proof -
  from run obtain c where c: "w_conn w = Some c" and st: "tc_state c = kConnecting"
    by (auto simp: conn_enableRead_def with_conn_def res_simps split: option.splits)
  then have p: "p = Unborn" using at by (cases p) (auto simp: at_phase_def fits_def)
  let ?w = "upd_conn (\<lambda>c. c\<lparr>tc_state := kConnected\<rparr>) w" and ?c = "c\<lparr>tc_state := kConnected\<rparr>"
  from run c obtain w1 where w1: "conn_channel os tid EnableRead ?w = Inr w1"
    and w': "notify os (connectionCallback (callbacks_of f)) w1 = Inr w'"
    by (auto simp: conn_enableRead_def res_simps Let_def)
  have "w_conn ?w = Some ?c" using c by (simp add: upd_conn_def)
  from conn_channel_effect [OF this w1] obtain o' s where
    e1: "w1 = ?w\<lparr>w_conn := Some (?c\<lparr>tc_channel := (tc_channel ?c)\<lparr>ch_events :=
       mask_after EnableRead (ch_events (tc_channel ?c)), ch_state := s\<rparr>\<rparr>), w_os := o'\<rparr>"
    and s: "s \<noteq> kNew" by blast
  have f1: "fits r Open w1" using at c p s by (simp add: e1 at_phase_def fits_def)
  have h1: "phase_after Unborn (history w1) = Some Unborn"
    using at p by (simp add: e1 at_phase_def upd_conn_def)
  obtain c1 where c1: "w_conn w1 = Some c1" "tc_state c1 = kConnected" by (simp add: e1)
  from w' c1 have h: "holding os (\<lambda>w. with_conn w (\<lambda>c. f (Connection (tc_state c)) w)) w1 = Inr w'"
    by (simp add: notify_def callbacks_of_def)
  obtain p' where "onward_phase Open p'" "at_phase r p' w'"
    by (rule told [OF f h1 _ f1 _ h, where n = "w_refs w1 + 1" and e = "Connection kConnected"])
      (use c1 in \<open>auto simp: with_conn_def\<close>)
  then show ?thesis by (auto intro: settled_onward)
qed

lemma input_step_settled:
  assumes "settled w" and "plain_hangup i"
    and run: "input_step os (app_callbacks os tid script n) tid i w = Inr w'"
  shows "settled w'"
proof -
  from assms(1) obtain r p where p: "p \<noteq> Down" and at: "at_phase r p w" by (auto simp: settled_def)
  note ord = app_reaction_orderly [where os = os and tid = tid and script = script and n = n]
  show ?thesis
  proof (cases i)
    case Establish
    then show ?thesis using establish_settled [OF ord at] run by (simp add: app_callbacks_reaction)
  next
    case (Ready revents)
    show ?thesis
    proof (cases "\<exists>c. w_conn w = Some c \<and> ch_state (tc_channel c) = kAdded")
      case True
      then have p_open: "p = Open" using at p by (cases p) (auto simp: at_phase_def fits_def)
      from True run Ready have "conn_events os (callbacks_of (app_reaction os tid script n)) tid revents w = Inr w'"
        by (auto simp: app_callbacks_reaction)
      from events_phase [OF ord at [unfolded p_open] assms(2) [unfolded Ready] this]
      show ?thesis using settled_onward by blast
    next
      case False
      with run Ready have "w' = w" by (auto split: option.splits if_splits)
      with assms(1) show ?thesis by simp
    qed
  next
    case Tasks
    with run have "conn_runTasks os (callbacks_of (app_reaction os tid script n)) tid w = Inr w'"
      by (simp add: app_callbacks_reaction)
    from keeps_phaseD [OF runTasks_keeps [OF ord] at this] settled_onward [OF _ p] show ?thesis by metis
  next
    case (Use t op)
    with run have "app_do os (callbacks_of (app_reaction os tid script n)) t op w = Inr w'"
      by (simp add: app_callbacks_reaction)
    from keeps_phaseD [OF app_do_keeps [OF ord] at this] settled_onward [OF _ p] show ?thesis by metis
  qed
qed

lemma inputs_settled:
  "settled w \<Longrightarrow> \<forall>i \<in> set is. plain_hangup i \<Longrightarrow>
   run_list (input_step os (app_callbacks os tid script n) tid) is w = Inr w' \<Longrightarrow> settled w'"
proof (induction "is" arbitrary: w)
  case (Cons i "is")
  from Cons.prems(3) obtain w1 where
    "input_step os (app_callbacks os tid script n) tid i w = Inr w1"
    "run_list (input_step os (app_callbacks os tid script n) tid) is w1 = Inr w'"
    by (auto simp: res_simps)
  moreover from input_step_settled [OF Cons.prems(1) _ this(1)] Cons.prems(2) have "settled w1" by simp
  ultimately show ?case using Cons.IH [of w1] Cons.prems(2) by simp
qed simp

lemma phase_after_unborn:
  assumes "phase_after Unborn h = Some p" and "p \<noteq> Down"
  shows "\<exists>ms. set ms \<subseteq> {Message, WriteComplete} \<and>
     (p = Unborn \<and> h = [] \<or> p = Open \<and> h = Connection kConnected # ms \<or>
      p = Over \<and> h = Connection kConnected # ms @ [Connection kDisconnected, Closed])"
proof (cases h)
  case Nil
  with assms show ?thesis by (intro exI [of _ "[]"]) simp
next
  case (Cons e es)
  with assms(1) have "e = Connection kConnected \<and> phase_after Open es = Some p"
    by (cases "(Unborn, e)" rule: next_phase.cases) auto
  with phase_after_open [of es p] Cons assms(2) show ?thesis by auto
qed

subsection \<open>Properties\<close>

text \<open>C3. The application is called back in order.  Whatever the application does inside its
  callbacks and from whatever thread it uses the connection, whatever events the kernel reports and
  whenever tasks are run: its connection callback is told first that the connection is up; then
  come messages and completed writes; then, at most once and only when the connection is
  disconnected, the connection callback is told that it is down, followed directly by the close
  callback; and nothing comes after that.  It relies on the kernel reporting events only for a
  registered channel, and a hang-up not with \<open>EPOLLPRI\<close> alone.\<close>

theorem conn_protocol:
  assumes "w_conn w = Some (new_connection fd)" and "history w = []" and "el_tasks w = []"
    and "\<forall>i \<in> set is. plain_hangup i"
    and "run_list (input_step os (app_callbacks os tid script n) tid) is w = Inr w'"
  shows "\<exists>ms. set ms \<subseteq> {Message, WriteComplete} \<and>
     (case w_conn w' of
        None \<Rightarrow> history w' = Connection kConnected # ms @ [Connection kDisconnected, Closed]
      | Some c \<Rightarrow> history w' = (case tc_state c of kConnecting \<Rightarrow> []
          | kDisconnected \<Rightarrow> Connection kConnected # ms @ [Connection kDisconnected, Closed]
          | _ \<Rightarrow> Connection kConnected # ms))"
proof -
  have "at_phase 0 Unborn w"
    using assms(1-3) by (simp add: at_phase_def fits_def new_connection_def new_channel_def)
  then have "settled w" by (auto simp: settled_def)
  from inputs_settled [OF this assms(4,5)] obtain r p where
    p: "p \<noteq> Down" and at: "at_phase r p w'" by (auto simp: settled_def)
  from phase_after_unborn [OF _ p] at obtain ms where "set ms \<subseteq> {Message, WriteComplete}"
    "p = Unborn \<and> history w' = [] \<or> p = Open \<and> history w' = Connection kConnected # ms \<or>
     p = Over \<and> history w' = Connection kConnected # ms @ [Connection kDisconnected, Closed]"
    by (auto simp: at_phase_def)
  then show ?thesis
    using at by (intro exI [of _ ms]) (auto simp: at_phase_def fits_def split: option.splits)
qed

text \<open>
  An application that closes the connection when its output is out.
\<close>

definition talking_os :: "(nat, nat) os" where
  "talking_os = \<lparr> os_efd_write = counter_write, os_ctl = (\<lambda>op fd ev k. Inr k),
     os_write = (\<lambda>fd data k. (Inr (length data), k)), os_sendfile = (\<lambda>fd sfd k. (Inl EAGAIN, k)),
     os_readv = (\<lambda>fd lens k. (ReadvData ''hi'', k)), os_shutdown = (\<lambda>fd k. k), os_close = (\<lambda>fd k. k) \<rparr>"

definition closing_script :: "nat script" where
  "closing_script e u = (if e = WriteComplete then [AForceClose, ASend ''late''] else [], u)"

definition talking_world :: "(nat, nat, nat) app_world" where
  "talking_world = \<lparr> el_tid = 0, el_quit = False, el_tasks = [], el_runningTasks = False,
     el_looping = True, el_wakeupfd = 0, w_conn = Some (new_connection 5), w_os = 0,
     w_refs = 2, w_user = ([], 0), w_wire = [], w_shut = False \<rparr>"

lemma new_buffer_unread [simp]: "readableBytes (new_buffer n) = 0"
  by (simp add: readableBytes_length new_buffer_ok new_buffer_empty)


definition talking_channel ::
  "conn_event list \<Rightarrow> ConnectionState \<Rightarrow> chan_state \<Rightarrow> 32 word \<Rightarrow> nat \<Rightarrow> (nat, nat, nat) app_world" where
  "talking_channel h st cst m refs = talking_world\<lparr>w_conn := Some ((new_connection 5)\<lparr>tc_state := st,
     tc_channel := (new_channel 5)\<lparr>ch_events := m, ch_state := cst\<rparr>\<rparr>), w_user := (h, 0), w_refs := refs\<rparr>"

lemma quiet_reaction: "e \<noteq> WriteComplete \<Longrightarrow>
  app_reaction talking_os 0 closing_script n e w = Inr (record_event e (snd (w_user w)) w)"
  by (simp add: app_reaction_def react_def closing_script_def split: nat.split)

lemma busy_reaction:
  "app_reaction talking_os 0 closing_script (Suc n) WriteComplete w =
   run_list (app_do talking_os (app_callbacks talking_os 0 closing_script n) 0) [AForceClose, ASend ''late'']
     (record_event WriteComplete (snd (w_user w)) w)"
  by (simp add: app_reaction_def react_def closing_script_def)

lemma talking_os_simps:
  "os_write talking_os fd data k = (Inr (length data), k)" "os_ctl talking_os = (\<lambda>op fd ev k. Inr k)"
  by (simp_all add: talking_os_def)

lemmas talking_simps = talking_channel_def talking_world_def talking_os_simps new_connection_def new_channel_def
  upd_conn_def conn_channel_def isInLoopThread_def chan_do_update updateChannel_def isNoEvent_def isWriting_def
  mask_after_def Let_def poll_update_def notify_def holding_def release_def record_event_def callbacks_of_def
  with_conn_def

lemma talking_establish: "conn_enableRead talking_os (app_callbacks talking_os 0 closing_script n) 0 talking_world
   = Inr (talking_channel [Connection kConnected] kConnected kAdded (EPOLLIN OR EPOLLPRI) 2)"
  unfolding conn_enableRead_def app_callbacks_reaction
  by (simp add: talking_simps quiet_reaction epoll_consts)

lemma talking_send: "conn_send talking_os (app_callbacks talking_os 0 closing_script (Suc n)) 0 ''hi''
   (talking_channel [Connection kConnected] kConnected kAdded (EPOLLIN OR EPOLLPRI) 2)
   = Inr ((talking_channel [Connection kConnected, WriteComplete, Connection kDisconnected, Closed]
       kDisconnected kDeleted 0 1)\<lparr>w_wire := ''hi''\<rparr>)"
  unfolding conn_send_def sendInLoop_def direct_write_def app_callbacks_reaction
  by (simp add: talking_simps quiet_reaction busy_reaction
      conn_forceClose_def run_task_def runInLoop_def exec_task_def forceCloseInLoop_def
      conn_handleClose_def conn_send_def app_callbacks_reaction epoll_consts)

theorem conn_protocol_witness:
  "\<exists>w' ms. run_list (input_step talking_os (app_callbacks talking_os 0 closing_script (Suc 0)) 0)
       [Establish, Use 0 (ASend ''hi'')] talking_world = Inr w' \<and>
     set ms \<subseteq> {Message, WriteComplete} \<and>
     history w' = Connection kConnected # ms @ [Connection kDisconnected, Closed]"
proof -
  let ?w = "(talking_channel [Connection kConnected, WriteComplete, Connection kDisconnected, Closed]
       kDisconnected kDeleted 0 1)\<lparr>w_wire := ''hi''\<rparr>"
  have run: "run_list (input_step talking_os (app_callbacks talking_os 0 closing_script (Suc 0)) 0)
      [Establish, Use 0 (ASend ''hi'')] talking_world = Inr ?w"
    by (simp add: talking_establish talking_send del: app_callbacks.simps)
  have "w_conn talking_world = Some (new_connection 5)" "history talking_world = []"
    "el_tasks talking_world = []" by (simp_all add: talking_world_def)
  from conn_protocol [OF this _ run] run show ?thesis
    by (auto simp: plain_hangup_def talking_channel_def new_connection_def)
qed

end
