(* ===== verification/Registration.thy ===== *)
theory Registration
  imports ConnProtocol
begin

text \<open>
  What the poller knows of a \<open>TcpConnection\<close> (\<open>yvent/TcpConnection.cpp\<close>, \<open>Channel.cpp\<close>, \<open>Poll.cpp\<close>) over its whole
  life: the kernel holds the address of its channel exactly while the connection is open.  The
  applications are those of \<open>ConnProtocol\<close>.
\<close>

subsection \<open>The kernel\<close>

text \<open>The calls of a connection leave the interest list alone, except that a closed descriptor leaves it.\<close>

locale conn_kernel = epoll_kernel "os_ctl os" interest
  for os :: "('e, 'o) os" and interest :: "'o \<Rightarrow> unit interest_list" +
  assumes write_frame: "os_write os fd data k = (r, k') \<Longrightarrow> interest k' = interest k"
    and sendfile_frame: "os_sendfile os fd sfd k = (r', k') \<Longrightarrow> interest k' = interest k"
    and readv_frame: "os_readv os fd lens k = (r'', k') \<Longrightarrow> interest k' = interest k"
    and shutdown_frame: "interest (os_shutdown os fd k) = interest k"
    and close_law: "interest (os_close os fd k) = (interest k)(fd := None)"

definition slow_kernel :: "(nat, unit interest_list) os" where
  "slow_kernel = slow_os\<lparr>os_close := (\<lambda>fd k. k(fd := None))\<rparr>"

interpretation slow: conn_kernel slow_kernel "\<lambda>k. k"
  by unfold_locales (auto simp: slow_kernel_def slow_os_def epoll_ref_def)

subsection \<open>The invariant\<close>

text \<open>
  An open connection is registered for reading, with its mask and its channel; the channel of a closed
  one is gone from the list, and so is that of a destroyed one.
\<close>

definition is_open :: "tcp_conn \<Rightarrow> bool" where
  "is_open c \<longleftrightarrow> tc_state c = kConnected \<or> tc_state c = kDisconnecting"

definition entry_of :: "int \<Rightarrow> (32 word \<times> unit) option \<Rightarrow> tcp_conn option \<Rightarrow> bool" where
  "entry_of fd entry conn \<longleftrightarrow>
     (case conn of
        None \<Rightarrow> entry = None
      | Some c \<Rightarrow> tc_cfd c = fd \<and> ch_fd (tc_channel c) = fd \<and> tc_sendFd c \<noteq> fd \<and>
          (if is_open c
           then ch_state (tc_channel c) = kAdded \<and> isReading (tc_channel c) \<and>
                entry = Some (ch_events (tc_channel c), ())
           else tc_state c = kDisconnected \<and> ch_state (tc_channel c) = kDeleted \<and> entry = None))"

definition watched_conn :: "('o \<Rightarrow> unit interest_list) \<Rightarrow> int \<Rightarrow> ('e, 'o, 'u) world \<Rightarrow> bool" where
  "watched_conn interest fd w \<longleftrightarrow> entry_of fd (interest (w_os w) fd) (w_conn w)"

text \<open>What holds of a result if there is one.\<close>

definition after :: "('a \<Rightarrow> bool) \<Rightarrow> 'a res \<Rightarrow> bool" where
  "after P r = (case r of Inl e \<Rightarrow> True | Inr x \<Rightarrow> P x)"

lemma after_simps [simp]:
  "after P (Inl e)" "after P (Inr x) \<longleftrightarrow> P x"
  "after P (rbind m f) \<longleftrightarrow> after (\<lambda>x. after P (f x)) m"
  "after Q (check b e) \<longleftrightarrow> (b \<longrightarrow> Q ())" "after (\<lambda>x. True) r"
  by (simp_all add: after_def rbind_def check_def split: sum.split)

lemma after_with_conn: "after P (with_conn w f) \<longleftrightarrow> (\<forall>c. w_conn w = Some c \<longrightarrow> after P (f c))"
  by (simp add: with_conn_def split: option.split)

lemma after_mono: "after P m \<Longrightarrow> (\<And>x. P x \<Longrightarrow> Q x) \<Longrightarrow> after Q m"
  by (simp add: after_def split: sum.splits)

definition keeps_watch ::
  "('o \<Rightarrow> unit interest_list) \<Rightarrow> int \<Rightarrow> (('e, 'o, 'u) world \<Rightarrow> ('e, 'o, 'u) world res) \<Rightarrow> bool" where
  "keeps_watch interest fd f \<longleftrightarrow> (\<forall>w. watched_conn interest fd w \<longrightarrow> after (watched_conn interest fd) (f w))"

lemma keeps_watchI:
  "(\<And>w. watched_conn interest fd w \<Longrightarrow> after (watched_conn interest fd) (f w)) \<Longrightarrow> keeps_watch interest fd f"
  by (simp add: keeps_watch_def)

lemma keeps_watchD: "keeps_watch interest fd f \<Longrightarrow> watched_conn interest fd w \<Longrightarrow> after (watched_conn interest fd) (f w)"
  by (simp add: keeps_watch_def)

lemma keeps_watch_Inr [simp]: "keeps_watch interest fd Inr"
  by (simp add: keeps_watch_def)

lemma keeps_watch_then:
  "keeps_watch interest fd f \<Longrightarrow> keeps_watch interest fd g \<Longrightarrow> keeps_watch interest fd (\<lambda>w. rbind (f w) g)"
  unfolding keeps_watch_def by (auto elim!: after_mono)

lemma watched_conn_fields [simp]:
  "watched_conn interest fd (w\<lparr>w_refs := n\<rparr>) = watched_conn interest fd w"
  "watched_conn interest fd (w\<lparr>w_user := u\<rparr>) = watched_conn interest fd w"
  "watched_conn interest fd (w\<lparr>w_wire := x\<rparr>) = watched_conn interest fd w"
  "watched_conn interest fd (w\<lparr>w_shut := b\<rparr>) = watched_conn interest fd w"
  "watched_conn interest fd (w\<lparr>el_wakeupfd := e\<rparr>) = watched_conn interest fd w"
  "watched_conn interest fd (w\<lparr>el_tasks := ts\<rparr>) = watched_conn interest fd w"
  "watched_conn interest fd (w\<lparr>el_runningTasks := b\<rparr>) = watched_conn interest fd w"
  by (simp_all add: watched_conn_def)

lemma watched_os: "interest k = interest (w_os w) \<Longrightarrow> watched_conn interest fd (w\<lparr>w_os := k\<rparr>) = watched_conn interest fd w"
  by (simp add: watched_conn_def)

text \<open>A change of the connection that leaves its descriptor, its state and its channel alone.\<close>

lemma watched_same:
  assumes "w_conn w = Some c" and "tc_cfd c' = tc_cfd c" and "tc_channel c' = tc_channel c"
    and "tc_sendFd c' = tc_sendFd c" and "tc_state c' = tc_state c"
  shows "watched_conn interest fd (w\<lparr>w_conn := Some c'\<rparr>) = watched_conn interest fd w"
  using assms by (simp add: watched_conn_def entry_of_def is_open_def)

lemma run_list_watch: "(\<And>x. x \<in> set xs \<Longrightarrow> keeps_watch interest fd (f x)) \<Longrightarrow> keeps_watch interest fd (run_list f xs)"
proof (induction xs)
  case Nil
  then show ?case by (simp add: keeps_watch_def)
next
  case (Cons x xs)
  then have "keeps_watch interest fd (f x)" "keeps_watch interest fd (run_list f xs)" by simp_all
  from keeps_watch_then [OF this] show ?case by (simp add: keeps_watch_def)
qed


subsection \<open>Channel and owners\<close>

lemma closed_entry: "\<not> is_open c \<Longrightarrow> tc_state c = kDisconnected \<Longrightarrow> entry_of fd e (Some c) \<Longrightarrow> entry_of fd e None"
  by (simp add: entry_of_def)

lemma not_open: "tc_state c = kDisconnected \<Longrightarrow> \<not> is_open c"
  by (simp add: is_open_def)

context conn_kernel
begin

text \<open>Any change of a registered or of a stale channel, on the kernel state \<open>k\<close>.\<close>

lemma mod_entry:
  assumes "entry_of fd (interest k fd) (Some c)" and "is_open c" and "op \<noteq> DisableAll"
    and "chan_do (os_ctl os) True () op (tc_channel c) k = Inr (ch, k', err)"
  shows "entry_of fd (interest k' fd) (Some (c\<lparr>tc_channel := ch\<rparr>))"
proof -
  let ?c = "(tc_channel c)\<lparr>ch_events := mask_after op (ch_events (tc_channel c))\<rparr>"
  from assms(1,2) have c: "tc_cfd c = fd" "ch_fd (tc_channel c) = fd" "tc_sendFd c \<noteq> fd"
    "ch_state (tc_channel c) = kAdded" "isReading (tc_channel c)" "interest k fd = Some (ch_events (tc_channel c), ())"
    by (simp_all add: entry_of_def)
  from c(5) assms(3) have rd: "isReading ?c" by (simp add: isReading_def mask_keeps_read)
  then have "ch_events ?c \<noteq> 0" by (auto simp: isReading_def)
  with c(2,4,6) obtain k1 where "updateChannel (os_ctl os) True () ?c k = Inr (?c, k1, None)"
    "interest k1 = (interest k)(fd \<mapsto> (ch_events ?c, ()))"
    using update_mod [of k ?c "(ch_events (tc_channel c), ())" "()"] by auto
  with assms(4) c rd assms(2) show ?thesis by (auto simp: chan_do_update entry_of_def is_open_def)
qed

lemma stale_entry:
  assumes "entry_of fd (interest k fd) (Some c)" and "\<not> is_open c"
    and "chan_do (os_ctl os) True () op (tc_channel c) k = Inr (ch, k', err)"
  shows "entry_of fd (interest k' fd) (Some (c\<lparr>tc_channel := ch\<rparr>))"
proof -
  let ?c = "(tc_channel c)\<lparr>ch_events := mask_after op (ch_events (tc_channel c))\<rparr>"
  from assms(1,2) have c: "tc_cfd c = fd" "ch_fd (tc_channel c) = fd" "tc_sendFd c \<noteq> fd"
    "ch_state (tc_channel c) = kDeleted" "tc_state c = kDisconnected" "interest k fd = None"
    by (simp_all add: entry_of_def)
  have "updateChannel (os_ctl os) True () ?c k = Inr (?c, k, Some ENOENT)"
    by (rule update_stale) (simp_all add: c)
  with assms(2,3) c show ?thesis by (auto simp: chan_do_update entry_of_def is_open_def)
qed

lemma channel_watch: "op \<noteq> DisableAll \<Longrightarrow> keeps_watch interest fd (conn_channel os tid op)"
proof (rule keeps_watchI)
  fix w :: "('e, 'o, 'u) world" assume w: "watched_conn interest fd w" and op: "op \<noteq> DisableAll"
  show "after (watched_conn interest fd) (conn_channel os tid op w)"
  proof (cases "isInLoopThread tid w")
    case False
    then show ?thesis by (simp add: conn_channel_def after_with_conn chan_do_update updateChannel_off_loop)
  next
    case True
    show ?thesis
      unfolding conn_channel_def after_with_conn
    proof (intro allI impI)
      fix c assume c: "w_conn w = Some c"
      then have e: "entry_of fd (interest (w_os w) fd) (Some c)" using w by (simp add: watched_conn_def)
      show "after (watched_conn interest fd) (rbind (chan_do (os_ctl os) (isInLoopThread tid w) () op (tc_channel c) (w_os w))
          (\<lambda>(ch, o', err). Inr (w\<lparr>w_conn := Some (c\<lparr>tc_channel := ch\<rparr>), w_os := o'\<rparr>)))"
        using mod_entry [OF e _ op] stale_entry [OF e, of op] True
        by (cases "chan_do (os_ctl os) True () op (tc_channel c) (w_os w)"; cases "is_open c") (auto simp: watched_conn_def)
    qed
  qed
qed

text \<open>Closing takes the channel out.\<close>

lemma disable_all_closes:
  assumes w: "watched_conn interest fd w" and c: "w_conn w = Some c" and op: "is_open c"
  shows "after (watched_conn interest fd) (conn_channel os tid DisableAll (upd_conn (\<lambda>c. c\<lparr>tc_state := kDisconnected\<rparr>) w))"
proof (cases "isInLoopThread tid w")
  case False
  then show ?thesis
    using c by (simp add: conn_channel_def after_with_conn chan_do_update updateChannel_off_loop upd_conn_def)
next
  case True
  let ?c = "(tc_channel c)\<lparr>ch_events := 0\<rparr>"
  from w c op have e: "tc_cfd c = fd" "ch_fd (tc_channel c) = fd" "tc_sendFd c \<noteq> fd"
    "ch_state (tc_channel c) = kAdded" "interest (w_os w) fd = Some (ch_events (tc_channel c), ())"
    by (simp_all add: watched_conn_def entry_of_def)
  obtain k where "updateChannel (os_ctl os) True () ?c (w_os w) = Inr (?c\<lparr>ch_state := kDeleted\<rparr>, k, None)"
    "interest k = (interest (w_os w))(fd := None)"
    using update_del [of "w_os w" ?c "(ch_events (tc_channel c), ())" "()"] e by auto
  then show ?thesis
    using c True e by (simp add: conn_channel_def upd_conn_def chan_do_update mask_after_def watched_conn_def entry_of_def is_open_def)
qed

lemma release_watch: "keeps_watch interest fd (release os n)"
proof (rule keeps_watchI)
  fix w :: "('e, 'o, 'u) world" assume w: "watched_conn interest fd w"
  have "after (watched_conn interest fd) (destroy_conn os (w\<lparr>w_refs := m\<rparr>))" for m
    using w by (auto simp: destroy_conn_def after_with_conn watched_conn_def entry_of_def not_open close_law)
  then show "after (watched_conn interest fd) (release os n w)"
    using w by (simp add: release_def Let_def)
qed

lemma holding_watch:
  fixes f :: "('e, 'o, 'u) world \<Rightarrow> ('e, 'o, 'u) world res"
  assumes f: "keeps_watch interest fd f"
  shows "keeps_watch interest fd (holding os f)"
proof (rule keeps_watchI)
  fix w :: "('e, 'o, 'u) world" assume w: "watched_conn interest fd w"
  from w have "watched_conn interest fd (w\<lparr>w_refs := w_refs w + 1\<rparr>)" by simp
  from keeps_watchD [OF keeps_watch_then [OF f release_watch] this]
  show "after (watched_conn interest fd) (holding os f w)" by (simp add: holding_def)
qed

lemma notify_watch: "(\<And>f. cb = Some f \<Longrightarrow> keeps_watch interest fd f) \<Longrightarrow> keeps_watch interest fd (notify os cb)"
  by (rule keeps_watchI)
    (auto simp: notify_def after_with_conn split: option.split intro: keeps_watchD [OF holding_watch])

end


subsection \<open>Operations\<close>

definition watch_cbs ::
  "('o \<Rightarrow> unit interest_list) \<Rightarrow> int \<Rightarrow> ('e, 'o, 'u) world conn_callbacks \<Rightarrow> bool" where
  "watch_cbs interest fd cbs \<longleftrightarrow>
     (\<forall>f. Some f \<in> {connectionCallback cbs, messageCallback cbs, closeCallback cbs, writeCompleteCallback cbs} \<longrightarrow>
        keeps_watch interest fd f)"

lemma after_then: "after P m \<Longrightarrow> (\<And>x. P x \<Longrightarrow> after Q (f x)) \<Longrightarrow> after Q (rbind m f)"
  by (cases m) simp_all

lemma watched_upd:
  assumes "watched_conn interest fd w" and "w_conn w = Some c" and "interest k = interest (w_os w)"
    and "tc_cfd c' = tc_cfd c" and "tc_channel c' = tc_channel c" and "tc_sendFd c' = tc_sendFd c"
    and "is_open c' = is_open c" and "tc_state c = kDisconnected \<Longrightarrow> tc_state c' = kDisconnected"
  shows "watched_conn interest fd (w\<lparr>w_conn := Some c', w_os := k\<rparr>)"
  using assms by (auto simp: watched_conn_def entry_of_def split: if_splits)

context conn_kernel
begin

lemma handleClose_watch:
  fixes cbs :: "('e, 'o, 'u) world conn_callbacks"
  assumes "watch_cbs interest fd cbs"
  shows "keeps_watch interest fd (conn_handleClose os cbs tid)"
proof (rule keeps_watchI)
  fix w :: "('e, 'o, 'u) world" assume w: "watched_conn interest fd w"
  have con: "keeps_watch interest fd (notify os (connectionCallback cbs))"
    and clo: "keeps_watch interest fd (notify os (closeCallback cbs))"
    by (rule notify_watch; use assms in \<open>simp add: watch_cbs_def\<close>)+
  have "after (watched_conn interest fd)
      (rbind (conn_channel os tid DisableAll (upd_conn (\<lambda>c. c\<lparr>tc_state := kDisconnected\<rparr>) w)) (\<lambda>w2.
       rbind (notify os (connectionCallback cbs) w2) (notify os (closeCallback cbs))))"
    if "w_conn w = Some c" "is_open c" for c
    by (rule after_then [OF disable_all_closes [OF w that]]) (rule keeps_watchD [OF keeps_watch_then [OF con clo]])
  then show "after (watched_conn interest fd) (conn_handleClose os cbs tid w)"
    unfolding conn_handleClose_def after_simps after_with_conn by (simp add: is_open_def Let_def)
qed

lemma handleRead_watch:
  fixes cbs :: "('e, 'o, 'u) world conn_callbacks"
  assumes "watch_cbs interest fd cbs"
  shows "keeps_watch interest fd (conn_handleRead os cbs tid)"
proof (rule keeps_watchI)
  fix w :: "('e, 'o, 'u) world" assume w: "watched_conn interest fd w"
  have msg: "keeps_watch interest fd (notify os (messageCallback cbs))"
    by (rule notify_watch; use assms in \<open>simp add: watch_cbs_def\<close>)
  show "after (watched_conn interest fd) (conn_handleRead os cbs tid w)"
    unfolding conn_handleRead_def after_with_conn
  proof (intro allI impI)
    fix c assume c: "w_conn w = Some c"
    obtain r o' where r: "os_readv os (tc_cfd c) (readFd_iov (tc_inBuffer c)) (w_os w) = (r, o')"
      by (cases "os_readv os (tc_cfd c) (readFd_iov (tc_inBuffer c)) (w_os w)")
    have "watched_conn interest fd (w\<lparr>w_conn := Some (c\<lparr>tc_inBuffer := b\<rparr>), w_os := o'\<rparr>)" for b
      by (rule watched_upd [OF w c readv_frame [OF r]]) (simp_all add: is_open_def)
    with keeps_watchD [OF msg] keeps_watchD [OF handleClose_watch [OF assms]]
    show "after (watched_conn interest fd) (case os_readv os (tc_cfd c) (readFd_iov (tc_inBuffer c)) (w_os w) of (r, o') \<Rightarrow>
        rbind (readFd (\<lambda>_. r) (tc_inBuffer c)) (\<lambda>(n, savedErrno, b).
         let w1 = w\<lparr>w_conn := Some (c\<lparr>tc_inBuffer := b\<rparr>), w_os := o'\<rparr> in
         if n = -1 then Inr w1
         else if n = 0 then conn_handleClose os cbs tid w1
         else notify os (messageCallback cbs) w1))"
      by (cases "readFd (\<lambda>_. r) (tc_inBuffer c)") (auto simp: r Let_def)
  qed
qed

lemma direct_write_watch:
  fixes cbs :: "('e, 'o, 'u) world conn_callbacks"
  assumes "watch_cbs interest fd cbs" and w: "watched_conn interest fd w"
  shows "after (\<lambda>(n, w1). watched_conn interest fd w1) (direct_write os cbs data w)"
  unfolding direct_write_def after_with_conn
proof (intro allI impI)
  fix c assume c: "w_conn w = Some c"
  obtain r o' where r: "os_write os (ch_fd (tc_channel c)) data (w_os w) = (r, o')"
    by (cases "os_write os (ch_fd (tc_channel c)) data (w_os w)")
  have w1: "watched_conn interest fd (w\<lparr>w_os := o'\<rparr>)"
    using w by (simp add: watched_os [OF write_frame [OF r]])
  then have w2: "watched_conn interest fd (w\<lparr>w_os := o', w_wire := x\<rparr>)" for x by simp
  have "after (\<lambda>w1. watched_conn interest fd w1) (holding os f (w\<lparr>w_os := o', w_wire := x\<rparr>))"
    if "writeCompleteCallback cbs = Some f" for f x
    by (rule keeps_watchD [OF holding_watch w2]) (use assms(1) that in \<open>simp add: watch_cbs_def\<close>)
  with w w1 show "after (\<lambda>(n, w1). watched_conn interest fd w1)
     (if \<not> isWriting (tc_channel c) \<and> readableBytes (tc_outBuffer c) = 0 then
         (case os_write os (ch_fd (tc_channel c)) data (w_os w) of
            (Inl err, o') \<Rightarrow> Inr (0, w\<lparr>w_os := o'\<rparr>)
          | (Inr n, o') \<Rightarrow>
              let w1 = w\<lparr>w_os := o', w_wire := w_wire w @ take n data\<rparr> in
              if n < length data then Inr (n, w1)
              else (case writeCompleteCallback cbs of
                      None \<Rightarrow> Inr (n, w1)
                    | Some f \<Rightarrow> rbind (holding os f w1) (\<lambda>w2. Inr (n, w2))))
       else Inr (0, w))"
    by (cases r) (simp_all add: r Let_def split: option.split)
qed

lemma sendInLoop_watch:
  fixes cbs :: "('e, 'o, 'u) world conn_callbacks"
  assumes "watch_cbs interest fd cbs"
  shows "keeps_watch interest fd (sendInLoop os cbs tid data)"
proof (rule keeps_watchI)
  fix w :: "('e, 'o, 'u) world" assume w: "watched_conn interest fd w"
  have step: "after (watched_conn interest fd) (with_conn w1 (\<lambda>c1.
           if n < length data \<or> tc_stSize c1 \<noteq> 0 then
             rbind (append_buf (drop n data) (tc_outBuffer c1)) (\<lambda>b.
             let w2 = upd_conn (\<lambda>c. c\<lparr>tc_outBuffer := b\<rparr>) w1 in
             if \<not> isWriting (tc_channel c1) then conn_channel os tid EnableWrite w2 else Inr w2)
           else Inr w1))" if w1: "watched_conn interest fd w1" for n and w1 :: "('e, 'o, 'u) world"
    unfolding after_with_conn
  proof (intro allI impI)
    fix c assume c: "w_conn w1 = Some c"
    have w2: "watched_conn interest fd (upd_conn (\<lambda>c. c\<lparr>tc_outBuffer := b\<rparr>) w1)" for b
      using w1 c by (simp add: upd_conn_def watched_same [where c = c])
    have "after (watched_conn interest fd) (conn_channel os tid EnableWrite (upd_conn (\<lambda>c. c\<lparr>tc_outBuffer := b\<rparr>) w1))" for b
      by (rule keeps_watchD [OF channel_watch w2]) simp
    with w1 w2
    show "after (watched_conn interest fd) (if n < length data \<or> tc_stSize c \<noteq> 0 then
             rbind (append_buf (drop n data) (tc_outBuffer c)) (\<lambda>b.
             let w2 = upd_conn (\<lambda>c. c\<lparr>tc_outBuffer := b\<rparr>) w1 in
             if \<not> isWriting (tc_channel c) then conn_channel os tid EnableWrite w2 else Inr w2)
           else Inr w1)"
      by (cases "append_buf (drop n data) (tc_outBuffer c)") (simp_all add: Let_def)
  qed
  have "after (watched_conn interest fd) (rbind (direct_write os cbs data w) (\<lambda>(n, w1). with_conn w1 (\<lambda>c1.
           if n < length data \<or> tc_stSize c1 \<noteq> 0 then
             rbind (append_buf (drop n data) (tc_outBuffer c1)) (\<lambda>b.
             let w2 = upd_conn (\<lambda>c. c\<lparr>tc_outBuffer := b\<rparr>) w1 in
             if \<not> isWriting (tc_channel c1) then conn_channel os tid EnableWrite w2 else Inr w2)
           else Inr w1)))"
    by (rule after_then [OF direct_write_watch [OF assms w]]) (clarify, rule step)
  then show "after (watched_conn interest fd) (sendInLoop os cbs tid data w)"
    using w unfolding sendInLoop_def after_with_conn by (simp add: after_with_conn)
qed


lemma shutdownInLoop_watch: "keeps_watch interest fd (shutdownInLoop os tid)"
  by (rule keeps_watchI) (simp add: shutdownInLoop_def after_with_conn watched_os shutdown_frame)

lemma forceCloseInLoop_watch:
  assumes "watch_cbs interest fd cbs"
  shows "keeps_watch interest fd (forceCloseInLoop os cbs tid)"
  by (rule keeps_watchI)
    (simp add: forceCloseInLoop_def after_with_conn keeps_watchD [OF handleClose_watch [OF assms]])

lemma output_done_watch: "keeps_watch interest fd (output_done os tid)"
proof (rule keeps_watchI)
  fix w :: "('e, 'o, 'u) world" assume w: "watched_conn interest fd w"
  have "after (watched_conn interest fd) (rbind (conn_channel os tid DisableWrite w) (\<lambda>w1.
     with_conn w1 (\<lambda>c. if tc_state c = kDisconnecting then shutdownInLoop os tid w1 else Inr w1)))"
    by (rule after_then [OF keeps_watchD [OF channel_watch w]])
      (simp_all add: after_with_conn keeps_watchD [OF shutdownInLoop_watch])
  then show "after (watched_conn interest fd) (output_done os tid w)" by (simp add: output_done_def)
qed

lemma handleWrite_watch:
  fixes cbs :: "('e, 'o, 'u) world conn_callbacks"
  assumes "watch_cbs interest fd cbs"
  shows "keeps_watch interest fd (conn_handleWrite os cbs tid)"
proof (rule keeps_watchI)
  fix w :: "('e, 'o, 'u) world" assume w: "watched_conn interest fd w"
  have wc: "keeps_watch interest fd (notify os (writeCompleteCallback cbs))"
    by (rule notify_watch; use assms in \<open>simp add: watch_cbs_def\<close>)
  note finish = keeps_watchD [OF keeps_watch_then [OF output_done_watch wc]]
  show "after (watched_conn interest fd) (conn_handleWrite os cbs tid w)"
  proof (cases "w_conn w")
    case None
    then show ?thesis by (simp add: conn_handleWrite_def after_with_conn)
  next
    case (Some c)
    have e: "entry_of fd (interest (w_os w) fd) (Some c)" using w Some by (simp add: watched_conn_def)
    then have sfd: "tc_sendFd c \<noteq> fd" by (simp add: entry_of_def)
    have wr: "after (watched_conn interest fd) (case os_write os (ch_fd (tc_channel c)) data (w_os w) of
             (Inl err, o') \<Rightarrow> Inr (w\<lparr>w_os := o'\<rparr>)
           | (Inr n, o') \<Rightarrow>
               rbind (retrieve n (tc_outBuffer c)) (\<lambda>b.
               let w1 = w\<lparr>w_os := o', w_wire := w_wire w @ take n data,
                          w_conn := Some (c\<lparr>tc_outBuffer := b\<rparr>)\<rparr> in
               if readableBytes b = 0 \<and> tc_stSize c = 0
               then rbind (output_done os tid w1) (notify os (writeCompleteCallback cbs))
               else Inr w1))" for data
    proof -
      obtain r o' where r: "os_write os (ch_fd (tc_channel c)) data (w_os w) = (r, o')"
        by (cases "os_write os (ch_fd (tc_channel c)) data (w_os w)")
      note fr = write_frame [OF r]
      have w1: "watched_conn interest fd (w\<lparr>w_os := o', w_wire := x, w_conn := Some (c\<lparr>tc_outBuffer := b\<rparr>)\<rparr>)" for x b
        using e fr by (simp add: watched_conn_def entry_of_def is_open_def)
      have fin: "after (watched_conn interest fd) (rbind (output_done os tid (w\<lparr>w_os := o', w_wire := x,
          w_conn := Some (c\<lparr>tc_outBuffer := b\<rparr>)\<rparr>)) (notify os (writeCompleteCallback cbs)))" for x b
        by (rule finish [OF w1])
      show ?thesis
      proof (cases r)
        case (Inl err)
        then show ?thesis using w fr by (simp add: r watched_os)
      next
        case (Inr n)
        show ?thesis
          unfolding r Inr prod.case sum.case
          by (cases "retrieve n (tc_outBuffer c)") (use fin w1 in \<open>simp_all add: Let_def\<close>)
      qed
    qed
    have fl: "after (watched_conn interest fd) (case os_sendfile os (ch_fd (tc_channel c)) (tc_sendFd c) (w_os w) of
              (Inl err, o') \<Rightarrow> Inr (w\<lparr>w_os := o'\<rparr>)
            | (Inr bytes, o') \<Rightarrow>
                let size = tc_stSize c - int (length bytes);
                    w1 = w\<lparr>w_os := o', w_wire := w_wire w @ bytes,
                           w_conn := Some (c\<lparr>tc_stSize := size\<rparr>)\<rparr> in
                if size = 0
                then rbind (output_done os tid w1) (\<lambda>w2.
                     Inr (w2\<lparr>w_os := os_close os (tc_sendFd c) (w_os w2)\<rparr>))
                else Inr w1)"
    proof -
      obtain r o' where r: "os_sendfile os (ch_fd (tc_channel c)) (tc_sendFd c) (w_os w) = (r, o')"
        by (cases "os_sendfile os (ch_fd (tc_channel c)) (tc_sendFd c) (w_os w)")
      note fr = sendfile_frame [OF r]
      have w1: "watched_conn interest fd (w\<lparr>w_os := o', w_wire := x, w_conn := Some (c\<lparr>tc_stSize := n\<rparr>)\<rparr>)" for x n
        using e fr by (simp add: watched_conn_def entry_of_def is_open_def)
      have closed: "watched_conn interest fd (w2\<lparr>w_os := os_close os (tc_sendFd c) (w_os w2)\<rparr>)"
        if "watched_conn interest fd w2" for w2 :: "('e, 'o, 'u) world"
        using that sfd by (simp add: watched_conn_def close_law)
      have fin: "after (watched_conn interest fd) (rbind (output_done os tid (w\<lparr>w_os := o', w_wire := x,
          w_conn := Some (c\<lparr>tc_stSize := n\<rparr>)\<rparr>)) (\<lambda>w2. Inr (w2\<lparr>w_os := os_close os (tc_sendFd c) (w_os w2)\<rparr>)))" for x n
        by (rule after_then [OF keeps_watchD [OF output_done_watch w1]]) (simp add: closed)
      show ?thesis
      proof (cases r)
        case (Inl err)
        then show ?thesis using w fr by (simp add: r watched_os)
      next
        case (Inr bytes)
        show ?thesis unfolding r Inr prod.case sum.case Let_def using fin w1 by simp
      qed
    qed
    show ?thesis
      using wr fl w by (simp add: conn_handleWrite_def Some)
  qed
qed

end


subsection \<open>Tasks and events\<close>

lemma addTask_watched: "watched_conn interest fd (addTask efd_write tid task w) = watched_conn interest fd w"
  by (simp add: addTask_def push_task_def wakeup_def Let_def split: sum.split)

lemma consume_watch:
  fixes interest :: "'o \<Rightarrow> unit interest_list"
  shows "keeps_watch interest fd (conn_consume :: ('e, 'o, 'u) world \<Rightarrow> ('e, 'o, 'u) world res)"
proof (rule keeps_watchI)
  fix w :: "('e, 'o, 'u) world" assume w: "watched_conn interest fd w"
  show "after (watched_conn interest fd) (conn_consume w)"
    unfolding conn_consume_def after_with_conn
  proof (intro allI impI)
    fix c assume c: "w_conn w = Some c"
    show "after (watched_conn interest fd) (rbind (retrieveAllAsString (tc_inBuffer c)) (\<lambda>(s, b).
       Inr (upd_conn (\<lambda>c. c\<lparr>tc_inBuffer := b\<rparr>) w)))"
      by (cases "retrieveAllAsString (tc_inBuffer c)") (use w c in \<open>auto simp: upd_conn_def watched_same [where c = c]\<close>)
  qed
qed

lemma when_revents_watch:
  "keeps_watch interest fd f \<Longrightarrow> keeps_watch interest fd (when_revents chan cond (Some f))"
  by (auto simp: keeps_watch_def when_revents_def call_def split: option.split)

context conn_kernel
begin

lemma exec_task_watch: "watch_cbs interest fd cbs \<Longrightarrow> keeps_watch interest fd (exec_task os cbs tid task)"
  by (cases task) (simp_all add: exec_task_def sendInLoop_watch shutdownInLoop_watch forceCloseInLoop_watch)

lemma run_task_watch:
  fixes cbs :: "('e, 'o, 'u) world conn_callbacks"
  assumes "watch_cbs interest fd cbs"
  shows "keeps_watch interest fd (run_task os cbs tid task)"
proof (rule keeps_watchI)
  fix w :: "('e, 'o, 'u) world" assume w: "watched_conn interest fd w"
  have "keeps_watch interest fd (runInLoop (os_efd_write os) (exec_task os cbs tid) tid task)"
    using exec_task_watch [OF assms] by (simp add: keeps_watch_def runInLoop_def addTask_watched)
  from keeps_watchD [OF holding_watch [OF this] w] w show "after (watched_conn interest fd) (run_task os cbs tid task w)"
    by (simp add: run_task_def runInLoop_def addTask_watched)
qed

lemma app_do_watch:
  fixes cbs :: "('e, 'o, 'u) world conn_callbacks"
  assumes "watch_cbs interest fd cbs"
  shows "keeps_watch interest fd (app_do os cbs tid op)"
proof (rule keeps_watchI)
  fix w :: "('e, 'o, 'u) world" assume w: "watched_conn interest fd w"
  note run = keeps_watchD [OF run_task_watch [OF assms]]
  have down: "watched_conn interest fd (upd_conn (\<lambda>c. c\<lparr>tc_state := kDisconnecting\<rparr>) w)"
    if "w_conn w = Some c" "tc_state c = kConnected" for c
    using w that by (simp add: watched_conn_def upd_conn_def entry_of_def is_open_def)
  show "after (watched_conn interest fd) (app_do os cbs tid op w)"
  proof (cases op)
    case (ASend data)
    then show ?thesis
      using keeps_watchD [OF sendInLoop_watch [OF assms] w] run [OF w] w
      by (simp add: conn_send_def after_with_conn)
  next
    case AShutdown
    then show ?thesis using run [OF down] w by (simp add: conn_shutdown_def after_with_conn)
  next
    case AForceClose
    then show ?thesis using run [OF w] w by (simp add: conn_forceClose_def after_with_conn)
  next
    case AConsume
    then show ?thesis using keeps_watchD [OF consume_watch w] by simp
  qed
qed

lemma events_watch:
  fixes cbs :: "('e, 'o, 'u) world conn_callbacks"
  assumes "watch_cbs interest fd cbs"
  shows "keeps_watch interest fd (conn_events os cbs tid r)"
proof (rule keeps_watchI)
  fix w :: "('e, 'o, 'u) world" assume w: "watched_conn interest fd w"
  let ?w = "upd_conn (\<lambda>c. c\<lparr>tc_channel := setRevent r (tc_channel c)\<rparr>) w"
  let ?ch = "\<lambda>w :: ('e, 'o, 'u) world. map_option tc_channel (w_conn w)"
  have w1: "watched_conn interest fd ?w"
    using w by (auto simp: watched_conn_def upd_conn_def entry_of_def is_open_def setRevent_def isReading_def split: option.splits)
  have err: "keeps_watch interest fd conn_handleError"
    by (rule keeps_watchI) (simp add: conn_handleError_def after_with_conn)
  note tests = when_revents_watch [OF handleClose_watch [OF assms]] when_revents_watch [OF err]
    when_revents_watch [OF handleRead_watch [OF assms]] when_revents_watch [OF handleWrite_watch [OF assms]]
  have "keeps_watch interest fd (\<lambda>s.
     rbind (when_revents ?ch (\<lambda>r. r AND EPOLLHUP \<noteq> 0 \<and> r AND EPOLLIN = 0) (Some (conn_handleClose os cbs tid)) s) (\<lambda>s.
     rbind (when_revents ?ch (\<lambda>r. r AND EPOLLERR \<noteq> 0) (Some conn_handleError) s) (\<lambda>s.
     rbind (when_revents ?ch (\<lambda>r. r AND (EPOLLIN OR EPOLLPRI OR EPOLLRDHUP) \<noteq> 0) (Some (conn_handleRead os cbs tid)) s)
       (when_revents ?ch (\<lambda>r. r AND EPOLLOUT \<noteq> 0) (Some (conn_handleWrite os cbs tid))))))"
    by (intro keeps_watch_then tests)
  from keeps_watchD [OF this w1] show "after (watched_conn interest fd) (conn_events os cbs tid r w)"
    by (simp add: conn_events_def handleEvents_def channel_callbacks_def Let_def)
qed

lemma runTasks_watch:
  fixes cbs :: "('e, 'o, 'u) world conn_callbacks"
  assumes "watch_cbs interest fd cbs"
  shows "keeps_watch interest fd (conn_runTasks os cbs tid)"
proof (rule keeps_watchI)
  fix w :: "('e, 'o, 'u) world" assume w: "watched_conn interest fd w"
  let ?w = "w\<lparr>el_runningTasks := True, el_tasks := []\<rparr>"
  have "keeps_watch interest fd (run_list (exec_task os cbs tid) (el_tasks w))"
    by (rule run_list_watch) (rule exec_task_watch [OF assms])
  moreover have "watched_conn interest fd ?w" using w by simp
  ultimately have "after (watched_conn interest fd) (run_list (exec_task os cbs tid) (el_tasks w) ?w)"
    by (rule keeps_watchD)
  then have "after (watched_conn interest fd) (runTasks (exec_task os cbs tid) w)"
    by (simp add: runTasks_def Let_def)
  from after_then [OF this keeps_watchD [OF release_watch]]
  show "after (watched_conn interest fd) (conn_runTasks os cbs tid w)" by (simp add: conn_runTasks_def Let_def)
qed

lemma input_step_watch:
  fixes cbs :: "('e, 'o, 'u) world conn_callbacks"
  assumes "watch_cbs interest fd cbs"
  shows "keeps_watch interest fd (input_step os cbs tid i)"
proof (rule keeps_watchI)
  fix w :: "('e, 'o, 'u) world" assume w: "watched_conn interest fd w"
  show "after (watched_conn interest fd) (input_step os cbs tid i w)"
  proof (cases i)
    case Establish
    have "tc_state c \<noteq> kConnecting" if "w_conn w = Some c" for c
      using w that by (auto simp: watched_conn_def entry_of_def is_open_def split: if_splits)
    then show ?thesis using Establish by (simp add: conn_enableRead_def after_with_conn)
  next
    case (Ready r)
    then show ?thesis using keeps_watchD [OF events_watch [OF assms] w] w by (simp split: option.split)
  next
    case Tasks
    then show ?thesis using keeps_watchD [OF runTasks_watch [OF assms] w] by simp
  next
    case (Use t op)
    then show ?thesis using keeps_watchD [OF app_do_watch [OF assms] w] by simp
  qed
qed

lemma establish_watch:
  fixes cbs :: "('e, 'o, 'u) world conn_callbacks"
  assumes "watch_cbs interest fd cbs" and "w_conn w = Some (new_connection fd)" and "fd \<noteq> -1" and "interest (w_os w) fd = None"
  shows "after (watched_conn interest fd) (conn_enableRead os cbs tid w)"
proof -
  let ?c = "(new_connection fd)\<lparr>tc_state := kConnected\<rparr>" and ?ch = "(new_channel fd)\<lparr>ch_events := EPOLLIN OR EPOLLPRI\<rparr>"
  let ?w = "upd_conn (\<lambda>c. c\<lparr>tc_state := kConnected\<rparr>) w"
  have con: "keeps_watch interest fd (notify os (connectionCallback cbs))"
    by (rule notify_watch; use assms(1) in \<open>simp add: watch_cbs_def\<close>)
  have "after (watched_conn interest fd) (conn_channel os tid EnableRead ?w)"
  proof (cases "isInLoopThread tid w")
    case False
    then show ?thesis
      using assms(2) by (simp add: conn_channel_def after_with_conn chan_do_update updateChannel_off_loop upd_conn_def)
  next
    case True
    have rd: "isReading ?ch" by (simp add: isReading_bit bit_simps)
    have "ch_events ?ch \<noteq> 0" by (simp add: epoll_consts)
    then obtain k where "updateChannel (os_ctl os) True () ?ch (w_os w) = Inr (?ch\<lparr>ch_state := kAdded\<rparr>, k, None)"
      "interest k = (interest (w_os w))(fd \<mapsto> (EPOLLIN OR EPOLLPRI, ()))"
      using update_new [of "w_os w" ?ch "()"] assms(4) by (auto simp: new_channel_def)
    then show ?thesis
      using assms(2,3) True rd by (simp add: conn_channel_def upd_conn_def chan_do_update mask_after_def watched_conn_def
          entry_of_def is_open_def new_connection_def new_channel_def isReading_def)
  qed
  from after_then [OF this keeps_watchD [OF con]] show ?thesis
    by (simp add: conn_enableRead_def after_with_conn assms(2) new_connection_def Let_def)
qed

lemma react_watch:
  assumes "\<And>ops. keeps_watch interest fd (run ops)"
  shows "keeps_watch interest fd (react script run e)"
  using keeps_watchD [OF assms] by (auto simp: keeps_watch_def react_def record_event_def split: prod.split)

lemma callbacks_of_watch:
  assumes "\<And>e. keeps_watch interest fd (f e)"
  shows "watch_cbs interest fd (callbacks_of f)"
  using keeps_watchD [OF assms] by (auto simp: watch_cbs_def callbacks_of_def keeps_watch_def after_with_conn)

lemma app_callbacks_watch: "watch_cbs interest fd (app_callbacks os tid script n)"
proof (induction n)
  case 0
  show ?case by (simp add: callbacks_of_watch react_watch)
next
  case (Suc n)
  then show ?case by (simp add: callbacks_of_watch react_watch run_list_watch app_do_watch)
qed

end

subsection \<open>Properties\<close>

text \<open>C4. The kernel never holds the address of a channel that is gone, and never forgets an open one.  Whatever
  the application does inside its callbacks and from whatever thread it uses the connection, whatever events
  the kernel reports and whenever tasks are run: while the connection is open its descriptor is in the
  interest list with the channel's mask, which includes reading; from the moment it is closed, and after
  it is destroyed, the descriptor is not in the list, so \<open>epoll_wait\<close> cannot report it.  It relies on
  \<open>epoll_ctl\<close> as documented and on the other system calls leaving the list alone.\<close>

theorem no_stale_channel:
  assumes "conn_kernel os interest" and "w_conn w = Some (new_connection fd)" and "0 \<le> fd" and "interest (w_os w) fd = None"
    and "rbind (conn_enableRead os (app_callbacks os tid script n) tid w)
           (run_list (input_step os (app_callbacks os tid script n) tid) is) = Inr w'"
  shows "case w_conn w' of
       None \<Rightarrow> interest (w_os w') fd = None
     | Some c \<Rightarrow>
         if tc_state c = kConnected \<or> tc_state c = kDisconnecting
         then isReading (tc_channel c) \<and> interest (w_os w') fd = Some (ch_events (tc_channel c), ())
         else tc_state c = kDisconnected \<and> interest (w_os w') fd = None"
proof -
  note cbs = conn_kernel.app_callbacks_watch [OF assms(1), of fd tid script n]
  have "after (watched_conn interest fd) (rbind (conn_enableRead os (app_callbacks os tid script n) tid w)
           (run_list (input_step os (app_callbacks os tid script n) tid) is))"
    using conn_kernel.establish_watch [OF assms(1) cbs assms(2) _ assms(4), of tid] assms(3)
      keeps_watchD [OF run_list_watch [OF conn_kernel.input_step_watch [OF assms(1) cbs]]]
    by (intro after_then [of "watched_conn interest fd"]) auto
  then have "watched_conn interest fd w'" by (simp only: assms(5) after_simps)
  then show ?thesis
    by (auto simp: watched_conn_def entry_of_def is_open_def split: option.splits if_splits)
qed



text \<open>A connection that is closed by its application; its server still owns it.\<close>

definition watched_world :: "(nat, unit interest_list, nat) app_world" where
  "watched_world = \<lparr> el_tid = 0, el_quit = False, el_tasks = [], el_runningTasks = False,
     el_looping = True, el_wakeupfd = 0, w_conn = Some (new_connection 5), w_os = Map.empty,
     w_refs = 2, w_user = ([], 0), w_wire = [], w_shut = False \<rparr>"

definition idle_script :: "nat script" where
  "idle_script e u = ([], u)"

theorem no_stale_channel_witness:
  "\<exists>w c. rbind (conn_enableRead slow_kernel (app_callbacks slow_kernel 0 idle_script 0) 0 watched_world)
        (run_list (input_step slow_kernel (app_callbacks slow_kernel 0 idle_script 0) 0) [Use 0 AForceClose]) = Inr w \<and>
      w_conn w = Some c \<and> tc_state c = kDisconnected \<and> w_os w 5 = None"
proof -
  have "\<exists>w c. rbind (conn_enableRead slow_kernel (app_callbacks slow_kernel 0 idle_script 0) 0 watched_world)
        (run_list (input_step slow_kernel (app_callbacks slow_kernel 0 idle_script 0) 0) [Use 0 AForceClose]) = Inr w \<and>
      w_conn w = Some c \<and> tc_state c = kDisconnected"
    by (simp add: conn_enableRead_def watched_world_def new_connection_def new_channel_def upd_conn_def conn_channel_def
        isInLoopThread_def chan_do_update updateChannel_def isNoEvent_def mask_after_def poll_update_def notify_def
        holding_def release_def record_event_def callbacks_of_def with_conn_def react_def idle_script_def
        slow_kernel_def slow_os_def epoll_ref_def conn_forceClose_def run_task_def runInLoop_def exec_task_def
        forceCloseInLoop_def conn_handleClose_def epoll_consts Let_def)
  then obtain w c where run: "rbind (conn_enableRead slow_kernel (app_callbacks slow_kernel 0 idle_script 0) 0 watched_world)
        (run_list (input_step slow_kernel (app_callbacks slow_kernel 0 idle_script 0) 0) [Use 0 AForceClose]) = Inr w"
    and c: "w_conn w = Some c" "tc_state c = kDisconnected" by blast
  have "w_conn watched_world = Some (new_connection 5)" "w_os watched_world 5 = None" by (simp_all add: watched_world_def)
  from no_stale_channel [OF slow.conn_kernel_axioms this(1) _ this(2) run] c have "w_os w 5 = None" by simp
  with run c show ?thesis by blast
qed

end
