(* ===== verification/Dispatch.thy ===== *)
theory Dispatch
  imports TcpConnection
begin

text \<open>
  One round of \<open>EventLoop::loop\<close> (\<open>yvent/EventLoop.cpp\<close>) with the poller of \<open>yvent/Poll.cpp\<close>: \<open>epoll_wait\<close> hands out
  the addresses of channels, \<open>poll\<close> notes the events in the channels and collects them in
  \<open>activeChannels_\<close>, the loop calls \<open>handleEvents\<close> of each and then runs the queued tasks.  The list holds raw
  pointers: a channel that is destroyed before its turn is used after it is freed.
\<close>

subsection \<open>A round\<close>

text \<open>The loop with the channels at their addresses, and the size of \<open>events_\<close>.\<close>

record ('k, 'e, 'p, 'u) channel_loop = "('k, 'e) evloop" +
  ls_chans :: "'p \<Rightarrow> channel option"
  ls_events :: nat
  ls_user :: 'u

fun fill_active ::
  "(32 word \<times> 'p) list \<Rightarrow> ('p \<Rightarrow> channel option) \<Rightarrow> ('p \<Rightarrow> channel option) res" where
  "fill_active [] m = Inr m"
| "fill_active ((r, p) # evs) m =
     (case m p of None \<Rightarrow> Inl UseAfterFree | Some c \<Rightarrow> fill_active evs (m(p \<mapsto> setRevent r c)))"

text \<open>\<open>wait\<close> is the answer of \<open>epoll_wait\<close> for a number of events.\<close>

definition loop_poll ::
  "(nat \<Rightarrow> 'p wait_result) \<Rightarrow> ('k, 'e, 'p, 'u) channel_loop \<Rightarrow> (('k, 'e, 'p, 'u) channel_loop \<times> 'p list) res" where
  "loop_poll wait l =
     (let maxEvents = ls_events l in
      case wait maxEvents of
        WaitErr err \<Rightarrow> Inr (l, [])
      | WaitEvents evs \<Rightarrow>
          rbind (fill_active evs (ls_chans l)) (\<lambda>m.
          Inr (l\<lparr>ls_chans := m,
                ls_events := (if evs \<noteq> [] \<and> length evs = maxEvents then 2 * maxEvents else maxEvents)\<rparr>,
               map snd evs)))"

definition dispatch ::
  "('p \<Rightarrow> 's \<Rightarrow> channel option) \<Rightarrow> bool \<Rightarrow> ('p \<Rightarrow> 's chan_callbacks) \<Rightarrow> 'p list \<Rightarrow> 's \<Rightarrow> 's res" where
  "dispatch chan inLoop cbs activeChannels =
     run_list (\<lambda>p. handleEvents (chan p) inLoop (cbs p)) activeChannels"

definition loop_round ::
  "(nat \<Rightarrow> 'p wait_result) \<Rightarrow> bool \<Rightarrow> ('p \<Rightarrow> ('k, 'e, 'p, 'u) channel_loop chan_callbacks) \<Rightarrow>
   ('k \<Rightarrow> ('k, 'e, 'p, 'u) channel_loop \<Rightarrow> ('k, 'e, 'p, 'u) channel_loop res) \<Rightarrow>
   ('k, 'e, 'p, 'u) channel_loop \<Rightarrow> ('k, 'e, 'p, 'u) channel_loop res" where
  "loop_round wait inLoop cbs exec l =
     rbind (loop_poll wait l) (\<lambda>(l1, activeChannels).
     rbind (dispatch (\<lambda>p l. ls_chans l p) inLoop cbs activeChannels l1) (runTasks exec))"

subsection \<open>A round that destroys no channel\<close>

lemma call_all_append: "call_all (xs @ ys) s = rbind (call_all xs s) (call_all ys)"
proof (induction xs arbitrary: s)
  case (Cons x xs)
  then show ?case by (cases "call x s") simp_all
qed simp

lemma call_all_keeps:
  "call_all cbs s = Inr s' \<Longrightarrow> \<forall>cb \<in> set cbs. keeps_channel chan cb \<Longrightarrow>
   map_option ch_revents (chan s') = map_option ch_revents (chan s)"
proof (induction cbs arbitrary: s)
  case (Cons cb cbs)
  then obtain s1 where "call cb s = Inr s1" "call_all cbs s1 = Inr s'" by (auto simp: res_simps)
  with Cons show ?case by (simp add: keeps_channel_def)
qed simp

lemma dispatch_selected:
  assumes "\<forall>(r, p) \<in> set evs. map_option ch_revents (chan p s) = Some r"
    and "\<forall>(r, p) \<in> set evs. \<forall>cb \<in> set (selected r (cbs p)). \<forall>p' \<in> snd ` set evs. keeps_channel (chan p') cb"
  shows "dispatch chan True cbs (map snd evs) s = call_all (concat (map (\<lambda>(r, p). selected r (cbs p)) evs)) s"
  using assms
proof (induction evs arbitrary: s)
  case Nil
  then show ?case by (simp add: dispatch_def)
next
  case (Cons ev evs)
  obtain r p where ev: "ev = (r, p)" by (cases ev)
  let ?sel = "selected r (cbs p)"
  from Cons.prems(1) ev obtain c where c: "chan p s = Some c" "ch_revents c = r" by auto
  have keep: "\<forall>cb \<in> set ?sel. keeps_channel (chan p') cb" if "p' \<in> snd ` set (ev # evs)" for p'
    using Cons.prems(2) ev that by auto
  have first: "handleEvents (chan p) True (cbs p) s = call_all ?sel s"
    using handleEvents_selected [of "chan p" s c "cbs p"] keep [of p] c ev by simp
  have rest: "dispatch chan True cbs (map snd evs) s' = call_all (concat (map (\<lambda>(r, p). selected r (cbs p)) evs)) s'"
    if run: "call_all ?sel s = Inr s'" for s'
  proof (rule Cons.IH)
    have "map_option ch_revents (chan p' s') = Some r'" if "(r', p') \<in> set evs" for r' p'
      using call_all_keeps [OF run, of "chan p'"] keep [of p'] Cons.prems(1) that by force
    then show "\<forall>(r', p') \<in> set evs. map_option ch_revents (chan p' s') = Some r'" by auto
    show "\<forall>(r, p) \<in> set evs. \<forall>cb \<in> set (selected r (cbs p)). \<forall>p' \<in> snd ` set evs. keeps_channel (chan p') cb"
      using Cons.prems(2) by fastforce
  qed
  show ?case
    using first rest by (cases "call_all ?sel s") (simp_all add: dispatch_def ev call_all_append)
qed

text \<open>The channels with the events noted in them.\<close>

definition marked :: "(32 word \<times> 'p) list \<Rightarrow> ('p \<Rightarrow> channel option) \<Rightarrow> 'p \<Rightarrow> channel option" where
  "marked evs m p = (case map_of (map (\<lambda>(r, p). (p, r)) evs) p of None \<Rightarrow> m p | Some r \<Rightarrow> map_option (setRevent r) (m p))"

lemma fill_active_marked:
  "distinct (map snd evs) \<Longrightarrow> \<forall>p \<in> snd ` set evs. m p \<noteq> None \<Longrightarrow> fill_active evs m = Inr (marked evs m)"
proof (induction evs arbitrary: m)
  case Nil
  then show ?case by (simp add: marked_def fun_eq_iff)
next
  case (Cons ev evs)
  obtain r p where ev: "ev = (r, p)" by (cases ev)
  from Cons.prems ev obtain c where c: "m p = Some c" by auto
  have p: "p \<notin> snd ` set evs" using Cons.prems(1) ev by auto
  then have none: "map_of (map (\<lambda>(r, p). (p, r)) evs) p = None" by (force simp: map_of_eq_None_iff)
  have "fill_active evs (m(p \<mapsto> setRevent r c)) = Inr (marked evs (m(p \<mapsto> setRevent r c)))"
    by (rule Cons.IH) (use Cons.prems p in auto)
  moreover have "marked evs (m(p \<mapsto> setRevent r c)) = marked (ev # evs) m"
    using none c by (auto simp: marked_def ev fun_eq_iff split: option.split)
  ultimately show ?case using c by (simp add: ev)
qed

lemma marked_revents:
  assumes "distinct (map snd evs)" and "(r, p) \<in> set evs" and "m p = Some c"
  shows "marked evs m p = Some (setRevent r c)"
proof -
  have "distinct (map fst (map (\<lambda>(r, p). (p, r)) evs))" using assms(1) by (simp add: comp_def case_prod_unfold)
  moreover have "(p, r) \<in> set (map (\<lambda>(r, p). (p, r)) evs)" using assms(2) by force
  ultimately have "map_of (map (\<lambda>(r, p). (p, r)) evs) p = Some r" by (rule map_of_is_SomeI)
  then show ?thesis using assms(3) by (simp add: marked_def)
qed


subsection \<open>A callback that closes another connection\<close>

text \<open>
  Two connections in one loop; the state of the second one is what the callbacks of the first one see of the
  application.  The operation \<open>f\<close> on the second one, called by the first:
\<close>

definition on_other ::
  "(('e, 'o, 'u) world \<Rightarrow> ('e, 'o, 'u) world res) \<Rightarrow>
   ('e, 'o, ('e, 'o, 'u) world) world \<Rightarrow> ('e, 'o, ('e, 'o, 'u) world) world res" where
  "on_other f w = rbind (f (w_user w)) (\<lambda>v. Inr (w\<lparr>w_user := v\<rparr>))"

datatype which = First | Second

fun pair_channel :: "which \<Rightarrow> ('e, 'o, ('e, 'o, 'u) world) world \<Rightarrow> channel option" where
  "pair_channel First w = map_option tc_channel (w_conn w)"
| "pair_channel Second w = map_option tc_channel (w_conn (w_user w))"

fun pair_callbacks ::
  "('e, 'o) os \<Rightarrow> ('e, 'o, ('e, 'o, 'u) world) world conn_callbacks \<Rightarrow> ('e, 'o, 'u) world conn_callbacks \<Rightarrow> nat \<Rightarrow>
   which \<Rightarrow> ('e, 'o, ('e, 'o, 'u) world) world chan_callbacks" where
  "pair_callbacks os cbs1 cbs2 tid First = channel_callbacks os cbs1 tid"
| "pair_callbacks os cbs1 cbs2 tid Second =
     \<lparr> cb_read = Some (on_other (conn_handleRead os cbs2 tid)), cb_write = Some (on_other (conn_handleWrite os cbs2 tid)),
       cb_close = Some (on_other (conn_handleClose os cbs2 tid)), cb_error = Some (on_other conn_handleError) \<rparr>"

text \<open>
  A message on the first connection makes the application close the second one.  That one is owned by the
  server and by the application's set of connections, as in the chat server: the connection callback
  takes it out of the set, and the close callback out of the server.
\<close>

definition drop_owner :: "('e, 'o, 'u) world \<Rightarrow> ('e, 'o, 'u) world res" where
  "drop_owner w = Inr (w\<lparr>w_refs := w_refs w - 1\<rparr>)"

definition member_callbacks :: "('e, 'o, 'u) world conn_callbacks" where
  "member_callbacks =
     \<lparr> connectionCallback = Some (\<lambda>w. with_conn w (\<lambda>c. if conn_connected c then Inr w else drop_owner w)),
       messageCallback = None, closeCallback = Some drop_owner, writeCompleteCallback = None \<rparr>"

definition kicking_callbacks ::
  "('e, 'o) os \<Rightarrow> nat \<Rightarrow> ('e, 'o, ('e, 'o, 'u) world) world conn_callbacks" where
  "kicking_callbacks os tid =
     \<lparr> connectionCallback = None, messageCallback = Some (on_other (conn_forceClose os member_callbacks tid)),
       closeCallback = Some drop_owner, writeCompleteCallback = None \<rparr>"

lemma force_close_member:
  fixes w :: "('e, 'o, 'u) world"
  assumes "w_conn w = Some c" and "isInLoopThread tid w" and "w_refs w = 2"
    and "tc_state c = kConnected \<or> tc_state c = kDisconnecting" and "ch_state (tc_channel c) = kAdded"
  shows "\<exists>w'. conn_forceClose os member_callbacks tid w = Inr w' \<and> w_conn w' = None"
proof -
  let ?c = "closed_conn c"
  let ?ch = "(tc_channel c)\<lparr>ch_events := 0, ch_state := kDeleted\<rparr>"
  let ?o = "fst (poll_update (os_ctl os) CtlDel () ?ch (w_os w))"
  let ?w = "w\<lparr>w_refs := 3\<rparr>"
  have "conn_channel os tid DisableAll (upd_conn (\<lambda>c. c\<lparr>tc_state := kDisconnected\<rparr>) ?w)
      = Inr (?w\<lparr>w_conn := Some ?c, w_os := ?o\<rparr>)"
    using assms(1,2,5) by (simp add: conn_channel_def upd_conn_def chan_do_update updateChannel_def
        closed_conn_def mask_after_def isNoEvent_def Let_def split: prod.split)
  moreover have "tc_state ?c = kDisconnected" by (simp add: closed_conn_def)
  ultimately have "conn_handleClose os member_callbacks tid ?w = Inr (w\<lparr>w_conn := Some ?c, w_os := ?o, w_refs := 1\<rparr>)"
    using assms(1,2,4) by (simp add: conn_handleClose_def member_callbacks_def notify_def holding_def release_def
        drop_owner_def conn_connected_def Let_def)
  then have "runInLoop (os_efd_write os) (exec_task os member_callbacks tid) tid TForceClose ?w
      = Inr (w\<lparr>w_conn := Some ?c, w_os := ?o, w_refs := 1\<rparr>)"
    using assms(1,2,4) by (auto simp: runInLoop_def exec_task_def forceCloseInLoop_def)
  then show ?thesis
    using assms(1-4) by (auto simp: conn_forceClose_def run_task_def holding_def release_def destroy_conn_def
        closed_conn_def Let_def)
qed


subsection \<open>Properties\<close>

text \<open>C15. A round of the loop runs what the kernel reported, and then the tasks.  When \<open>epoll_wait\<close> reports
  events for distinct live channels, and no callback that the events select destroys one of these
  channels or changes its \<open>revents\<close>: the round notes the events in the channels, calls exactly the callbacks
  the masks select, channel by channel in the order of the report and for each channel in the order close,
  error, read, write, and then runs the queued tasks; the array for the next report doubles exactly when
  this one filled it.\<close>

theorem round_dispatch:
  fixes l :: "('k, 'e, 'p, 'u) channel_loop"
  assumes "wait (ls_events l) = WaitEvents evs" and "distinct (map snd evs)"
    and "\<forall>p \<in> snd ` set evs. ls_chans l p \<noteq> None"
    and "\<forall>(r, p) \<in> set evs. \<forall>cb \<in> set (selected r (cbs p)). \<forall>p' \<in> snd ` set evs. keeps_channel (\<lambda>l. ls_chans l p') cb"
  shows "loop_round wait True cbs exec l =
     rbind (call_all (concat (map (\<lambda>(r, p). selected r (cbs p)) evs))
         (l\<lparr>ls_chans := marked evs (ls_chans l),
            ls_events := (if evs \<noteq> [] \<and> length evs = ls_events l then 2 * ls_events l else ls_events l)\<rparr>))
       (runTasks exec)"
proof -
  let ?l = "l\<lparr>ls_chans := marked evs (ls_chans l),
            ls_events := (if evs \<noteq> [] \<and> length evs = ls_events l then 2 * ls_events l else ls_events l)\<rparr>"
  have polled: "loop_poll wait l = Inr (?l, map snd evs)"
    using fill_active_marked [OF assms(2,3)] assms(1) by (simp add: loop_poll_def Let_def)
  have "map_option ch_revents (ls_chans ?l p) = Some r" if ev: "(r, p) \<in> set evs" for r p
  proof -
    have "p \<in> snd ` set evs" using ev by force
    then obtain c where "ls_chans l p = Some c" using assms(3) by blast
    from marked_revents [where m = "ls_chans l", OF assms(2) ev this] show ?thesis by (simp add: setRevent_def)
  qed
  then have "\<forall>(r, p) \<in> set evs. map_option ch_revents (ls_chans ?l p) = Some r" by blast
  from dispatch_selected [where chan = "\<lambda>p l. ls_chans l p" and cbs = cbs, OF this assms(4)]
  show ?thesis by (simp only: loop_round_def polled rbind_Inr prod.case)
qed

text \<open>Two channels that note their events, the second one full.\<close>

definition jot :: "string \<Rightarrow> (nat, nat, nat, string list) channel_loop \<Rightarrow> (nat, nat, nat, string list) channel_loop res" where
  "jot s l = Inr (l\<lparr>ls_user := ls_user l @ [s]\<rparr>)"

definition noting :: "nat \<Rightarrow> (nat, nat, nat, string list) channel_loop chan_callbacks" where
  "noting p = (if p = 3
     then \<lparr> cb_read = Some (jot ''read 3''), cb_write = Some (jot ''write 3''), cb_close = None, cb_error = None \<rparr>
     else \<lparr> cb_read = Some (jot ''read 2''), cb_write = None, cb_close = None, cb_error = None \<rparr>)"

definition noting_loop :: "(nat, nat, nat, string list) channel_loop" where
  "noting_loop = \<lparr> el_tid = 1, el_quit = False, el_tasks = [], el_runningTasks = False, el_looping = True,
     el_wakeupfd = 0, ls_chans = [3 \<mapsto> new_channel 5, 2 \<mapsto> new_channel 6], ls_events = 2, ls_user = [] \<rparr>"

theorem round_dispatch_witness:
  "\<exists>l. loop_round (\<lambda>n. WaitEvents [(EPOLLIN, 2), (EPOLLIN OR EPOLLOUT, 3)]) True noting (\<lambda>t. Inr) noting_loop = Inr l \<and>
     ls_user l = [''read 2'', ''read 3'', ''write 3''] \<and> ls_events l = 4"
proof -
  let ?evs = "[(EPOLLIN, 2 :: nat), (EPOLLIN OR EPOLLOUT, 3)]"
  have sel: "selected EPOLLIN (noting 2) = [Some (jot ''read 2'')]"
    "selected (EPOLLIN OR EPOLLOUT) (noting 3) = [Some (jot ''read 3''), Some (jot ''write 3'')]"
    by (simp_all add: selected_def dispatch_tests_def noting_def epoll_consts)
  have "keeps_channel (\<lambda>l. ls_chans l p) (Some (jot s))" for p s
    by (simp add: keeps_channel_def call_def jot_def)
  with sel have "\<forall>(r, p) \<in> set ?evs. \<forall>cb \<in> set (selected r (noting p)). \<forall>p' \<in> snd ` set ?evs. keeps_channel (\<lambda>l. ls_chans l p') cb"
    by simp
  from round_dispatch [of "\<lambda>n. WaitEvents ?evs" noting_loop, OF refl _ _ this]
  show ?thesis by (simp add: sel noting_loop_def call_def jot_def runTasks_def Let_def)
qed

text \<open>C33. The active list outlives its channels.  When two connections of one loop are ready in the same round
  and the message callback of the first one closes the second one with \<open>forceClose\<close>, whose owners are the
  server and the application's set, the second connection is destroyed at once, since \<open>forceClose\<close> and the
  server's \<open>handleClose\<close> run immediately in the loop's thread; the loop then calls \<open>handleEvents\<close> of the
  destroyed channel, a use after free.\<close>

theorem stale_active_channel:
  fixes w :: "('e, 'o, ('e, 'o, 'u) world) world"
  assumes "w_conn w = Some a" and "isInLoopThread tid w" and "0 < w_refs w"
    and "ch_revents (tc_channel a) = EPOLLIN" and "buffer_ok (tc_inBuffer a)"
    and "length (buf_data (tc_inBuffer a)) + kExtraBuf \<le> kMaxSize"
    and "os_readv os (tc_cfd a) (readFd_iov (tc_inBuffer a)) (w_os w) = (ReadvData bs, o')"
    and "bs \<noteq> []" and "length bs \<le> sum_list (readFd_iov (tc_inBuffer a))"
    and "w_conn (w_user w) = Some c" and "isInLoopThread tid (w_user w)" and "w_refs (w_user w) = 2"
    and "tc_state c = kConnected \<or> tc_state c = kDisconnecting" and "ch_state (tc_channel c) = kAdded"
  shows "dispatch pair_channel True (pair_callbacks os (kicking_callbacks os tid) member_callbacks tid) [First, Second] w
     = Inl UseAfterFree"
proof -
  obtain v where v: "conn_forceClose os member_callbacks tid (w_user w) = Inr v" "w_conn v = None"
    using force_close_member [OF assms(10-14)] by blast
  obtain b where b: "readFd (\<lambda>_. ReadvData bs) (tc_inBuffer a) = Inr (int (length bs), None, b)"
    by (rule readFd_data [where readv = "\<lambda>_. ReadvData bs" and bs = bs, OF assms(5,6) refl assms(9)])
  let ?w = "w\<lparr>w_conn := Some (a\<lparr>tc_inBuffer := b\<rparr>), w_os := o', w_user := v\<rparr>"
  let ?v = "w\<lparr>w_conn := Some (a\<lparr>tc_inBuffer := b\<rparr>), w_os := o', w_refs := w_refs w + 1\<rparr>"
  have "w_user ?v = w_user w" by (cases w) simp
  then have kick: "on_other (conn_forceClose os member_callbacks tid) ?v = Inr (?v\<lparr>w_user := v\<rparr>)"
    unfolding on_other_def using v(1) by simp
  have "holding os (on_other (conn_forceClose os member_callbacks tid)) (w\<lparr>w_conn := Some (a\<lparr>tc_inBuffer := b\<rparr>), w_os := o'\<rparr>)
      = release os 1 (?v\<lparr>w_user := v\<rparr>)"
    using kick by (cases w) (simp add: holding_def)
  also have "\<dots> = Inr ?w" using assms(3) by (cases w) (simp add: release_def)
  finally have read: "conn_handleRead os (kicking_callbacks os tid) tid w = Inr ?w"
    using assms(1,7,8) b by (simp add: conn_handleRead_def notify_def kicking_callbacks_def Let_def)
  have after: "w_conn ?w = Some (a\<lparr>tc_inBuffer := b\<rparr>)" "w_conn (w_user ?w) = None" using v(2) by (cases w, simp)+
  have mask: "EPOLLIN AND EPOLLHUP = 0" "EPOLLIN AND EPOLLERR = 0" "EPOLLIN AND EPOLLOUT = 0"
      "EPOLLIN AND (EPOLLIN OR EPOLLPRI OR EPOLLRDHUP) \<noteq> 0"
    by (simp_all add: epoll_consts)
  have "handleEvents (pair_channel First) True (channel_callbacks os (kicking_callbacks os tid) tid) w = Inr ?w"
    using assms(1,4) read after(1) mask by (simp add: handleEvents_def when_revents_def channel_callbacks_def call_def)
  moreover have "handleEvents (pair_channel Second) True cbs ?w = Inl UseAfterFree" for cbs
    by (simp add: handleEvents_def when_revents_def after(2) v(2))
  ultimately show ?thesis by (simp add: dispatch_def)
qed

text \<open>Two open connections, with a byte to read on the first one.\<close>

definition pair_world :: "(nat, unit interest_list, (nat, unit interest_list, nat) world) world" where
  "pair_world =
     \<lparr> el_tid = 1, el_quit = False, el_tasks = [], el_runningTasks = False, el_looping = True, el_wakeupfd = 0,
       w_conn = Some ((new_connection 4)\<lparr>tc_state := kConnected,
         tc_channel := (new_channel 4)\<lparr>ch_events := EPOLLIN OR EPOLLPRI, ch_revents := EPOLLIN, ch_state := kAdded\<rparr>\<rparr>),
       w_os = Map.empty, w_refs = 1, w_user = open_world 2, w_wire = [], w_shut = False \<rparr>"

theorem stale_active_channel_witness:
  "dispatch pair_channel True (pair_callbacks (slow_os\<lparr>os_readv := (\<lambda>fd lens k. (ReadvData ''x'', k))\<rparr>)
     (kicking_callbacks (slow_os\<lparr>os_readv := (\<lambda>fd lens k. (ReadvData ''x'', k))\<rparr>) 1) member_callbacks 1) [First, Second] pair_world
   = Inl UseAfterFree"
proof -
  let ?b = "new_buffer kInitialSize"
  have "buffer_ok ?b" "length (buf_data ?b) + kExtraBuf \<le> kMaxSize" "Suc 0 \<le> sum_list (readFd_iov ?b)"
    by (rule new_buffer_ok)
      (simp_all add: new_buffer_def readFd_iov_def kExtraBuf_def kMaxSize_def kCheapPrepend_def kInitialSize_def)
  then show ?thesis
    by (intro stale_active_channel [where bs = "''x''" and a = "the (w_conn pair_world)" and c = "the (w_conn (open_world 2))"])
      (simp_all add: pair_world_def open_world_def first_world_def new_connection_def isInLoopThread_def)
qed

end
