(* ===== verification/TimerQueue.thy ===== *)
theory TimerQueue
  imports Containers
begin

text \<open>
  \<open>yvent/Timer.h\<close>, \<open>Timer.cpp\<close>, \<open>TimerQueue.h\<close> and \<open>TimerQueue.cpp\<close>.  Times are nanoseconds
  in an \<open>int64_t\<close>; an operation that leaves its range fails with \<open>Overflow\<close>.  Timers live in a
  heap indexed by their address (0 is \<open>nullptr\<close>), the queue holds pairs of expiry time and
  address in the order of \<open>std::set\<close>.  Each reading of the clock is an argument of the
  operation.  \<open>tq_armed\<close> is the last value given to \<open>timerfd_settime\<close> with the time of the
  call, \<open>tq_ran\<close> records the callbacks run so far, and \<open>tq_tasks\<close> the closures handed to the
  loop by other threads.
\<close>

subsection \<open>Timers\<close>

record 'c timer =
  tm_when :: int
  tm_callback :: "'c option"
  tm_interval :: int
  tm_repeat :: bool
  tm_canceled :: bool

definition int64 :: "int \<Rightarrow> int res" where
  "int64 i = (if - (2 ^ 63) \<le> i \<and> i < 2 ^ 63 then Inr i else Inl Overflow)"

definition new_timer :: "int \<Rightarrow> 'c option \<Rightarrow> int \<Rightarrow> 'c timer" where
  "new_timer when_t cb interval =
     \<lparr> tm_when = when_t, tm_callback = cb, tm_interval = interval, tm_repeat = (interval > 0),
       tm_canceled = False \<rparr>"

definition restart :: "'c timer \<Rightarrow> 'c timer res" where
  "restart t =
     rbind (assert (tm_repeat t)) (\<lambda>_.
     rbind (int64 (tm_when t + tm_interval t)) (\<lambda>when_t. Inr (t\<lparr>tm_when := when_t\<rparr>)))"

definition cancel :: "'c timer \<Rightarrow> 'c timer res" where
  "cancel t = rbind (assert (\<not> tm_canceled t)) (\<lambda>_. Inr (t\<lparr>tm_canceled := True\<rparr>))"

subsection \<open>The queue\<close>

datatype tq_task = TAddTimer | TCancelTimer nat

record 'c timerq =
  tq_timers :: "(int \<times> nat) list"
  tq_heap :: "nat \<Rightarrow> 'c timer option"
  tq_armed :: "(int \<times> int) option"
  tq_ran :: "'c list"
  tq_tasks :: "tq_task list"

definition new_timerq :: "'c timerq" where
  "new_timerq = \<lparr> tq_timers = [], tq_heap = Map.empty, tq_armed = None, tq_ran = [], tq_tasks = [] \<rparr>"

text \<open>\<open>*timer\<close>, an assignment to it, and \<open>delete timer\<close>.\<close>

definition deref :: "nat \<Rightarrow> ('c, 'x) timerq_scheme \<Rightarrow> 'c timer res" where
  "deref a q = (case tq_heap q a of None \<Rightarrow> Inl UseAfterFree | Some t \<Rightarrow> Inr t)"

definition put_timer :: "nat \<Rightarrow> 'c timer \<Rightarrow> ('c, 'x) timerq_scheme \<Rightarrow> ('c, 'x) timerq_scheme" where
  "put_timer a t q = q\<lparr>tq_heap := (tq_heap q)(a \<mapsto> t)\<rparr>"

definition delete_timer :: "nat \<Rightarrow> ('c, 'x) timerq_scheme \<Rightarrow> ('c, 'x) timerq_scheme res" where
  "delete_timer a q =
     rbind (deref a q) (\<lambda>_. Inr (q\<lparr>tq_heap := (tq_heap q)(a := None)\<rparr>))"

definition one_ms :: int where
  "one_ms = 1000000"

definition nano_den :: int where
  "nano_den = 1000000000"

text \<open>The \<open>timespec\<close> of a duration.\<close>

definition to_timespec :: "int \<Rightarrow> int \<times> int" where
  "to_timespec duration = (duration div nano_den, duration mod nano_den)"

definition setTimer :: "int \<Rightarrow> int \<Rightarrow> ('c, 'x) timerq_scheme \<Rightarrow> ('c, 'x) timerq_scheme res" where
  "setTimer when_t now q =
     rbind (int64 (when_t - now)) (\<lambda>d.
     let duration = (if d < one_ms then one_ms else d); time = to_timespec duration in
     Inr (q\<lparr>tq_armed := Some (now, fst time * nano_den + snd time)\<rparr>))"

text \<open>The closure of \<open>addTimer\<close> run in the loop thread, while its captures are alive.\<close>

definition insert_timer :: "int \<Rightarrow> nat \<Rightarrow> int \<Rightarrow> ('c, 'x) timerq_scheme \<Rightarrow> ('c, 'x) timerq_scheme res" where
  "insert_timer when_t a now q =
     (let q1 = q\<lparr>tq_timers := sset_insert (when_t, a) (tq_timers q)\<rparr> in
      if hd (tq_timers q1) = (when_t, a) then setTimer when_t now q1 else Inr q1)"

text \<open>
  \<open>addTimer\<close>: \<open>a\<close> is the address \<open>new\<close> returns.  From another thread the closure is queued; it
  captures the parameter \<open>when\<close> and the local \<open>pTimer\<close> by reference, which are gone when the
  loop runs it.
\<close>

definition addTimer ::
  "bool \<Rightarrow> nat \<Rightarrow> int \<Rightarrow> 'c option \<Rightarrow> int \<Rightarrow> int \<Rightarrow> ('c, 'x) timerq_scheme \<Rightarrow> (nat \<times> ('c, 'x) timerq_scheme) res" where
  "addTimer inLoop a when_t cb interval now q =
     (let q1 = put_timer a (new_timer when_t cb interval) q in
      if inLoop then rbind (insert_timer when_t a now q1) (\<lambda>q2. Inr (a, q2))
      else Inr (a, q1\<lparr>tq_tasks := tq_tasks q1 @ [TAddTimer]\<rparr>))"

definition getExpired :: "int \<Rightarrow> ('c, 'x) timerq_scheme \<Rightarrow> ((int \<times> nat) list \<times> ('c, 'x) timerq_scheme) res" where
  "getExpired now q =
     rbind (int64 (now + 1)) (\<lambda>limit.
     let en = (limit, 0) in
     Inr (sset_below en (tq_timers q), q\<lparr>tq_timers := sset_from en (tq_timers q)\<rparr>))"

text \<open>
  One expired entry of \<open>handleRead\<close>; \<open>run cb\<close> is the effect of the callback, which may use the
  queue itself.
\<close>

definition run_timer ::
  "('c \<Rightarrow> ('c, 'x) timerq_scheme \<Rightarrow> ('c, 'x) timerq_scheme res) \<Rightarrow> 'c option \<Rightarrow> ('c, 'x) timerq_scheme \<Rightarrow> ('c, 'x) timerq_scheme res" where
  "run_timer run cb q =
     (case cb of None \<Rightarrow> Inr q | Some c \<Rightarrow> run c (q\<lparr>tq_ran := tq_ran q @ [c]\<rparr>))"

definition handle_entry ::
  "('c \<Rightarrow> ('c, 'x) timerq_scheme \<Rightarrow> ('c, 'x) timerq_scheme res) \<Rightarrow> int \<times> nat \<Rightarrow> ('c, 'x) timerq_scheme \<Rightarrow> ('c, 'x) timerq_scheme res" where
  "handle_entry run e q =
     (let a = snd e in
      rbind (deref a q) (\<lambda>t.
      if tm_canceled t then delete_timer a q
      else
        rbind (run_timer run (tm_callback t) q) (\<lambda>q1.
        rbind (deref a q1) (\<lambda>t1.
        if tm_repeat t1 then
          rbind (restart t1) (\<lambda>t2.
          let q2 = put_timer a t2 q1 in
          Inr (q2\<lparr>tq_timers := sset_insert (tm_when t2, a) (tq_timers q2)\<rparr>))
        else delete_timer a q1))))"

fun handle_entries ::
  "('c \<Rightarrow> ('c, 'x) timerq_scheme \<Rightarrow> ('c, 'x) timerq_scheme res) \<Rightarrow> (int \<times> nat) list \<Rightarrow> ('c, 'x) timerq_scheme \<Rightarrow> ('c, 'x) timerq_scheme res" where
  "handle_entries run [] q = Inr q"
| "handle_entries run (e # es) q = rbind (handle_entry run e q) (handle_entries run es)"

text \<open>\<open>handleRead\<close>: the descriptor has expired; the clock is read for \<open>getExpired\<close> and again
  for \<open>setTimer\<close>.\<close>

definition tq_handleRead ::
  "('c \<Rightarrow> ('c, 'x) timerq_scheme \<Rightarrow> ('c, 'x) timerq_scheme res) \<Rightarrow> int \<Rightarrow> int \<Rightarrow> ('c, 'x) timerq_scheme \<Rightarrow> ('c, 'x) timerq_scheme res" where
  "tq_handleRead run now now2 q =
     rbind (getExpired now (q\<lparr>tq_armed := None\<rparr>)) (\<lambda>(entries, q1).
     rbind (handle_entries run entries q1) (\<lambda>q2.
     if tq_timers q2 \<noteq> [] then setTimer (fst (hd (tq_timers q2))) now2 q2 else Inr q2))"

definition cancel_in_loop :: "nat \<Rightarrow> ('c, 'x) timerq_scheme \<Rightarrow> ('c, 'x) timerq_scheme res" where
  "cancel_in_loop a q =
     rbind (deref a q) (\<lambda>t.
     rbind (cancel t) (\<lambda>t1.
     let q1 = put_timer a t1 q in
     if (tm_when t1, a) \<in> set (tq_timers q1)
     then delete_timer a (q1\<lparr>tq_timers := sset_erase (tm_when t1, a) (tq_timers q1)\<rparr>)
     else Inr q1))"

definition cancelTimer :: "bool \<Rightarrow> nat \<Rightarrow> ('c, 'x) timerq_scheme \<Rightarrow> ('c, 'x) timerq_scheme res" where
  "cancelTimer inLoop a q =
     (if inLoop then cancel_in_loop a q
      else Inr (q\<lparr>tq_tasks := tq_tasks q @ [TCancelTimer a]\<rparr>))"

text \<open>The queued closures, run by the loop.\<close>

fun tq_run_tasks :: "tq_task list \<Rightarrow> ('c, 'x) timerq_scheme \<Rightarrow> ('c, 'x) timerq_scheme res" where
  "tq_run_tasks [] q = Inr q"
| "tq_run_tasks (TAddTimer # ts) q = Inl Dangling"
| "tq_run_tasks (TCancelTimer a # ts) q = rbind (cancel_in_loop a q) (tq_run_tasks ts)"

text \<open>\<open>EventLoop::runAt\<close>, \<open>runAfter\<close> and \<open>runEvery\<close>; \<open>now\<close> and \<open>now2\<close> are the clock in the
  call and in \<open>setTimer\<close>.\<close>

definition runAt :: "bool \<Rightarrow> nat \<Rightarrow> int \<Rightarrow> 'c option \<Rightarrow> int \<Rightarrow> ('c, 'x) timerq_scheme \<Rightarrow> (nat \<times> ('c, 'x) timerq_scheme) res" where
  "runAt inLoop a when_t cb now2 q = addTimer inLoop a when_t cb 0 now2 q"

definition runAfter ::
  "bool \<Rightarrow> nat \<Rightarrow> int \<Rightarrow> 'c option \<Rightarrow> int \<Rightarrow> int \<Rightarrow> ('c, 'x) timerq_scheme \<Rightarrow> (nat \<times> ('c, 'x) timerq_scheme) res" where
  "runAfter inLoop a interval cb now now2 q =
     rbind (int64 (now + interval)) (\<lambda>when_t. addTimer inLoop a when_t cb 0 now2 q)"

definition runEvery ::
  "bool \<Rightarrow> nat \<Rightarrow> int \<Rightarrow> 'c option \<Rightarrow> int \<Rightarrow> int \<Rightarrow> ('c, 'x) timerq_scheme \<Rightarrow> (nat \<times> ('c, 'x) timerq_scheme) res" where
  "runEvery inLoop a interval cb now now2 q =
     rbind (int64 (now + interval)) (\<lambda>when_t. addTimer inLoop a when_t cb interval now2 q)"

subsection \<open>Invariants\<close>

text \<open>Every entry of the queue is a live timer under its own expiry time.\<close>

definition tq_ok :: "('c, 'x) timerq_scheme \<Rightarrow> bool" where
  "tq_ok q \<longleftrightarrow> sset_ok (tq_timers q) \<and>
     (\<forall>(w, a) \<in> set (tq_timers q). \<exists>t. tq_heap q a = Some t \<and> tm_when t = w)"

text \<open>The expired entries still to be handled: live, out of the queue, each timer once.\<close>

definition batch_ok :: "(int \<times> nat) list \<Rightarrow> ('c, 'x) timerq_scheme \<Rightarrow> bool" where
  "batch_ok es q \<longleftrightarrow> distinct (map snd es) \<and>
     (\<forall>e \<in> set es. tq_heap q (snd e) \<noteq> None \<and> snd e \<notin> snd ` set (tq_timers q))"

text \<open>The descriptor goes off no later than the first timer, or one millisecond after it was set.\<close>

definition armed_ok :: "('c, 'x) timerq_scheme \<Rightarrow> bool" where
  "armed_ok q \<longleftrightarrow> (tq_timers q \<noteq> [] \<longrightarrow>
     (\<exists>now d. tq_armed q = Some (now, d) \<and> one_ms \<le> d \<and>
        now + d \<le> max (fst (hd (tq_timers q))) (now + one_ms)))"

text \<open>Callbacks that keep the queue in order; the only failure allowed is an overflow.\<close>

definition queue_safe :: "('c, 'x) timerq_scheme res \<Rightarrow> (int \<times> nat) list \<Rightarrow> bool" where
  "queue_safe r es \<longleftrightarrow>
     (case r of Inl e \<Rightarrow> e = Overflow | Inr q \<Rightarrow> tq_ok q \<and> batch_ok es q)"

definition keeps_queue :: "('c \<Rightarrow> ('c, 'x) timerq_scheme \<Rightarrow> ('c, 'x) timerq_scheme res) \<Rightarrow> bool" where
  "keeps_queue run \<longleftrightarrow> (\<forall>c q es. tq_ok q \<longrightarrow> batch_ok es q \<longrightarrow> queue_safe (run c q) es)"

lemma tq_okD:
  assumes "tq_ok q" and "(w, a) \<in> set (tq_timers q)"
  obtains t where "tq_heap q a = Some t" and "tm_when t = w"
  using assms by (auto simp: tq_ok_def)

lemma tq_ok_fields [simp]:
  "tq_ok (q\<lparr>tq_armed := x\<rparr>) = tq_ok q" "tq_ok (q\<lparr>tq_ran := y\<rparr>) = tq_ok q"
  "batch_ok es (q\<lparr>tq_armed := x\<rparr>) = batch_ok es q" "batch_ok es (q\<lparr>tq_ran := y\<rparr>) = batch_ok es q"
  by (simp_all add: tq_ok_def batch_ok_def)

lemma timers_distinct: "tq_ok q \<Longrightarrow> distinct (map snd (tq_timers q))"
proof -
  assume ok: "tq_ok q"
  have "inj_on snd (set (tq_timers q))"
    using ok by (intro inj_onI) (auto elim!: tq_okD [OF ok])
  moreover have "distinct (tq_timers q)" using ok by (simp add: tq_ok_def sset_ok_distinct)
  ultimately show ?thesis by (simp add: distinct_map)
qed

lemma sset_below_filter: "sset_ok xs \<Longrightarrow> sset_below x xs = filter (\<lambda>y. y < x) xs"
proof (induction xs)
  case (Cons y ys)
  show ?case
  proof (cases "y < x")
    case False
    with Cons.prems have "\<forall>z \<in> set ys. \<not> z < x" by (meson order.strict_trans sorted_wrt.simps(2))
    with False show ?thesis by (simp add: sset_below_def)
  qed (use Cons in \<open>simp add: sset_below_def\<close>)
qed (simp add: sset_below_def)

lemma entry_below: "(w, a) < (now + 1, 0::nat) \<longleftrightarrow> w \<le> (now::int)"
  by auto

lemma sset_insert_hd: "sset_ok xs \<Longrightarrow> hd (sset_insert x xs) = (if xs = [] \<or> x < hd xs then x else hd xs)"
  by (cases xs) auto

lemma sset_insert_ne [simp]: "sset_insert x xs \<noteq> []"
  by (cases xs) auto

subsection \<open>Setting the descriptor\<close>

lemma to_timespec_value: "fst (to_timespec d) * nano_den + snd (to_timespec d) = d"
  by (simp add: to_timespec_def nano_den_def)

lemma setTimer_cases:
  "setTimer when_t now q =
     (if when_t - now < - (2 ^ 63) \<or> 2 ^ 63 \<le> when_t - now then Inl Overflow
      else Inr (q\<lparr>tq_armed := Some (now, max one_ms (when_t - now))\<rparr>))"
  by (auto simp: setTimer_def int64_def to_timespec_value Let_def max_def)

lemma setTimer_armed:
  assumes "setTimer (fst (hd (tq_timers q))) now q = Inr q'"
  shows "armed_ok q'" and "q' = q\<lparr>tq_armed := tq_armed q'\<rparr>"
proof -
  let ?h = "fst (hd (tq_timers q))"
  have q': "q' = q\<lparr>tq_armed := Some (now, max one_ms (?h - now))\<rparr>"
    using assms by (simp add: setTimer_cases split: if_splits)
  then show "q' = q\<lparr>tq_armed := tq_armed q'\<rparr>" by simp
  have "now + max one_ms (?h - now) \<le> max ?h (now + one_ms)" by simp
  then show "armed_ok q'" unfolding armed_ok_def q' by simp
qed

subsection \<open>Operations of the application\<close>

lemma insert_timer_safe:
  assumes ok: "tq_ok q" and b: "batch_ok es q"
    and t: "tq_heap q a = Some t" "tm_when t = w" and new: "a \<notin> snd ` set (tq_timers q) \<union> snd ` set es"
  shows "queue_safe (insert_timer w a now q) es"
proof -
  let ?q = "q\<lparr>tq_timers := sset_insert (w, a) (tq_timers q)\<rparr>"
  have "tq_ok ?q" using ok t by (auto simp: tq_ok_def sset_insert_ok)
  moreover have "batch_ok es ?q" using b new by (auto simp: batch_ok_def)
  ultimately show ?thesis
    by (auto simp: insert_timer_def queue_safe_def setTimer_cases Let_def)
qed

lemma put_timer_ok:
  assumes "tq_ok q" and "\<And>w. (w, a) \<in> set (tq_timers q) \<Longrightarrow> tm_when t = w"
  shows "tq_ok (put_timer a t q)"
proof -
  have "\<exists>t'. ((tq_heap q)(a \<mapsto> t)) b = Some t' \<and> tm_when t' = w" if "(w, b) \<in> set (tq_timers q)" for w b
    using that assms(2) by (cases "b = a") (auto elim: tq_okD [OF assms(1)])
  moreover have "sset_ok (tq_timers q)" using assms(1) by (simp add: tq_ok_def)
  ultimately show ?thesis unfolding tq_ok_def put_timer_def by fastforce
qed

lemma put_timer_batch: "batch_ok es q \<Longrightarrow> batch_ok es (put_timer a t q)"
  by (simp add: batch_ok_def put_timer_def)

text \<open>A new timer at an unused address.\<close>

lemma addTimer_safe:
  assumes ok: "tq_ok q" and b: "batch_ok es q" and new: "tq_heap q a = None"
  shows "queue_safe (rbind (addTimer True a w cb interval now q) (\<lambda>(a, q'). Inr q')) es"
proof -
  let ?q = "put_timer a (new_timer w cb interval) q"
  have fresh: "a \<notin> snd ` set (tq_timers q)" "a \<notin> snd ` set es"
    using ok b new by (auto simp: batch_ok_def elim: tq_okD)
  have "tq_ok ?q" using ok fresh(1) by (intro put_timer_ok) force+
  moreover have "batch_ok es ?q" using b by (rule put_timer_batch)
  ultimately have "queue_safe (insert_timer w a now ?q) es"
    using fresh by (intro insert_timer_safe) (auto simp: put_timer_def new_timer_def)
  then show ?thesis
    by (auto simp: addTimer_def rbind_assoc Let_def queue_safe_def rbind_def split: sum.splits)
qed

text \<open>Cancelling a live timer that was not cancelled before.\<close>

lemma cancel_safe:
  assumes ok: "tq_ok q" and b: "batch_ok es q" and t: "tq_heap q a = Some t" "\<not> tm_canceled t"
  shows "queue_safe (cancel_in_loop a q) es"
proof (cases "(tm_when t, a) \<in> set (tq_timers q)")
  case True
  let ?t = "t\<lparr>tm_canceled := True\<rparr>"
  let ?q = "q\<lparr>tq_heap := (tq_heap q)(a := None), tq_timers := sset_erase (tm_when t, a) (tq_timers q)\<rparr>"
  have sorted: "sset_ok (tq_timers q)" using ok by (simp add: tq_ok_def)
  have "cancel_in_loop a q = Inr ?q"
    using t True by (simp add: cancel_in_loop_def deref_def cancel_def put_timer_def delete_timer_def)
  moreover have "tq_ok ?q"
    unfolding tq_ok_def
  proof (safe)
    show "sset_ok (tq_timers ?q)" using sorted by (simp add: sset_erase_ok)
  next
    fix w b assume "(w, b) \<in> set (tq_timers ?q)"
    then have e: "(w, b) \<in> set (tq_timers q)" "(w, b) \<noteq> (tm_when t, a)"
      using sorted by auto
    from tq_okD [OF ok e(1)] obtain t' where t': "tq_heap q b = Some t'" "tm_when t' = w" .
    with e(2) t(1) have "b \<noteq> a" by auto
    with t' show "\<exists>t'. tq_heap ?q b = Some t' \<and> tm_when t' = w" by simp
  qed
  moreover have "batch_ok es ?q"
    using b True sorted by (force simp: batch_ok_def)
  ultimately show ?thesis by (simp add: queue_safe_def)
next
  case False
  let ?q = "put_timer a (t\<lparr>tm_canceled := True\<rparr>) q"
  have "cancel_in_loop a q = Inr ?q"
    using t False by (simp add: cancel_in_loop_def deref_def cancel_def put_timer_def)
  moreover have "tq_ok ?q"
    using ok t(1) by (intro put_timer_ok) (auto elim: tq_okD)
  moreover have "batch_ok es ?q" using b by (rule put_timer_batch)
  ultimately show ?thesis by (simp add: queue_safe_def)
qed

subsection \<open>Expiry\<close>

lemma queue_safe_Inr [simp]: "queue_safe (Inr q) es \<longleftrightarrow> tq_ok q \<and> batch_ok es q"
  by (simp add: queue_safe_def)

lemma queue_safe_Inl [simp]: "queue_safe (Inl e) es \<longleftrightarrow> e = Overflow"
  by (simp add: queue_safe_def)

lemma delete_batch:
  assumes "tq_ok q" and "batch_ok ((w, a) # es) q"
  shows "queue_safe (delete_timer a q) es"
proof -
  let ?q = "q\<lparr>tq_heap := (tq_heap q)(a := None)\<rparr>"
  have a: "a \<notin> snd ` set (tq_timers q)" "a \<notin> snd ` set es" "tq_heap q a \<noteq> None"
    using assms(2) by (auto simp: batch_ok_def)
  then have "delete_timer a q = Inr ?q" by (auto simp: delete_timer_def deref_def)
  moreover have "tq_ok ?q" using assms(1) a(1) by (force simp: tq_ok_def)
  moreover have "batch_ok es ?q" using assms(2) a(2) by (auto simp: batch_ok_def)
  ultimately show ?thesis by simp
qed

lemma handle_entry_safe:
  assumes run: "keeps_queue run" and ok: "tq_ok q" and b: "batch_ok (e # es) q"
  shows "queue_safe (handle_entry run e q) es"
proof -
  obtain w a where e: "e = (w, a)" by (cases e)
  from b obtain t where t: "tq_heap q a = Some t" by (auto simp: batch_ok_def e)
  show ?thesis
  proof (cases "tm_canceled t")
    case True
    with t delete_batch [OF ok b [unfolded e]] show ?thesis
      by (simp add: handle_entry_def deref_def e)
  next
    case False
    have "queue_safe (run_timer run (tm_callback t) q) (e # es)"
      using run ok b by (auto simp: run_timer_def keeps_queue_def split: option.split)
    then consider (overflow) "run_timer run (tm_callback t) q = Inl Overflow"
      | (fine) q1 where "run_timer run (tm_callback t) q = Inr q1" "tq_ok q1" "batch_ok (e # es) q1"
      by (auto simp: queue_safe_def split: sum.splits)
    then show ?thesis
    proof cases
      case overflow
      with t False show ?thesis by (simp add: handle_entry_def deref_def e)
    next
      case fine
      from fine(3) obtain t1 where t1: "tq_heap q1 a = Some t1" and out: "a \<notin> snd ` set (tq_timers q1)"
        and later: "a \<notin> snd ` set es" and b1: "batch_ok es q1"
        by (auto simp: batch_ok_def e)
      show ?thesis
      proof (cases "tm_repeat t1")
        case True
        let ?t = "t1\<lparr>tm_when := tm_when t1 + tm_interval t1\<rparr>"
        let ?q = "(put_timer a ?t q1)"
        let ?q' = "?q\<lparr>tq_timers := sset_insert (tm_when ?t, a) (tq_timers ?q)\<rparr>"
        have "tq_ok ?q" using fine(2) out by (intro put_timer_ok) force+
        then have "tq_ok ?q'"
          by (auto simp: tq_ok_def sset_insert_ok put_timer_def)
        moreover have "batch_ok es ?q'"
          using b1 later by (auto simp: batch_ok_def put_timer_def)
        ultimately show ?thesis
          using t False fine t1 True
          by (simp add: handle_entry_def deref_def e restart_def int64_def Let_def)
      next
        case no: False
        with t False fine t1 delete_batch [OF fine(2) fine(3) [unfolded e]] show ?thesis
          by (simp add: handle_entry_def deref_def e)
      qed
    qed
  qed
qed

lemma handle_entries_safe:
  "keeps_queue run \<Longrightarrow> tq_ok q \<Longrightarrow> batch_ok es q \<Longrightarrow> queue_safe (handle_entries run es q) []"
proof (induction es arbitrary: q)
  case (Cons e es)
  from handle_entry_safe [OF Cons.prems(1,2,3)] show ?case
    using Cons.IH Cons.prems(1) by (cases "handle_entry run e q") auto
qed simp

lemma getExpired_ok:
  assumes "tq_ok q" and "getExpired now q = Inr (es, q1)"
  shows "tq_ok q1" and "batch_ok es q1" and "es = filter (\<lambda>e. fst e \<le> now) (tq_timers q)"
    and "tq_timers q1 = filter (\<lambda>e. now < fst e) (tq_timers q)" and "tq_heap q1 = tq_heap q"
    and "tq_ran q1 = tq_ran q" and "tq_armed q1 = tq_armed q"
proof -
  let ?xs = "tq_timers q" and ?en = "(now + 1, 0::nat)"
  have sorted: "sset_ok ?xs" using assms(1) by (simp add: tq_ok_def)
  have es0: "es = sset_below ?en ?xs" and q1: "q1 = q\<lparr>tq_timers := sset_from ?en ?xs\<rparr>"
    using assms(2) by (auto simp: getExpired_def int64_def Let_def split: if_splits)
  have low: "e < ?en \<longleftrightarrow> fst e \<le> now" for e :: "int \<times> nat"
    using entry_below [of "fst e" "snd e" now] by simp
  show es: "es = filter (\<lambda>e. fst e \<le> now) ?xs"
    unfolding es0 sset_below_filter [OF sorted] low ..
  have parts: "es @ tq_timers q1 = ?xs" unfolding es0 q1 by (simp add: sset_split)
  have high: "\<forall>e \<in> set (tq_timers q1). now < fst e"
    using set_sset_from [OF sorted, of ?en] low by (auto simp: q1 simp flip: not_le)
  have "filter (\<lambda>e. now < fst e) ?xs = filter (\<lambda>e. now < fst e) es @ filter (\<lambda>e. now < fst e) (tq_timers q1)"
    by (simp flip: parts)
  also have "filter (\<lambda>e. now < fst e) es = []" by (auto simp: es filter_empty_conv)
  finally show "tq_timers q1 = filter (\<lambda>e. now < fst e) ?xs" using high by simp
  show "tq_ok q1" using assms(1) sset_parts_ok(2) [OF sorted, of ?en] set_sset_from [OF sorted, of ?en]
    by (auto simp: q1 tq_ok_def)
  have "distinct (map snd (es @ tq_timers q1))" using timers_distinct [OF assms(1)] parts by simp
  moreover have "tq_heap q1 (snd e) \<noteq> None" if "e \<in> set es" for e
  proof -
    have "(fst e, snd e) \<in> set ?xs" using that by (simp add: es)
    from tq_okD [OF assms(1) this] show ?thesis by (auto simp: q1)
  qed
  ultimately show "batch_ok es q1" by (auto simp: batch_ok_def)
  show "tq_heap q1 = tq_heap q" "tq_ran q1 = tq_ran q" "tq_armed q1 = tq_armed q"
    by (simp_all add: q1)
qed

subsection \<open>What an expiry does\<close>

text \<open>The callback an entry runs, and the entry it leaves for a repeating timer.\<close>

definition fired :: "('c, 'x) timerq_scheme \<Rightarrow> int \<times> nat \<Rightarrow> 'c list" where
  "fired q e = (case tq_heap q (snd e) of None \<Rightarrow> []
     | Some t \<Rightarrow> if tm_canceled t then [] else (case tm_callback t of None \<Rightarrow> [] | Some c \<Rightarrow> [c]))"

definition renewed :: "('c, 'x) timerq_scheme \<Rightarrow> int \<times> nat \<Rightarrow> (int \<times> nat) set" where
  "renewed q e = (case tq_heap q (snd e) of None \<Rightarrow> {}
     | Some t \<Rightarrow> if \<not> tm_canceled t \<and> tm_repeat t then {(tm_when t + tm_interval t, snd e)} else {})"

text \<open>Callbacks that leave the queue alone, and times far from the ends of \<open>int64_t\<close>.\<close>

definition quiet :: "('c \<Rightarrow> ('c, 'x) timerq_scheme \<Rightarrow> ('c, 'x) timerq_scheme res) \<Rightarrow> bool" where
  "quiet run \<longleftrightarrow> (\<forall>c q. run c q = Inr q)"

definition near :: "int \<Rightarrow> bool" where
  "near i \<longleftrightarrow> 0 \<le> i \<and> i < 2 ^ 62"

definition times_near :: "('c, 'x) timerq_scheme \<Rightarrow> bool" where
  "times_near q \<longleftrightarrow> (\<forall>a t. tq_heap q a = Some t \<longrightarrow> near (tm_when t) \<and> near (tm_interval t))"

lemma quiet_keeps: "quiet run \<Longrightarrow> keeps_queue run"
  by (simp add: quiet_def keeps_queue_def)

lemma run_timer_quiet:
  "quiet run \<Longrightarrow> run_timer run cb q =
     Inr (q\<lparr>tq_ran := tq_ran q @ (case cb of None \<Rightarrow> [] | Some c \<Rightarrow> [c])\<rparr>)"
  by (cases q) (simp add: run_timer_def quiet_def split: option.split)

lemma handle_entry_quiet:
  assumes "quiet run" and "tq_heap q a = Some t" and "near (tm_when t)" and "near (tm_interval t)"
  obtains q' where "handle_entry run (w, a) q = Inr q'" and "tq_ran q' = tq_ran q @ fired q (w, a)"
    and "set (tq_timers q') = set (tq_timers q) \<union> renewed q (w, a)"
    and "\<And>b. b \<noteq> a \<Longrightarrow> tq_heap q' b = tq_heap q b"
proof (cases "\<not> tm_canceled t \<and> tm_repeat t")
  case True
  let ?t = "t\<lparr>tm_when := tm_when t + tm_interval t\<rparr>"
  let ?q = "put_timer a ?t (q\<lparr>tq_ran := tq_ran q @ fired q (w, a)\<rparr>)"
  let ?q' = "?q\<lparr>tq_timers := sset_insert (tm_when ?t, a) (tq_timers q)\<rparr>"
  have "restart t = Inr ?t"
    using assms(3,4) True by (simp add: restart_def int64_def near_def)
  then have "handle_entry run (w, a) q = Inr ?q'"
    using assms(1,2) True
    by (simp add: handle_entry_def deref_def run_timer_quiet fired_def put_timer_def Let_def)
  then show ?thesis
    by (rule that) (use assms(2) True in \<open>auto simp: renewed_def put_timer_def\<close>)
next
  case False
  let ?q' = "q\<lparr>tq_ran := tq_ran q @ fired q (w, a), tq_heap := (tq_heap q)(a := None)\<rparr>"
  have "handle_entry run (w, a) q = Inr ?q'"
    using assms(1,2) False
    by (cases "tm_canceled t"; cases q)
      (simp_all add: handle_entry_def deref_def run_timer_quiet fired_def delete_timer_def Let_def)
  then show ?thesis
    by (rule that) (use assms(2) False in \<open>auto simp: renewed_def\<close>)
qed

lemma fired_cong: "tq_heap q' (snd e) = tq_heap q (snd e) \<Longrightarrow> fired q' e = fired q e"
  by (simp add: fired_def)

lemma renewed_cong: "tq_heap q' (snd e) = tq_heap q (snd e) \<Longrightarrow> renewed q' e = renewed q e"
  by (simp add: renewed_def)

lemma handle_entries_quiet:
  assumes "quiet run" and "distinct (map snd es)"
    and "\<And>e. e \<in> set es \<Longrightarrow> \<exists>t. tq_heap q (snd e) = Some t \<and> near (tm_when t) \<and> near (tm_interval t)"
  shows "\<exists>q'. handle_entries run es q = Inr q' \<and> tq_ran q' = tq_ran q @ concat (map (fired q) es) \<and>
           set (tq_timers q') = set (tq_timers q) \<union> (\<Union>e \<in> set es. renewed q e)"
  using assms(2,3)
proof (induction es arbitrary: q)
  case (Cons e es)
  obtain w a where e: "e = (w, a)" by (cases e)
  from Cons.prems(2) [of e] obtain t where t: "tq_heap q a = Some t" "near (tm_when t)" "near (tm_interval t)"
    by (auto simp: e)
  from handle_entry_quiet [OF assms(1) t, of w] obtain q1 where
    q1: "handle_entry run (w, a) q = Inr q1" "tq_ran q1 = tq_ran q @ fired q (w, a)"
      "set (tq_timers q1) = set (tq_timers q) \<union> renewed q (w, a)"
    and same: "\<And>b. b \<noteq> a \<Longrightarrow> tq_heap q1 b = tq_heap q b" by blast
  have heap: "tq_heap q1 (snd d) = tq_heap q (snd d)" if "d \<in> set es" for d
    using that Cons.prems(1) by (intro same) (auto simp: e)
  have "\<exists>t. tq_heap q1 (snd d) = Some t \<and> near (tm_when t) \<and> near (tm_interval t)" if "d \<in> set es" for d
    using Cons.prems(2) [of d] heap [OF that] that by simp
  with Cons.IH [of q1] Cons.prems(1) obtain q' where
    q': "handle_entries run es q1 = Inr q'" "tq_ran q' = tq_ran q1 @ concat (map (fired q1) es)"
      "set (tq_timers q') = set (tq_timers q1) \<union> (\<Union>e \<in> set es. renewed q1 e)" by auto
  have "concat (map (fired q1) es) = concat (map (fired q) es)"
    using heap by (simp add: fired_def cong: map_cong)
  moreover have "(\<Union>e \<in> set es. renewed q1 e) = (\<Union>e \<in> set es. renewed q e)"
    by (intro SUP_cong renewed_cong heap) simp_all
  ultimately show ?case using q1 q' by (simp add: e Un_assoc)
qed simp

lemma near_entry: "tq_ok q \<Longrightarrow> times_near q \<Longrightarrow> e \<in> set (tq_timers q) \<Longrightarrow> 0 \<le> fst e \<and> fst e < 2 ^ 63"
  by (cases e) (force simp: times_near_def near_def elim: tq_okD)

lemma near_renewed: "times_near q \<Longrightarrow> e \<in> renewed q d \<Longrightarrow> 0 \<le> fst e \<and> fst e < 2 ^ 63"
  by (force simp: renewed_def times_near_def near_def split: option.splits if_splits)

subsection \<open>Properties\<close>

text \<open>C25. Timers fire when they are due, in order, and the descriptor is set for the next one.
  When the timer descriptor expires at time \<open>now\<close>, the callbacks of exactly the timers due
  by then that were not cancelled run, in the order of their times; one-shot and cancelled
  timers are gone, repeating timers are back in the queue one interval later, the timers
  not yet due stay, and the descriptor is armed for the earliest of them, at least one
  millisecond ahead.  The callbacks here leave the queue alone, and times are in the range
  where \<open>int64_t\<close> cannot overflow.\<close>

theorem timers_fire:
  assumes "tq_ok q" and "times_near q" and "near now" and "near now2" and "quiet run"
  shows "\<exists>q'. tq_handleRead run now now2 q = Inr q' \<and> tq_ok q' \<and> armed_ok q' \<and>
     tq_ran q' = tq_ran q @ concat (map (fired q) (filter (\<lambda>e. fst e \<le> now) (tq_timers q))) \<and>
     set (tq_timers q') = {e \<in> set (tq_timers q). now < fst e} \<union>
       (\<Union>e \<in> {e \<in> set (tq_timers q). fst e \<le> now}. renewed q e)"
proof -
  let ?q0 = "q\<lparr>tq_armed := None\<rparr>" and ?due = "filter (\<lambda>e. fst e \<le> now) (tq_timers q)"
  have ok0: "tq_ok ?q0" using assms(1) by simp
  obtain es q1 where ge: "getExpired now ?q0 = Inr (es, q1)"
    using assms(3) by (auto simp: getExpired_def int64_def near_def Let_def)
  note x = getExpired_ok [OF ok0 ge]
  have live: "\<exists>t. tq_heap q1 (snd e) = Some t \<and> near (tm_when t) \<and> near (tm_interval t)"
    if "e \<in> set es" for e
  proof -
    from x(2) that obtain t where "tq_heap q (snd e) = Some t" using x(5) by (auto simp: batch_ok_def)
    with assms(2) x(5) show ?thesis by (auto simp: times_near_def)
  qed
  have "distinct (map snd es)" using x(2) by (simp add: batch_ok_def)
  from handle_entries_quiet [OF assms(5) this live] obtain q2 where
    q2: "handle_entries run es q1 = Inr q2" "tq_ran q2 = tq_ran q1 @ concat (map (fired q1) es)"
      "set (tq_timers q2) = set (tq_timers q1) \<union> (\<Union>e \<in> set es. renewed q1 e)" by blast
  have ok2: "tq_ok q2"
    using handle_entries_safe [OF quiet_keeps [OF assms(5)] x(1,2)] q2(1) by simp
  have same: "fired q1 = fired q" "renewed q1 = renewed q"
    using x(5) by (simp_all add: fired_def renewed_def fun_eq_iff)
  have ran: "tq_ran q2 = tq_ran q @ concat (map (fired q) ?due)"
    and left: "set (tq_timers q2) = {e \<in> set (tq_timers q). now < fst e} \<union>
       (\<Union>e \<in> {e \<in> set (tq_timers q). fst e \<le> now}. renewed q e)"
    using q2 x(3,4,6) same by auto
  show ?thesis
  proof (cases "tq_timers q2 = []")
    case True
    then have "tq_handleRead run now now2 q = Inr q2" using ge q2(1) by (simp add: tq_handleRead_def)
    then show ?thesis using True ok2 ran left by (auto simp: armed_ok_def)
  next
    case False
    let ?h = "fst (hd (tq_timers q2))"
    have "hd (tq_timers q2) \<in> set (tq_timers q2)" using False by simp
    then have "0 \<le> ?h \<and> ?h < 2 ^ 63"
      using near_entry [OF assms(1,2)] near_renewed [OF assms(2)] unfolding left by fastforce
    then obtain q' where q': "setTimer ?h now2 q2 = Inr q'"
      using assms(4) by (auto simp: setTimer_cases near_def)
    note a = setTimer_armed [OF q']
    have "tq_handleRead run now now2 q = Inr q'"
      using ge q2(1) False q' by (simp add: tq_handleRead_def)
    moreover have "tq_ran q' = tq_ran q2" "tq_timers q' = tq_timers q2" "tq_ok q'"
      using a(2) ok2 by (metis timerq.select_convs timerq.surjective timerq.update_convs tq_ok_fields)+
    ultimately show ?thesis using a(1) ran left by auto
  qed
qed

text \<open>Two timers due at 10 and 20, the first repeating every 100.\<close>

definition two_timers :: "string timerq" where
  "two_timers = new_timerq\<lparr>tq_timers := [(10, 1), (20, 2)],
     tq_heap := [1 \<mapsto> new_timer 10 (Some ''a'') 100, 2 \<mapsto> new_timer 20 (Some ''b'') 0]\<rparr>"

theorem timers_fire_witness:
  "\<exists>q'. tq_handleRead (\<lambda>c q. Inr q) 15 16 two_timers = Inr q' \<and> tq_ok q' \<and> armed_ok q' \<and>
     tq_ran q' = [''a''] \<and> set (tq_timers q') = {(20, 2), (110, 1)}"
proof -
  have "tq_ok two_timers" and "times_near two_timers" and "near 15" and "near 16"
    by (auto simp: tq_ok_def times_near_def near_def two_timers_def new_timer_def new_timerq_def)
  then obtain q' where "tq_handleRead (\<lambda>c q. Inr q) 15 16 two_timers = Inr q'" "tq_ok q'" "armed_ok q'"
    and "tq_ran q' = tq_ran two_timers @
       concat (map (fired two_timers) (filter (\<lambda>e. fst e \<le> 15) (tq_timers two_timers)))"
    and "set (tq_timers q') = {e \<in> set (tq_timers two_timers). 15 < fst e} \<union>
       (\<Union>e \<in> {e \<in> set (tq_timers two_timers). fst e \<le> 15}. renewed two_timers e)"
    using timers_fire [of two_timers 15 16 "\<lambda>c q. Inr q"] by (auto simp: quiet_def)
  moreover have "{e \<in> set (tq_timers two_timers). 15 < fst e} = {(20, 2)}"
    and "{e \<in> set (tq_timers two_timers). fst e \<le> 15} = {(10, 1)}"
    by (auto simp: two_timers_def)
  ultimately show ?thesis
    by (auto simp: two_timers_def fired_def renewed_def new_timer_def new_timerq_def)
qed

text \<open>What the loop thread can do to a queue: add a timer at an unused address, cancel a
  timer that is alive and not cancelled, and handle an expiry.\<close>

inductive tq_reach :: "('c \<Rightarrow> 'c timerq \<Rightarrow> 'c timerq res) \<Rightarrow> 'c timerq \<Rightarrow> bool" for run where
  new_queue: "tq_reach run new_timerq"
| added: "tq_reach run q \<Longrightarrow> tq_heap q a = None \<Longrightarrow>
    addTimer True a w cb interval now q = Inr (a, q') \<Longrightarrow> tq_reach run q'"
| cancelled: "tq_reach run q \<Longrightarrow> tq_heap q a = Some t \<Longrightarrow> \<not> tm_canceled t \<Longrightarrow>
    cancelTimer True a q = Inr q' \<Longrightarrow> tq_reach run q'"
| expired: "tq_reach run q \<Longrightarrow> tq_handleRead run now now2 q = Inr q' \<Longrightarrow> tq_reach run q'"

lemma armed_later:
  assumes "armed_ok q" and "tq_timers q \<noteq> []" and "tq_armed q' = tq_armed q"
    and "tq_timers q' \<noteq> [] \<Longrightarrow> fst (hd (tq_timers q)) \<le> fst (hd (tq_timers q'))"
  shows "armed_ok q'"
  using assms by (fastforce simp: armed_ok_def)

lemma addTimer_armed:
  assumes ok: "tq_ok q" and armed: "armed_ok q"
    and add: "addTimer True a w cb interval now q = Inr (a', q')"
  shows "armed_ok q'"
proof -
  let ?q1 = "put_timer a (new_timer w cb interval) q"
  let ?q = "?q1\<lparr>tq_timers := sset_insert (w, a) (tq_timers q)\<rparr>"
  have sorted: "sset_ok (tq_timers q)" using ok by (simp add: tq_ok_def)
  have q': "(if hd (tq_timers ?q) = (w, a) then setTimer w now ?q else Inr ?q) = Inr q'"
    using add by (auto simp: addTimer_def insert_timer_def Let_def res_simps put_timer_def split: if_splits)
  show ?thesis
  proof (cases "hd (tq_timers ?q) = (w, a)")
    case True
    then have "setTimer (fst (hd (tq_timers ?q))) now ?q = Inr q'" using q' by simp
    then show ?thesis by (rule setTimer_armed(1))
  next
    case False
    then have "q' = ?q" using q' by simp
    moreover have "tq_timers q \<noteq> []" "hd (sset_insert (w, a) (tq_timers q)) = hd (tq_timers q)"
      using False sset_insert_hd [OF sorted, of "(w, a)"] by (auto split: if_splits)
    ultimately show ?thesis
      by (intro armed_later [OF armed]) (simp_all add: put_timer_def)
  qed
qed

lemma cancel_armed:
  assumes ok: "tq_ok q" and armed: "armed_ok q" and can: "cancel_in_loop a q = Inr q'"
  shows "armed_ok q'"
proof -
  obtain t where t: "tq_heap q a = Some t"
    using can by (auto simp: cancel_in_loop_def deref_def res_simps split: option.splits)
  have armed': "tq_armed q' = tq_armed q"
    and timers: "tq_timers q' \<in> {tq_timers q, sset_erase (tm_when t, a) (tq_timers q)}"
    using can t by (auto simp: cancel_in_loop_def deref_def cancel_def delete_timer_def put_timer_def
        res_simps Let_def split: if_splits)
  have sorted: "sset_ok (tq_timers q)" using ok by (simp add: tq_ok_def)
  show ?thesis
  proof (cases "tq_timers q' = []")
    case False
    then have "hd (tq_timers q') \<in> set (tq_timers q)"
      using timers set_sset_erase_sub [of "(tm_when t, a)" "tq_timers q"] hd_in_set by fastforce
    with sset_hd_least [OF sorted] have "hd (tq_timers q) \<le> hd (tq_timers q')" and "tq_timers q \<noteq> []"
      by auto
    then show ?thesis
      by (intro armed_later [OF armed _ armed']) (auto simp: less_eq_prod_def)
  qed (simp add: armed_ok_def)
qed

lemma handleRead_safe:
  assumes "keeps_queue run" and "tq_ok q"
  shows "case tq_handleRead run now now2 q of
           Inl e \<Rightarrow> e = Overflow | Inr q' \<Rightarrow> tq_ok q' \<and> armed_ok q'"
proof (cases "getExpired now (q\<lparr>tq_armed := None\<rparr>)")
  case (Inl e)
  then show ?thesis
    by (auto simp: tq_handleRead_def getExpired_def int64_def res_simps Let_def split: if_splits)
next
  case (Inr x)
  obtain es q1 where ge: "getExpired now (q\<lparr>tq_armed := None\<rparr>) = Inr (es, q1)"
    using Inr by (cases x) auto
  have "tq_ok (q\<lparr>tq_armed := None\<rparr>)" using assms(2) by simp
  note x = getExpired_ok [OF this ge]
  have safe: "queue_safe (handle_entries run es q1) []"
    by (rule handle_entries_safe [OF assms(1) x(1,2)])
  show ?thesis
  proof (cases "handle_entries run es q1")
    case (Inl e)
    with safe ge show ?thesis by (simp add: tq_handleRead_def)
  next
    case (Inr q2)
    with safe have ok2: "tq_ok q2" by simp
    show ?thesis
    proof (cases "tq_timers q2 = []")
      case True
      with ge Inr ok2 show ?thesis by (simp add: tq_handleRead_def armed_ok_def)
    next
      case False
      then have run: "tq_handleRead run now now2 q = setTimer (fst (hd (tq_timers q2))) now2 q2"
        using ge Inr by (simp add: tq_handleRead_def)
      show ?thesis
        unfolding run using ok2 setTimer_armed(1) [of q2 now2]
        by (auto simp: setTimer_cases split: sum.split)
    qed
  qed
qed

lemma tq_reach_inv: "tq_reach run q \<Longrightarrow> keeps_queue run \<Longrightarrow> tq_ok q \<and> armed_ok q"
proof (induction rule: tq_reach.induct)
  case new_queue
  show ?case by (simp add: tq_ok_def armed_ok_def new_timerq_def)
next
  case (added q a w cb interval now q')
  have "batch_ok [] q" by (simp add: batch_ok_def)
  with addTimer_safe [of q "[]" a w cb interval now] addTimer_armed [of q a w cb interval now a q'] added
  show ?case by simp
next
  case (cancelled q a t q')
  have "batch_ok [] q" by (simp add: batch_ok_def)
  with cancel_safe [of q "[]" a t] cancel_armed [of q a q'] cancelled show ?case
    by (simp add: cancelTimer_def)
next
  case (expired q now now2 q')
  with handleRead_safe [of run q now now2] show ?case by simp
qed

text \<open>C26. Timers are never used after they are freed, as long as only live timers are
  cancelled: in every state the loop thread can bring the queue to, each queued entry is a
  live timer under its own time, the descriptor is armed no later than the earliest of
  them (or one millisecond after it was set), and neither an expiry nor the cancellation
  of a live timer can fail other than by a signed overflow, whatever timers the callbacks
  add or cancel in between.\<close>

theorem timer_safety:
  assumes "tq_reach run q" and "keeps_queue run"
  shows "tq_ok q \<and> armed_ok q \<and>
     (case tq_handleRead run now now2 q of Inl e \<Rightarrow> e = Overflow | Inr q' \<Rightarrow> tq_ok q' \<and> armed_ok q') \<and>
     (\<forall>a t. tq_heap q a = Some t \<and> \<not> tm_canceled t \<longrightarrow>
        (\<exists>q'. cancelTimer True a q = Inr q' \<and> tq_ok q' \<and> armed_ok q'))"
proof -
  have ok: "tq_ok q" and armed: "armed_ok q" using tq_reach_inv [OF assms] by auto
  have "\<exists>q'. cancelTimer True a q = Inr q' \<and> tq_ok q' \<and> armed_ok q'"
    if "tq_heap q a = Some t" "\<not> tm_canceled t" for a t
  proof -
    have "\<exists>q'. cancel_in_loop a q = Inr q'"
      using that by (simp add: cancel_in_loop_def deref_def cancel_def delete_timer_def put_timer_def Let_def)
    then show ?thesis
      using cancel_safe [OF ok, of "[]" a t] cancel_armed [OF ok armed, of a] that
      by (auto simp: cancelTimer_def batch_ok_def)
  qed
  with ok armed handleRead_safe [OF assms(2) ok] show ?thesis by blast
qed

text \<open>A callback that cancels the timer at address 1 when it is alive.\<close>

definition cancel_first :: "string \<Rightarrow> string timerq \<Rightarrow> string timerq res" where
  "cancel_first c q =
     (case tq_heap q 1 of None \<Rightarrow> Inr q | Some t \<Rightarrow> if tm_canceled t then Inr q else cancel_in_loop 1 q)"

lemma cancel_first_keeps: "keeps_queue cancel_first"
  unfolding keeps_queue_def cancel_first_def by (auto simp: cancel_safe split: option.split)

theorem timer_safety_witness:
  "\<exists>q. addTimer True 1 10 (Some ''a'') 100 5 new_timerq = Inr (1, q) \<and> tq_ok q \<and> armed_ok q \<and>
     (case tq_handleRead cancel_first 15 16 q of
        Inl e \<Rightarrow> e = Overflow | Inr q' \<Rightarrow> tq_ok q' \<and> armed_ok q') \<and>
     (\<exists>q'. cancelTimer True 1 q = Inr q' \<and> tq_ok q' \<and> armed_ok q')"
proof -
  have "\<exists>q. addTimer True 1 10 (Some ''a'') 100 5 new_timerq = Inr (1, q) \<and>
      tq_heap q 1 = Some (new_timer 10 (Some ''a'') 100)"
    by (simp add: addTimer_def insert_timer_def put_timer_def new_timerq_def setTimer_cases)
  then obtain q where q: "addTimer True 1 10 (Some ''a'') 100 5 new_timerq = Inr (1, q)"
    and heap: "tq_heap q 1 = Some (new_timer 10 (Some ''a'') 100)" by blast
  have "tq_reach cancel_first q"
    by (rule added [OF new_queue _ q]) (simp add: new_timerq_def)
  from timer_safety [OF this cancel_first_keeps, of 15 16] q heap show ?thesis
    by (auto simp: new_timer_def)
qed

text \<open>The value \<open>setTimer\<close> hands to \<open>timerfd_settime\<close> is always valid and never disarms the
  descriptor: whatever the clock says, the seconds are not negative, the nanoseconds are
  below \<open>10 ^ 9\<close>, together they are at least one millisecond, and they reach the timer's
  time exactly when it is further away than that.\<close>

lemma setTimer_valid:
  assumes "setTimer when_t now q = Inr q'"
  shows "\<exists>sec nsec. to_timespec (max one_ms (when_t - now)) = (sec, nsec) \<and>
           tq_armed q' = Some (now, sec * nano_den + nsec) \<and>
           0 \<le> sec \<and> 0 \<le> nsec \<and> nsec < nano_den \<and> one_ms \<le> sec * nano_den + nsec \<and>
           (one_ms \<le> when_t - now \<longrightarrow> now + (sec * nano_den + nsec) = when_t)"
proof -
  let ?d = "max one_ms (when_t - now)"
  have "tq_armed q' = Some (now, ?d)"
    using assms by (auto simp: setTimer_cases split: if_splits)
  moreover have "0 \<le> ?d" by (simp add: one_ms_def max_def)
  moreover have "?d div nano_den * nano_den + ?d mod nano_den = ?d" by (rule div_mult_mod_eq)
  ultimately show ?thesis
    by (simp add: to_timespec_def nano_den_def pos_imp_zdiv_nonneg_iff max_def)
qed

text \<open>A timer that has fired once is freed, and cancelling it afterwards uses freed memory:
  a \<open>TimerId\<close> kept beyond the expiry of a one-shot timer is a dangling pointer.\<close>

lemma stale_cancel:
  "\<exists>q'. tq_handleRead (\<lambda>c q. Inr q) 25 26 two_timers = Inr q' \<and>
        tq_ran q' = [''a'', ''b''] \<and> cancelTimer True 2 q' = Inl UseAfterFree"
  by (simp add: tq_handleRead_def getExpired_def int64_def two_timers_def new_timerq_def
      sset_below_def sset_from_def handle_entry_def deref_def run_timer_def new_timer_def restart_def
      put_timer_def delete_timer_def cancelTimer_def cancel_in_loop_def setTimer_cases Let_def)

end
