(* ===== verification/TimerHeap.thy ===== *)
theory TimerHeap
  imports TimerQueue
begin

text \<open>
  The memory of a \<open>TimerQueue\<close>: every timer that is alive is in the queue or among the expired
  entries being handled, so that the destructor of the queue frees all of them, each once.
\<close>

subsection \<open>The destructor\<close>

fun delete_entries :: "(int \<times> nat) list \<Rightarrow> ('c, 'x) timerq_scheme \<Rightarrow> ('c, 'x) timerq_scheme res" where
  "delete_entries [] q = Inr q"
| "delete_entries (e # es) q = rbind (delete_timer (snd e) q) (delete_entries es)"

definition destroy_timerq :: "('c, 'x) timerq_scheme \<Rightarrow> ('c, 'x) timerq_scheme res" where
  "destroy_timerq q = delete_entries (tq_timers q) q"

subsection \<open>No timer is lost\<close>

definition no_leak :: "(int \<times> nat) list \<Rightarrow> ('c, 'x) timerq_scheme \<Rightarrow> bool" where
  "no_leak es q \<longleftrightarrow> dom (tq_heap q) = snd ` set (tq_timers q) \<union> snd ` set es"

definition heap_ok :: "(int \<times> nat) list \<Rightarrow> ('c, 'x) timerq_scheme \<Rightarrow> bool" where
  "heap_ok es q \<longleftrightarrow> tq_ok q \<and> batch_ok es q \<and> no_leak es q"

definition keeps_heap :: "('c \<Rightarrow> ('c, 'x) timerq_scheme \<Rightarrow> ('c, 'x) timerq_scheme res) \<Rightarrow> bool" where
  "keeps_heap run \<longleftrightarrow> (\<forall>c q es q'. heap_ok es q \<longrightarrow> run c q = Inr q' \<longrightarrow> heap_ok es q')"

lemma heap_okD:
  assumes "heap_ok es q"
  shows "tq_ok q" and "batch_ok es q" and "dom (tq_heap q) = snd ` set (tq_timers q) \<union> snd ` set es"
  using assms by (simp_all add: heap_ok_def no_leak_def)

lemma heap_ok_fields [simp]:
  "heap_ok es (q\<lparr>tq_armed := x\<rparr>) = heap_ok es q" "heap_ok es (q\<lparr>tq_ran := y\<rparr>) = heap_ok es q"
  by (simp_all add: heap_ok_def no_leak_def)

lemma setTimer_heap: "setTimer w now q = Inr q' \<Longrightarrow> heap_ok es q \<Longrightarrow> heap_ok es q'"
  by (auto simp: setTimer_cases split: if_splits)

text \<open>Adding and cancelling, at any time between the entries of an expiry.\<close>

lemma addTimer_heap:
  assumes ok: "heap_ok es q" and new: "tq_heap q a = None"
    and run: "addTimer True a w cb interval now q = Inr (a', q')"
  shows "heap_ok es q'"
proof -
  note h = heap_okD [OF ok]
  have safe: "tq_ok q' \<and> batch_ok es q'"
    using addTimer_safe [OF h(1,2) new, of w cb interval now] run by simp
  have "tq_timers q' = sset_insert (w, a) (tq_timers q) \<and> tq_heap q' = (tq_heap q)(a \<mapsto> new_timer w cb interval)"
    using run by (auto simp: addTimer_def insert_timer_def put_timer_def setTimer_cases Let_def res_simps
        split: if_splits)
  with h(3) safe show ?thesis by (auto simp: heap_ok_def no_leak_def)
qed

lemma cancel_heap:
  assumes ok: "heap_ok es q" and run: "cancel_in_loop a q = Inr q'"
  shows "heap_ok es q'"
proof -
  note h = heap_okD [OF ok]
  from run obtain t where t: "tq_heap q a = Some t" "\<not> tm_canceled t"
    by (auto simp: cancel_in_loop_def deref_def cancel_def res_simps split: option.splits)
  have safe: "tq_ok q' \<and> batch_ok es q'" using cancel_safe [OF h(1,2) t] run by simp
  show ?thesis
  proof (cases "(tm_when t, a) \<in> set (tq_timers q)")
    case True
    with run t have q': "q' = q\<lparr>tq_timers := sset_erase (tm_when t, a) (tq_timers q),
        tq_heap := (tq_heap q)(a := None)\<rparr>"
      by (auto simp: cancel_in_loop_def deref_def cancel_def put_timer_def delete_timer_def)
    have out: "a \<notin> snd ` set es" using True h(2) by (force simp: batch_ok_def)
    have only: "snd e \<noteq> a \<or> e = (tm_when t, a)" if "e \<in> set (tq_timers q)" for e
    proof -
      from that have "(fst e, snd e) \<in> set (tq_timers q)" by simp
      from tq_okD [OF h(1) this] obtain t' where "tq_heap q (snd e) = Some t'" "tm_when t' = fst e" .
      with t(1) show ?thesis by (cases e) auto
    qed
    have "set (sset_erase (tm_when t, a) (tq_timers q)) = set (tq_timers q) - {(tm_when t, a)}"
      using h(1) by (simp add: tq_ok_def)
    then have timers: "set (tq_timers q') = set (tq_timers q) - {(tm_when t, a)}" by (simp add: q')
    have "snd ` set (tq_timers q') = snd ` set (tq_timers q) - {a}"
    proof (intro equalityI subsetI)
      fix b assume "b \<in> snd ` set (tq_timers q')"
      then obtain e where "e \<in> set (tq_timers q)" "e \<noteq> (tm_when t, a)" "b = snd e" using timers by blast
      with only show "b \<in> snd ` set (tq_timers q) - {a}" by blast
    next
      fix b assume "b \<in> snd ` set (tq_timers q) - {a}"
      then obtain e where "e \<in> set (tq_timers q)" "b = snd e" "b \<noteq> a" by blast
      with timers show "b \<in> snd ` set (tq_timers q')" by (metis DiffI imageI singletonD snd_conv)
    qed
    with h(3) out safe show ?thesis by (auto simp: heap_ok_def no_leak_def q')
  next
    case False
    with run t have "q' = put_timer a (t\<lparr>tm_canceled := True\<rparr>) q"
      by (simp add: cancel_in_loop_def deref_def cancel_def put_timer_def)
    with h(3) t(1) safe show ?thesis by (auto simp: heap_ok_def no_leak_def put_timer_def)
  qed
qed

subsection \<open>An expiry\<close>

lemma delete_heap:
  assumes "heap_ok ((w, a) # es) q" and "delete_timer a q = Inr q'"
  shows "heap_ok es q'"
proof -
  note h = heap_okD [OF assms(1)]
  have "tq_ok q' \<and> batch_ok es q'" using delete_batch [OF h(1,2)] assms(2) by simp
  moreover have "q' = q\<lparr>tq_heap := (tq_heap q)(a := None)\<rparr>"
    using assms(2) by (auto simp: delete_timer_def res_simps)
  moreover have "a \<notin> snd ` set (tq_timers q)" "a \<notin> snd ` set es"
    using h(2) by (auto simp: batch_ok_def)
  ultimately show ?thesis using h(3) by (auto simp: heap_ok_def no_leak_def)
qed

lemma keeps_heap_timer:
  assumes "keeps_heap run" and "heap_ok es q" and "run_timer run cb q = Inr q'"
  shows "heap_ok es q'"
proof (cases cb)
  case None
  with assms(2,3) show ?thesis by (simp add: run_timer_def)
next
  case (Some c)
  with assms(3) have "run c (q\<lparr>tq_ran := tq_ran q @ [c]\<rparr>) = Inr q'" by (simp add: run_timer_def)
  moreover have "heap_ok es (q\<lparr>tq_ran := tq_ran q @ [c]\<rparr>)" using assms(2) by simp
  ultimately show ?thesis using assms(1) unfolding keeps_heap_def by blast
qed

lemma handle_entry_heap:
  assumes run: "keeps_heap run" and ok: "heap_ok (e # es) q" and h: "handle_entry run e q = Inr q'"
  shows "heap_ok es q'"
proof -
  obtain w a where e: "e = (w, a)" by (cases e)
  from h obtain t where t: "deref a q = Inr t" by (auto simp: handle_entry_def e res_simps)
  show ?thesis
  proof (cases "tm_canceled t")
    case True
    with h t have "delete_timer a q = Inr q'" by (simp add: handle_entry_def e)
    with ok delete_heap e show ?thesis by blast
  next
    case False
    with h t obtain q1 t1 where q1: "run_timer run (tm_callback t) q = Inr q1" and t1: "deref a q1 = Inr t1"
      by (auto simp: handle_entry_def e res_simps)
    have ok1: "heap_ok ((w, a) # es) q1" using keeps_heap_timer [OF run ok q1] e by simp
    note h1 = heap_okD [OF ok1]
    show ?thesis
    proof (cases "tm_repeat t1")
      case no: False
      with h t False q1 t1 have "delete_timer a q1 = Inr q'" by (simp add: handle_entry_def e)
      with ok1 delete_heap show ?thesis by blast
    next
      case True
      with h t False q1 t1 obtain t2 where t2: "restart t1 = Inr t2"
        and q': "q' = (put_timer a t2 q1)\<lparr>tq_timers := sset_insert (tm_when t2, a) (tq_timers q1)\<rparr>"
        by (auto simp: handle_entry_def e res_simps Let_def put_timer_def)
      have a: "a \<notin> snd ` set (tq_timers q1)" "a \<notin> snd ` set es" using h1(2) by (auto simp: batch_ok_def)
      have "tq_ok (put_timer a t2 q1)" using h1(1) a(1) by (intro put_timer_ok) force+
      then have "tq_ok q'" by (auto simp: q' tq_ok_def sset_insert_ok put_timer_def)
      moreover have "batch_ok es q'" using h1(2) a by (auto simp: batch_ok_def put_timer_def q')
      moreover have "no_leak es q'" using h1(3) by (auto simp: no_leak_def q' put_timer_def)
      ultimately show ?thesis by (simp add: heap_ok_def)
    qed
  qed
qed

lemma handle_entries_heap:
  "keeps_heap run \<Longrightarrow> heap_ok es q \<Longrightarrow> handle_entries run es q = Inr q' \<Longrightarrow> heap_ok [] q'"
proof (induction es arbitrary: q)
  case (Cons e es)
  from Cons.prems(3) obtain q1 where "handle_entry run e q = Inr q1" "handle_entries run es q1 = Inr q'"
    by (auto simp: res_simps)
  with Cons.IH [OF Cons.prems(1)] handle_entry_heap [OF Cons.prems(1,2)] show ?case by blast
qed simp

lemma handleRead_heap:
  assumes "keeps_heap run" and "heap_ok [] q" and "tq_handleRead run now now2 q = Inr q'"
  shows "heap_ok [] q'"
proof -
  let ?q = "q\<lparr>tq_armed := None\<rparr>"
  from assms(3) obtain es q1 q2 where ge: "getExpired now ?q = Inr (es, q1)"
    and q2: "handle_entries run es q1 = Inr q2"
    and q': "q' = q2 \<or> setTimer (fst (hd (tq_timers q2))) now2 q2 = Inr q'"
    by (auto simp: tq_handleRead_def res_simps split: if_splits)
  have "tq_ok ?q" using assms(2) by (simp add: heap_ok_def)
  note x = getExpired_ok [OF this ge]
  have "set es \<union> set (tq_timers q1) = set (tq_timers q)" using x(3,4) by auto
  then have "no_leak es q1"
    using heap_okD(3) [OF assms(2)] x(5) by (auto simp: no_leak_def)
  with x(1,2) have "heap_ok es q1" by (simp add: heap_ok_def)
  from handle_entries_heap [OF assms(1) this q2] q' setTimer_heap show ?thesis by blast
qed

lemma tq_reach_heap: "tq_reach run q \<Longrightarrow> keeps_heap run \<Longrightarrow> heap_ok [] q"
proof (induction rule: tq_reach.induct)
  case new_queue
  show ?case by (simp add: heap_ok_def no_leak_def tq_ok_def batch_ok_def new_timerq_def)
next
  case (added q a w cb interval now q')
  then show ?case using addTimer_heap by blast
next
  case (cancelled q a t q')
  then show ?case using cancel_heap by (simp add: cancelTimer_def)
next
  case (expired q now now2 q')
  then show ?case using handleRead_heap by blast
qed

lemma delete_entries_all:
  "distinct (map snd es) \<Longrightarrow> snd ` set es \<subseteq> dom (tq_heap q) \<Longrightarrow>
   delete_entries es q = Inr (q\<lparr>tq_heap := tq_heap q |` (- snd ` set es)\<rparr>)"
proof (induction es arbitrary: q)
  case Nil
  then show ?case by (simp add: restrict_map_def)
next
  case (Cons e es)
  let ?q = "q\<lparr>tq_heap := (tq_heap q)(snd e := None)\<rparr>"
  have "delete_timer (snd e) q = Inr ?q"
    using Cons.prems(2) by (auto simp: delete_timer_def deref_def)
  moreover have "snd ` set es \<subseteq> dom (tq_heap ?q)" using Cons.prems by (auto simp: image_iff)
  moreover have "(tq_heap ?q) |` (- snd ` set es) = tq_heap q |` (- snd ` set (e # es))"
    by (auto simp: restrict_map_def fun_eq_iff)
  moreover from Cons.prems(1) have "distinct (map snd es)" by simp
  note Cons.IH [OF this, of ?q]
  ultimately show ?case by (simp del: fun_upd_apply)
qed

subsection \<open>Properties\<close>

text \<open>C21. Timers are freed exactly once and none is lost.  In every state the loop thread can bring a
  queue to, whatever timers the callbacks add and cancel, the timers that are alive are exactly those in
  the queue, and the destructor deletes every one of them, each once, leaving none.\<close>

theorem timers_freed:
  assumes "tq_reach run q" and "keeps_heap run"
  shows "dom (tq_heap q) = snd ` set (tq_timers q) \<and>
     (\<exists>q'. destroy_timerq q = Inr q' \<and> tq_heap q' = Map.empty)"
proof -
  from tq_reach_heap [OF assms] have ok: "tq_ok q" and all: "dom (tq_heap q) = snd ` set (tq_timers q)"
    by (simp_all add: heap_ok_def no_leak_def)
  have "tq_heap q |` (- dom (tq_heap q)) = Map.empty" by (auto simp: restrict_map_def fun_eq_iff)
  with delete_entries_all [OF timers_distinct [OF ok], of q] all show ?thesis
    by (simp add: destroy_timerq_def)
qed

text \<open>A timer that cancels itself while it runs: it is freed at its next expiry.\<close>

lemma cancel_first_heap: "keeps_heap cancel_first"
  unfolding keeps_heap_def cancel_first_def
  by (auto intro: cancel_heap split: option.splits if_splits)

theorem timers_freed_witness:
  "\<exists>q q1. addTimer True 1 10 (Some ''a'') 100 5 new_timerq = Inr (1, q) \<and>
     tq_handleRead cancel_first 15 16 q = Inr q1 \<and> dom (tq_heap q1) = {1} \<and>
     (\<exists>q'. destroy_timerq q1 = Inr q' \<and> tq_heap q' = Map.empty)"
proof -
  let ?q = "new_timerq\<lparr>tq_timers := [(10, 1)], tq_heap := [1 \<mapsto> new_timer 10 (Some ''a'') 100],
     tq_armed := Some (5, 1000000)\<rparr>"
  have add: "addTimer True 1 10 (Some ''a'') 100 5 new_timerq = Inr (1, ?q)"
    by (simp add: addTimer_def insert_timer_def put_timer_def new_timerq_def setTimer_cases one_ms_def)
  have r: "tq_reach cancel_first ?q"
    by (rule added [OF new_queue _ add]) (simp add: new_timerq_def)
  have "\<exists>q1. tq_handleRead cancel_first 15 16 ?q = Inr q1 \<and> snd ` set (tq_timers q1) = {1}"
    by (simp add: tq_handleRead_def getExpired_def int64_def new_timerq_def sset_below_def sset_from_def
        handle_entry_def deref_def run_timer_def new_timer_def restart_def put_timer_def cancel_first_def
        cancel_in_loop_def cancel_def setTimer_cases Let_def)
  then obtain q1 where q1: "tq_handleRead cancel_first 15 16 ?q = Inr q1" "snd ` set (tq_timers q1) = {1}"
    by blast
  from timers_freed [OF expired [OF r q1(1)] cancel_first_heap] add q1 show ?thesis by metis
qed

end
