(* ===== verification/TimerTests.thy ===== *)
theory TimerTests
  imports TimerHeap EventLoop
begin

text \<open>
  The event loop with a timer queue, as the programs of \<open>testcase/testTimerQueue.cpp\<close> use them: the loop of
  \<open>EventLoop\<close> is woken up by the timer descriptor and handles it with \<open>TimerQueue::handleRead\<close>.  How late
  \<open>epoll_wait\<close> returns and how much time passes between two readings of the clock is arbitrary.
\<close>

subsection \<open>The programs\<close>

text \<open>
  The variable \<open>time\<close> of a test, and whether its callback has called \<open>loop.quit()\<close>.  The callbacks: of
  \<open>TimerOnce\<close> and its two variants; of \<open>TimerRepeat\<close>, which quits at the count \<open>n\<close>; of \<open>TimerCancel\<close>, which
  cancels the timer \<open>a\<close> at the count \<open>n\<close>.
\<close>

datatype test_callback = Once | QuitAt int | CancelAt int nat

record test_queue = "test_callback timerq" +
  tt_time :: int
  tt_quit :: bool

definition run_callback :: "test_callback \<Rightarrow> test_queue \<Rightarrow> test_queue res" where
  "run_callback cb q =
     (case cb of
        Once \<Rightarrow> Inr (q\<lparr>tt_time := 1, tt_quit := True\<rparr>)
      | QuitAt n \<Rightarrow>
          let q1 = q\<lparr>tt_time := tt_time q + 1\<rparr> in
          Inr (if n = tt_time q1 then q1\<lparr>tt_quit := True\<rparr> else q1)
      | CancelAt n a \<Rightarrow>
          let q1 = q\<lparr>tt_time := tt_time q + 1\<rparr> in
          if n = tt_time q1 then cancelTimer True a q1 else Inr q1)"

text \<open>
  The clock of the loop thread, the time at which the other thread of \<open>TimerCancel\<close> calls \<open>quit\<close> (if there is
  one), and for each wait how late it returns and how much time passes until \<open>handleRead\<close> reads the clock
  for the second time.
\<close>

record timer_loop = "(tq_task, nat) evloop" +
  tl_queue :: test_queue
  tl_now :: int
  tl_break :: "int option"
  tl_waits :: "(nat \<times> nat) list"

datatype ready = TimerFd int int | WakeFd

fun earliest :: "int option \<Rightarrow> int option \<Rightarrow> int option" where
  "earliest None b = b"
| "earliest a None = a"
| "earliest (Some a) (Some b) = Some (min a b)"

definition passed :: "int option \<Rightarrow> int \<Rightarrow> bool" where
  "passed a t \<longleftrightarrow> (case a of None \<Rightarrow> False | Some b \<Rightarrow> b \<le> t)"

definition timer_due :: "timer_loop \<Rightarrow> int option" where
  "timer_due l = map_option (\<lambda>(set_at, duration). set_at + duration) (tq_armed (tl_queue l))"

text \<open>
  A wait ends when the timer expires or the other thread wakes the loop; a \<open>quit\<close> that comes before the end
  of the round is seen by the next test of \<open>quit_\<close>.
\<close>

definition tl_poll :: "timer_loop \<Rightarrow> timer_loop \<times> ready list" where
  "tl_poll l =
     (case tl_waits l of
        [] \<Rightarrow> (l, [])
      | (d1, d2) # ws \<Rightarrow>
          (case earliest (timer_due l) (tl_break l) of
             None \<Rightarrow> (l\<lparr>tl_waits := ws\<rparr>, [])
           | Some due \<Rightarrow>
               let t = max (tl_now l) due + int d1; t2 = t + int d2;
                   l1 = (if passed (tl_break l) t2 then (quit counter_write (el_tid l + 1) l)\<lparr>tl_break := None\<rparr> else l) in
               (l1\<lparr>tl_now := t2, tl_waits := ws\<rparr>,
                (if passed (timer_due l) t then [TimerFd t t2] else []) @
                (if passed (tl_break l) t then [WakeFd] else []))))"

definition tl_handle :: "ready \<Rightarrow> timer_loop \<Rightarrow> timer_loop res" where
  "tl_handle r l =
     (case r of
        WakeFd \<Rightarrow> Inr (el_handleRead counter_read l)
      | TimerFd t t2 \<Rightarrow>
          rbind (tq_handleRead run_callback t t2 (tl_queue l)) (\<lambda>q.
          let l1 = l\<lparr>tl_queue := q\<rparr> in
          Inr (if tt_quit q then quit counter_write (el_tid l1) l1 else l1)))"

definition tl_exec :: "tq_task \<Rightarrow> timer_loop \<Rightarrow> timer_loop res" where
  "tl_exec task l = rbind (tq_run_tasks [task] (tl_queue l)) (\<lambda>q. Inr (l\<lparr>tl_queue := q\<rparr>))"

definition second :: int where
  "second = 1000000000"

definition new_test_queue :: test_queue where
  "new_test_queue = timerq.extend new_timerq \<lparr>tt_time = 0, tt_quit = False\<rparr>"

definition new_timer_loop :: "test_queue \<Rightarrow> int \<Rightarrow> int option \<Rightarrow> (nat \<times> nat) list \<Rightarrow> timer_loop" where
  "new_timer_loop q now brk ws =
     \<lparr> el_tid = 1, el_quit = False, el_tasks = [], el_runningTasks = False, el_looping = False,
       el_wakeupfd = 0, tl_queue = q, tl_now = now, tl_break = brk, tl_waits = ws \<rparr>"

text \<open>\<open>breakThread\<close>, started at the time \<open>started\<close>: \<open>sleep(10)\<close>, which takes \<open>e\<close> longer, and \<open>quit\<close>.\<close>

definition break_at :: "int \<Rightarrow> nat \<Rightarrow> int" where
  "break_at started e = started + 10 * second + int e"

text \<open>
  A test: the timer is added one second ahead of the clock, which is read again \<open>d\<close> later by
  \<open>setTimer\<close>; then the loop runs, with the other thread in the tests that cancel.
\<close>

definition run_test_loop ::
  "(nat \<times> test_queue) res \<Rightarrow> int \<Rightarrow> int option \<Rightarrow> (nat \<times> nat) list \<Rightarrow> timer_loop res option" where
  "run_test_loop added now brk ws =
     (case added of
        Inl e \<Rightarrow> Some (Inl e)
      | Inr (a, q) \<Rightarrow> loop_fn tl_poll tl_handle tl_exec 1 (new_timer_loop q now brk ws))"

definition timer_test ::
  "test_callback \<Rightarrow> int \<Rightarrow> int \<Rightarrow> nat \<Rightarrow> int option \<Rightarrow> (nat \<times> nat) list \<Rightarrow> timer_loop res option" where
  "timer_test cb interval now d brk ws =
     run_test_loop (addTimer True 1 (now + second) (Some cb) interval (now + int d) new_test_queue)
       (now + int d) brk ws"

text \<open>The tests that go through the loop: \<open>runAt\<close>, \<open>runAfter\<close> and \<open>runEvery\<close>.\<close>

definition timer_at_test :: "int \<Rightarrow> nat \<Rightarrow> (nat \<times> nat) list \<Rightarrow> timer_loop res option" where
  "timer_at_test now d ws =
     run_test_loop (runAt True 1 (now + second) (Some Once) (now + int d) new_test_queue) (now + int d) None ws"

definition timer_after_test :: "int \<Rightarrow> nat \<Rightarrow> (nat \<times> nat) list \<Rightarrow> timer_loop res option" where
  "timer_after_test now d ws =
     run_test_loop (runAfter True 1 second (Some Once) now (now + int d) new_test_queue) (now + int d) None ws"

definition timer_every_test ::
  "test_callback \<Rightarrow> int \<Rightarrow> nat \<Rightarrow> int option \<Rightarrow> (nat \<times> nat) list \<Rightarrow> timer_loop res option" where
  "timer_every_test cb now d brk ws =
     run_test_loop (runEvery True 1 second (Some cb) now (now + int d) new_test_queue) (now + int d) brk ws"

lemma loop_tests:
  assumes "near now"
  shows "timer_at_test now d ws = timer_test Once 0 now d None ws"
    and "timer_after_test now d ws = timer_test Once 0 now d None ws"
    and "timer_every_test cb now d brk ws = timer_test cb second now d brk ws"
  using assms by (simp_all add: timer_at_test_def timer_after_test_def timer_every_test_def timer_test_def
      runAt_def runAfter_def runEvery_def int64_def near_def second_def)

subsection \<open>One timer in the queue\<close>

definition one_timer ::
  "test_callback \<Rightarrow> int \<Rightarrow> bool \<Rightarrow> int \<Rightarrow> int \<Rightarrow> test_callback list \<Rightarrow> int \<Rightarrow> bool \<Rightarrow> test_queue" where
  "one_timer cb iv can w s hist time q =
     \<lparr> tq_timers = [(w, 1)],
       tq_heap = [1 \<mapsto> \<lparr>tm_when = w, tm_callback = Some cb, tm_interval = iv, tm_repeat = (iv > 0), tm_canceled = can\<rparr>],
       tq_armed = Some (s, max one_ms (w - s)), tq_ran = hist, tq_tasks = [], tt_time = time, tt_quit = q \<rparr>"

definition no_timer :: "test_callback list \<Rightarrow> int \<Rightarrow> bool \<Rightarrow> test_queue" where
  "no_timer hist time q =
     \<lparr> tq_timers = [], tq_heap = Map.empty, tq_armed = None, tq_ran = hist, tq_tasks = [], tt_time = time, tt_quit = q \<rparr>"

lemma add_one:
  assumes "near now" and "near (now + int d)" and "0 \<le> iv"
  shows "addTimer True 1 (now + second) (Some cb) iv (now + int d) new_test_queue
    = Inr (1, one_timer cb iv False (now + second) (now + int d) [] 0 False)"
  using assms
  by (simp add: addTimer_def insert_timer_def put_timer_def new_test_queue_def timerq.extend_def new_timerq_def
      setTimer_cases one_timer_def new_timer_def near_def second_def)

text \<open>The expiry of the only timer, for each callback.\<close>

lemma expire_simps:
  "sset_below (t + 1, 0) [(w, a)] = (if w \<le> t then [(w, a)] else [])"
  "sset_from (t + 1, 0) [(w, a)] = (if w \<le> t then [] else [(w, a)])" for t w :: int and a :: nat
  by (auto simp: sset_below_def sset_from_def)

lemmas expiry_simps = tq_handleRead_def getExpired_def one_timer_def no_timer_def expire_simps int64_def
  near_def Let_def handle_entry_def deref_def run_timer_def run_callback_def restart_def put_timer_def
  setTimer_cases delete_timer_def cancelTimer_def cancel_in_loop_def cancel_def

lemma expire_repeat:
  assumes "near w" "near t" "near t2" "near (w + iv)" "w \<le> t" "0 < iv"
  shows "tq_handleRead run_callback t t2 (one_timer (QuitAt n) iv False w s hist time False) =
     Inr (one_timer (QuitAt n) iv False (w + iv) t2 (hist @ [QuitAt n]) (time + 1) (n = time + 1))"
  using assms by (simp add: expiry_simps)

lemma expire_once:
  assumes "near w" "near t" "w \<le> t"
  shows "tq_handleRead run_callback t t2 (one_timer Once 0 False w s hist time False) =
     Inr (no_timer (hist @ [Once]) 1 True)"
  using assms by (simp add: expiry_simps)

lemma expire_cancel:
  assumes "near w" "near t" "near t2" "near (w + iv)" "w \<le> t" "0 < iv"
  shows "tq_handleRead run_callback t t2 (one_timer (CancelAt n 1) iv False w s hist time False) =
     Inr (one_timer (CancelAt n 1) iv (n = time + 1) (w + iv) t2 (hist @ [CancelAt n 1]) (time + 1) False)"
  using assms by (simp add: expiry_simps)

lemma expire_cancelled:
  assumes "near w" "near t" "w \<le> t"
  shows "tq_handleRead run_callback t t2 (one_timer cb iv True w s hist time False) =
     Inr (no_timer hist time False)"
  using assms by (simp add: expiry_simps)

subsection \<open>Rounds of the loop\<close>

definition in_loop :: "test_queue \<Rightarrow> int \<Rightarrow> int option \<Rightarrow> (nat \<times> nat) list \<Rightarrow> timer_loop" where
  "in_loop q now brk ws = (new_timer_loop q now brk ws)\<lparr>el_looping := True\<rparr>"

abbreviation test_round :: "timer_loop \<Rightarrow> timer_loop res" where
  "test_round \<equiv> loop_iteration tl_poll tl_handle tl_exec"

text \<open>The time before which a run must stay: the range of the clock, and the end of the other thread's sleep.\<close>

definition horizon :: "int option \<Rightarrow> int" where
  "horizon brk = (case brk of None \<Rightarrow> 2 ^ 62 | Some b \<Rightarrow> min b (2 ^ 62))"

lemma horizon_le: "horizon brk \<le> 2 ^ 62" "t < horizon brk \<Longrightarrow> \<not> passed brk t"
  by (auto simp: horizon_def passed_def split: option.splits)

lemma earliest_before: "a < horizon brk \<Longrightarrow> earliest (Some a) brk = Some a"
  by (cases brk) (simp_all add: horizon_def)

lemma round_expire:
  assumes "tq_armed q = Some (s, max one_ms (w - s))" and "s \<le> now"
    and "tq_handleRead run_callback t t2 q = Inr q'"
    and "t = max now (s + max one_ms (w - s)) + int d1" and "t2 = t + int d2" and "t2 < horizon brk"
  shows "test_round (in_loop q now brk ((d1, d2) # ws)) = Inr ((in_loop q' t2 brk ws)\<lparr>el_quit := tt_quit q'\<rparr>)"
proof -
  let ?due = "s + max one_ms (w - s)"
  have "?due < horizon brk" "\<not> passed brk t" "\<not> passed brk t2" "?due \<le> t"
    using assms(4-6) horizon_le(2) [of t brk] horizon_le(2) [of t2 brk] by auto
  moreover from this have "passed (Some ?due) t" by (simp add: passed_def)
  ultimately show ?thesis
    using assms(1,3-5) earliest_before [of ?due brk]
    by (simp add: loop_iteration_def in_loop_def new_timer_loop_def tl_poll_def tl_handle_def runTasks_def
        timer_due_def quit_def isInLoopThread_def Let_def)
qed

lemma round_break:
  assumes "tq_armed q = None"
  shows "test_round (in_loop q now (Some b) ((d1, d2) # ws))
    = Inr ((in_loop q (max now b + int d1 + int d2) None ws)\<lparr>el_quit := True\<rparr>)"
proof -
  have "passed (Some b) (max now b + int d1)" "passed (Some b) (max now b + int d1 + int d2)" by (auto simp: passed_def)
  moreover have "\<not> passed None t" for t by (simp add: passed_def)
  ultimately show ?thesis
    using assms
    by (simp add: loop_iteration_def in_loop_def new_timer_loop_def tl_poll_def tl_handle_def runTasks_def timer_due_def
        quit_def isInLoopThread_def wakeup_def el_handleRead_def counter_write_def counter_read_def Let_def)
qed

text \<open>An expiry that is reported after the other thread has called \<open>quit\<close> is handled in the last round.\<close>

lemma round_late:
  assumes "tq_armed q = Some (s, max one_ms (w - s))" and "s + max one_ms (w - s) \<le> b" and "b \<le> t"
    and "tq_handleRead run_callback t t2 q = Inr q'"
    and "t = max now (s + max one_ms (w - s)) + int d1" and "t2 = t + int d2"
  shows "test_round (in_loop q now (Some b) ((d1, d2) # ws)) = Inr ((in_loop q' t2 None ws)\<lparr>el_quit := True\<rparr>)"
proof -
  let ?due = "s + max one_ms (w - s)"
  have "passed (Some ?due) t" "passed (Some b) t" "passed (Some b) t2" "min ?due b = ?due"
    using assms(2,3,5,6) by (auto simp: passed_def)
  then show ?thesis
    using assms(1,4-6)
    by (simp add: loop_iteration_def in_loop_def new_timer_loop_def tl_poll_def tl_handle_def runTasks_def timer_due_def
        quit_def isInLoopThread_def wakeup_def el_handleRead_def counter_write_def counter_read_def Let_def)
qed

text \<open>
  \<open>late ws\<close> is the time the waits of \<open>ws\<close> take beyond what they have to.  The queue is armed for \<open>w\<close>, and
  no clock value within the next \<open>n\<close> rounds reaches the horizon.
\<close>

fun late :: "(nat \<times> nat) list \<Rightarrow> int" where
  "late [] = 0"
| "late ((d1, d2) # ws) = int d1 + int d2 + late ws"

definition in_range :: "int option \<Rightarrow> int \<Rightarrow> nat \<Rightarrow> int \<Rightarrow> int \<Rightarrow> int \<Rightarrow> (nat \<times> nat) list \<Rightarrow> bool" where
  "in_range brk iv n w s now ws \<longleftrightarrow> 0 \<le> s \<and> s \<le> now \<and> 0 \<le> w \<and> 0 \<le> iv \<and>
     max w now + int n * (iv + one_ms) + late ws < horizon brk"

lemma late_ge: "0 \<le> late ws"
  by (induction ws rule: late.induct) simp_all

lemma in_range_next:
  assumes r: "in_range brk iv (Suc n) w s now ((d1, d2) # ws)"
    and t: "t = max now (s + max one_ms (w - s)) + int d1" "t2 = t + int d2"
  shows "near w" and "near t" and "near t2" and "near (w + iv)" and "w \<le> t" and "s \<le> now"
    and "in_range brk iv n (w + iv) t2 t2 ws" and "t2 < horizon brk"
proof -
  have one: "0 < one_ms" by (simp add: one_ms_def)
  define x where "x = int n * (iv + one_ms)"
  have n: "int (Suc n) * (iv + one_ms) = x + (iv + one_ms)" by (simp add: x_def algebra_simps)
  have base: "0 \<le> s" "s \<le> now" "0 \<le> w" "0 \<le> iv"
    and small: "max w now + (x + (iv + one_ms)) + (int d1 + int d2 + late ws) < horizon brk"
    using r unfolding in_range_def n by simp_all
  have x: "0 \<le> x" using base(4) one by (simp add: x_def)
  have t2: "t2 \<le> max w now + one_ms + int d1 + int d2" and le: "w \<le> t" "now \<le> t" "t \<le> t2"
    using t base one by auto
  show "w \<le> t" "s \<le> now" using le base by simp_all
  have m: "w \<le> max w now" "now \<le> max w now" by simp_all
  show below: "t2 < horizon brk" using small base x t2 one late_ge [of ws] by linarith
  show "near w" "near t" "near t2" "near (w + iv)"
    unfolding near_def using small base x le t2 one late_ge [of ws] m horizon_le(1) [of brk] by linarith+
  have "max (w + iv) t2 \<le> max w now + iv + one_ms + int d1 + int d2" using t2 base one by simp
  then have "max (w + iv) t2 + x + late ws < horizon brk" using small by linarith
  then show "in_range brk iv n (w + iv) t2 t2 ws"
    using base le by (simp add: in_range_def x_def)
qed

lemma rounds_add:
  "rounds q it m s = Some s1 \<Longrightarrow> rounds q it n s1 = Some s2 \<Longrightarrow> rounds q it (m + n) s = Some s2"
proof (induction m arbitrary: s)
  case (Suc m)
  then show ?case by (auto split: if_splits sum.splits)
qed simp

lemma in_loop_quit [simp]: "el_quit (in_loop q now brk ws) = False"
  by (simp add: in_loop_def new_timer_loop_def)

lemma in_loop_not_quit [simp]: "(in_loop q now brk ws)\<lparr>el_quit := False\<rparr> = in_loop q now brk ws"
  by (simp add: in_loop_def new_timer_loop_def)

lemma one_timer_fields [simp]:
  "tq_armed (one_timer cb iv can w s hist time q) = Some (s, max one_ms (w - s))"
  "tt_quit (one_timer cb iv can w s hist time q) = q" "tt_time (one_timer cb iv can w s hist time q) = time"
  "tq_armed (no_timer hist time q) = None" "tt_quit (no_timer hist time q) = q"
  "tt_time (no_timer hist time q) = time" "tq_heap (no_timer hist time q) = Map.empty"
  by (simp_all add: one_timer_def no_timer_def)

text \<open>The timer that repeats until it has run \<open>n\<close> times; \<open>ds\<close> are the waits of these runs.\<close>

lemma repeat_rounds:
  assumes "length ds = Suc k" and "time + int (Suc k) = n" and "0 < iv" and "in_range brk iv (Suc k) w s now ds"
  shows "\<exists>q' now'. rounds el_quit test_round (Suc k)
       (in_loop (one_timer (QuitAt n) iv False w s hist time False) now brk (ds @ ws))
     = Some ((in_loop q' now' brk ws)\<lparr>el_quit := True\<rparr>) \<and> tt_time q' = n"
  using assms(1,2,4)
proof (induction k arbitrary: ds time w s now hist)
  case (0 ds)
  obtain d1 d2 where ds: "ds = [(d1, d2)]" using 0(1) by (cases ds) auto
  define t where "t = max now (s + max one_ms (w - s)) + int d1"
  note r = in_range_next [OF 0(3) [unfolded ds] t_def refl]
  from round_expire [OF _ r(6) expire_repeat [OF r(1-5) assms(3)] t_def refl r(8)] 0(2) show ?case
    by (simp add: ds) (metis one_timer_fields(3))
next
  case (Suc k ds)
  obtain d1 d2 ds1 where ds: "ds = (d1, d2) # ds1" "length ds1 = Suc k" using Suc.prems(1) by (cases ds) auto
  define t where "t = max now (s + max one_ms (w - s)) + int d1"
  note r = in_range_next [OF Suc.prems(3) [unfolded ds(1)] t_def refl]
  have n: "n \<noteq> time + 1" "time + 1 + int (Suc k) = n" using Suc.prems(2) by simp_all
  note e = expire_repeat [OF r(1-5) assms(3), where n = n and s = s and hist = hist and time = time]
  from round_expire [OF _ r(6) e t_def refl r(8)] n(1) have
    "test_round (in_loop (one_timer (QuitAt n) iv False w s hist time False) now brk ((d1, d2) # ds1 @ ws))
     = Inr (in_loop (one_timer (QuitAt n) iv False (w + iv) (t + int d2) (hist @ [QuitAt n]) (time + 1) False)
        (t + int d2) brk (ds1 @ ws))"
    by simp
  with Suc.IH [OF ds(2) n(2) r(7)] show ?case by (simp add: ds)
qed

text \<open>The timer that cancels itself in its \<open>n\<close>-th run, up to that run.\<close>

lemma cancel_rounds:
  assumes "length ds = k" and "time + int k = n" and "0 < k" and "0 < iv" and "in_range brk iv (k + m) w s now (ds @ rest)"
  shows "\<exists>w' s' hist'. rounds el_quit test_round k
       (in_loop (one_timer (CancelAt n 1) iv False w s hist time False) now brk (ds @ ws))
     = Some (in_loop (one_timer (CancelAt n 1) iv True w' s' hist' n False) s' brk ws) \<and> in_range brk iv m w' s' s' rest"
  using assms(1,2,3,5)
proof (induction k arbitrary: ds time w s now hist)
  case (Suc k ds)
  obtain d1 d2 ds1 where ds: "ds = (d1, d2) # ds1" "length ds1 = k" using Suc.prems(1) by (cases ds) auto
  define t where "t = max now (s + max one_ms (w - s)) + int d1"
  have "in_range brk iv (Suc (k + m)) w s now ((d1, d2) # ds1 @ rest)" using Suc.prems(4) by (simp add: ds)
  note r = in_range_next [OF this t_def refl]
  let ?next = "\<lambda>can. one_timer (CancelAt n 1) iv can (w + iv) (t + int d2) (hist @ [CancelAt n 1]) (time + 1) False"
  note e = expire_cancel [OF r(1-5) assms(4), where n = n and s = s and hist = hist and time = time]
  from round_expire [OF _ r(6) e t_def refl r(8)] have step:
    "test_round (in_loop (one_timer (CancelAt n 1) iv False w s hist time False) now brk ((d1, d2) # ds1 @ ws))
     = Inr (in_loop (?next (n = time + 1)) (t + int d2) brk (ds1 @ ws))"
    by simp
  show ?case
  proof (cases k)
    case 0
    with Suc.prems(2) have "n = time + 1" by simp
    with step r(7) 0 ds show ?thesis by auto
  next
    case (Suc j)
    with Suc.prems(2) have n: "n \<noteq> time + 1" "time + 1 + int k = n" by simp_all
    from Suc have "0 < k" by simp
    from Suc.IH [OF ds(2) n(2) this r(7)] step n(1) show ?thesis by (simp add: ds)
  qed
qed simp

text \<open>From the rounds to the whole test.\<close>

lemma timer_test_runs:
  assumes "near now" and "near (now + int d)" and "0 \<le> iv"
    and "rounds el_quit test_round k
       (in_loop (one_timer cb iv False (now + second) (now + int d) [] 0 False) (now + int d) brk ws)
     = Some ((in_loop q' now' brk' ws')\<lparr>el_quit := True\<rparr>)"
  shows "\<exists>l. timer_test cb iv now d brk ws = Some (Inr l) \<and> tl_queue l = q'"
proof -
  let ?l = "new_timer_loop (one_timer cb iv False (now + second) (now + int d) [] 0 False) (now + int d) brk ws"
  have "isInLoopThread 1 ?l" "\<not> el_looping ?l" by (simp_all add: isInLoopThread_def new_timer_loop_def)
  note iff = loop_fn_returns_iff [OF this]
  have "loop_fn tl_poll tl_handle tl_exec 1 ?l
      = Some (Inr ((in_loop q' now' brk' ws')\<lparr>el_quit := True, el_looping := False\<rparr>))"
    unfolding iff using assms(4) by (intro exI [of _ k] exI [of _ "(in_loop q' now' brk' ws')\<lparr>el_quit := True\<rparr>"])
      (simp add: in_loop_def)
  then show ?thesis
    using add_one [OF assms(1-3), of cb] by (simp add: timer_test_def run_test_loop_def in_loop_def new_timer_loop_def)
qed

lemma start_in_range:
  assumes "near now" and "0 \<le> iv" and "now + second + int d + int m * (iv + one_ms) + late ds < horizon brk"
  shows "in_range brk iv m (now + second) (now + int d) (now + int d) ds" and "near (now + int d)"
proof -
  have "0 < one_ms" "0 < second" by (simp_all add: one_ms_def second_def)
  then have pos: "0 \<le> int m * (iv + one_ms)" using assms(2) by simp
  have max: "max (now + second) (now + int d) \<le> now + second + int d" using \<open>0 < second\<close> by simp
  show "near (now + int d)"
    using assms(1,3) pos late_ge [of ds] \<open>0 < second\<close> horizon_le(1) [of brk] unfolding near_def by linarith
  show "in_range brk iv m (now + second) (now + int d) (now + int d) ds"
    unfolding in_range_def using assms max \<open>0 < second\<close> by (simp add: near_def)
qed

lemma late_take: "late (take n ds) \<le> late ds"
proof (induction n arbitrary: ds)
  case (Suc n)
  then show ?case by (cases ds rule: late.cases) simp_all
qed (simp add: late_ge)

lemma horizon_None [simp]: "horizon None = 2 ^ 62"
  by (simp add: horizon_def)

lemma repeat_test:
  assumes "near now" and "0 < iv" and "0 < n" and "n \<le> length ds"
    and "now + second + int d + int n * (iv + one_ms) + late ds < 2 ^ 62"
  shows "\<exists>l. timer_test (QuitAt (int n)) iv now d None ds = Some (Inr l) \<and> tt_time (tl_queue l) = int n"
proof -
  have iv: "0 \<le> iv" using assms(2) by simp
  obtain k where k: "Suc k = n" using assms(3) by (cases n) auto
  have "now + second + int d + int n * (iv + one_ms) + late (take n ds) < horizon None"
    using assms(5) late_take [of n ds] by simp
  note start = start_in_range [OF assms(1) iv this]
  have len: "length (take n ds) = Suc k" and sum: "0 + int (Suc k) = int n" using assms(4) k by simp_all
  obtain q' now' where "rounds el_quit test_round n
       (in_loop (one_timer (QuitAt (int n)) iv False (now + second) (now + int d) [] 0 False) (now + int d) None
         (take n ds @ drop n ds))
     = Some ((in_loop q' now' None (drop n ds))\<lparr>el_quit := True\<rparr>)" and q': "tt_time q' = int n"
    using repeat_rounds [OF len sum assms(2), unfolded k, OF start(1)] by blast
  from timer_test_runs [OF assms(1) start(2) iv this(1) [unfolded append_take_drop_id]] q' show ?thesis by auto
qed

lemma once_test:
  assumes "near now" and "ds \<noteq> []" and "now + second + int d + one_ms + late ds < 2 ^ 62"
  shows "\<exists>l. timer_test Once 0 now d None ds = Some (Inr l) \<and> tt_time (tl_queue l) = 1 \<and>
     tq_heap (tl_queue l) = Map.empty"
proof -
  obtain d1 d2 ds1 where ds: "ds = (d1, d2) # ds1" using assms(2) by (cases ds) auto
  have "now + second + int d + int (Suc 0) * (0 + one_ms) + late ds < horizon None" using assms(3) by simp
  note start = start_in_range [OF assms(1) order_refl this]
  define t where "t = max (now + int d) (now + int d + max one_ms (now + second - (now + int d))) + int d1"
  note r = in_range_next [OF start(1) [unfolded ds] t_def refl]
  from round_expire [OF _ r(6) expire_once [OF r(1,2,5)] t_def refl r(8), where ws = ds1] have
    "rounds el_quit test_round 1 (in_loop (one_timer Once 0 False (now + second) (now + int d) [] 0 False)
        (now + int d) None ds)
     = Some ((in_loop (no_timer ([] @ [Once]) 1 True) (t + int d2) None ds1)\<lparr>el_quit := True\<rparr>)"
    by (simp add: ds)
  from timer_test_runs [OF assms(1) start(2) order_refl this] show ?thesis by auto
qed

text \<open>The test that cancels: \<open>n\<close> runs, the expiry that frees the timer, and the wait that \<open>quit\<close> ends.\<close>

lemma cancel_test:
  assumes "near now" and "0 < iv" and "0 < n" and "length ds = Suc n"
    and "now + second + int d + int (Suc n) * (iv + one_ms) + late ds < horizon (Some b)"
  shows "\<exists>l. timer_test (CancelAt (int n) 1) iv now d (Some b) (ds @ [d0]) = Some (Inr l) \<and>
     tt_time (tl_queue l) = int n \<and> tq_heap (tl_queue l) = Map.empty"
proof -
  let ?cb = "CancelAt (int n) 1"
  obtain ds0 d1 d2 where ds: "ds = ds0 @ [(d1, d2)]" "length ds0 = n"
    using assms(4) by (cases ds rule: rev_cases) auto
  obtain e1 e2 where d0: "d0 = (e1, e2)" by (cases d0)
  let ?start = "in_loop (one_timer ?cb iv False (now + second) (now + int d) [] 0 False) (now + int d) (Some b)
     (ds0 @ [(d1, d2), d0])"
  have iv: "0 \<le> iv" using assms(2) by simp
  note start = start_in_range [OF assms(1) iv assms(5)]
  have sum: "0 + int n = int n" and range0: "in_range (Some b) iv (n + 1) (now + second) (now + int d) (now + int d) (ds0 @ [(d1, d2)])"
    using start(1) ds by simp_all
  obtain w s hist where first: "rounds el_quit test_round n ?start
      = Some (in_loop (one_timer ?cb iv True w s hist (int n) False) s (Some b) [(d1, d2), d0])"
    and range: "in_range (Some b) iv 1 w s s [(d1, d2)]"
    using cancel_rounds [OF ds(2) sum assms(3,2) range0, of "[]" "[(d1, d2), d0]"] by blast
  define t where "t = max s (s + max one_ms (w - s)) + int d1"
  note r = in_range_next [OF range [unfolded One_nat_def] t_def refl]
  note e = expire_cancelled [OF r(1,2,5), where cb = ?cb and iv = iv and s = s and hist = hist and time = "int n"]
  let ?idle = "no_timer hist (int n) False"
  from round_expire [OF _ r(6) e t_def refl r(8), where ws = "[d0]"] have
    "rounds el_quit test_round 1 (in_loop (one_timer ?cb iv True w s hist (int n) False) s (Some b) [(d1, d2), d0])
     = Some (in_loop ?idle (t + int d2) (Some b) [d0])"
    by simp
  moreover have "rounds el_quit test_round 1 (in_loop ?idle (t + int d2) (Some b) [d0])
     = Some ((in_loop ?idle (max (t + int d2) b + int e1 + int e2) None [])\<lparr>el_quit := True\<rparr>)"
    using round_break [of ?idle "t + int d2" b e1 e2 "[]"] by (simp add: d0)
  ultimately have "rounds el_quit test_round (n + 1 + 1) ?start
     = Some ((in_loop ?idle (max (t + int d2) b + int e1 + int e2) None [])\<lparr>el_quit := True\<rparr>)"
    using rounds_add [OF rounds_add [OF first]] by blast
  from timer_test_runs [OF assms(1) start(2) iv this] show ?thesis by (auto simp: ds)
qed

text \<open>When the first expiry is reported after the other thread has called \<open>quit\<close>, the test that cancels fails.\<close>

lemma cancel_test_late:
  assumes "near now" and "near (now + int d)" and "near (now + second + int d1 + int d + iv + one_ms + int d2)" and "0 < iv"
    and "1 < n" and "now + second + int d + one_ms \<le> b" and "b \<le> now + second + int d1"
  shows "\<exists>l. timer_test (CancelAt (int n) 1) iv now d (Some b) [(d1, d2)] = Some (Inr l) \<and> tt_time (tl_queue l) = 1"
proof -
  let ?w = "now + second" and ?s = "now + int d" and ?cb = "CancelAt (int n) 1"
  have pos: "0 < one_ms" "0 < second" by (simp_all add: one_ms_def second_def)
  define t where "t = max ?s (?s + max one_ms (?w - ?s)) + int d1"
  have t: "?w \<le> t" "t \<le> ?w + int d + one_ms + int d1" "b \<le> t" "?s + max one_ms (?w - ?s) \<le> b" "?s \<le> t"
    using assms(6,7) pos unfolding t_def by auto
  have near: "near ?w" "near t" "near (t + int d2)" "near (?w + iv)"
    using assms(1-4) t pos unfolding near_def by linarith+
  note e = expire_cancel [OF near t(1) assms(4), of "int n" ?s "[]" 0]
  have "rounds el_quit test_round 1 (in_loop (one_timer ?cb iv False ?w ?s [] 0 False) ?s (Some b) [(d1, d2)])
     = Some ((in_loop (one_timer ?cb iv (int n = 0 + 1) (?w + iv) (t + int d2) ([] @ [?cb]) (0 + 1) False) (t + int d2) None [])
         \<lparr>el_quit := True\<rparr>)"
    using round_late [OF _ t(4,3) e t_def refl, where ws = "[]"] by simp
  from timer_test_runs [OF assms(1,2) less_imp_le [OF assms(4)] this] show ?thesis by auto
qed

subsection \<open>Properties\<close>



end
