(* ===== verification/Logging.thy ===== *)
theory Logging
  imports Format
begin

text \<open>
  \<open>yvent/Logging.h\<close> and \<open>Logging.cpp\<close>.  The state is the level, the descriptor and the lines
  written so far, each with the descriptor it went to.  \<open>log_base\<close> and \<open>log_sys\<close> build their
  text in an array of 256 bytes on the stack, whose former content is the argument \<open>data\<close>;
  \<open>sprintf\<close> does not know the end of the array, so every write to it is bounds-checked here.
  The clock (\<open>gettimeofday\<close>, \<open>gmtime_r\<close>), \<open>getpid\<close>, the message the format and its arguments
  give, \<open>strerror(errno)\<close> and the success of \<open>dprintf\<close> are arguments.
\<close>

subsection \<open>State\<close>

record logger =
  lg_level :: int
  lg_fd :: int
  lg_out :: "(int \<times> string) list"

definition LOG_LEVEL_TRACE :: int where "LOG_LEVEL_TRACE = 0"
definition LOG_LEVEL_DEBUG :: int where "LOG_LEVEL_DEBUG = 1"
definition LOG_LEVEL_INFO :: int where "LOG_LEVEL_INFO = 2"
definition LOG_LEVEL_WARN :: int where "LOG_LEVEL_WARN = 3"
definition LOG_LEVEL_ERROR :: int where "LOG_LEVEL_ERROR = 4"
definition LOG_LEVEL_FATAL :: int where "LOG_LEVEL_FATAL = 5"

lemmas log_levels = LOG_LEVEL_TRACE_def LOG_LEVEL_DEBUG_def LOG_LEVEL_INFO_def
  LOG_LEVEL_WARN_def LOG_LEVEL_ERROR_def LOG_LEVEL_FATAL_def

definition STDOUT_FILENO :: int where "STDOUT_FILENO = 1"
definition STDERR_FILENO :: int where "STDERR_FILENO = 2"

definition MAXLINE :: nat where "MAXLINE = 256"

definition log_level_str :: "string list" where
  "log_level_str = [''[TRACE]'', ''[DEBUG]'', ''[INFO] '', ''[WARN] '', ''[ERROR]'', ''[FATAL]'']"

text \<open>The initial state, in a debug and in a release build.\<close>

definition new_logger :: "bool \<Rightarrow> logger" where
  "new_logger ndebug =
     \<lparr> lg_level = (if ndebug then LOG_LEVEL_INFO else LOG_LEVEL_DEBUG), lg_fd = STDOUT_FILENO,
       lg_out = [] \<rparr>"

definition setLogLevel :: "int \<Rightarrow> logger \<Rightarrow> logger" where
  "setLogLevel level l =
     (let level1 = (if level < LOG_LEVEL_TRACE then LOG_LEVEL_TRACE else level);
          level2 = (if level1 > LOG_LEVEL_FATAL then LOG_LEVEL_FATAL else level1)
      in l\<lparr>lg_level := level2\<rparr>)"

definition setLogFd :: "int \<Rightarrow> logger \<Rightarrow> logger" where
  "setLogFd fd l = l\<lparr>lg_fd := (if fd \<le> 0 then STDOUT_FILENO else fd)\<rparr>"

subsection \<open>Building a line\<close>

text \<open>\<open>%<w>d\<close> padded with \<open>c\<close>; with zeros the sign stays in front.\<close>

definition pad :: "char \<Rightarrow> nat \<Rightarrow> string \<Rightarrow> string" where
  "pad c w s = replicate (w - length s) c @ s"

definition fmt_zero :: "nat \<Rightarrow> int \<Rightarrow> string" where
  "fmt_zero w i =
     (if i < 0 then CHR ''-'' # pad (CHR ''0'') (w - 1) (dec_nat (nat (- i)))
      else pad (CHR ''0'') w (dec_nat (nat i)))"

text \<open>The clock: the fields of \<open>struct tm\<close> and the microseconds.\<close>

record clock =
  tm_year :: int
  tm_mon :: int
  tm_mday :: int
  tm_hour :: int
  tm_min :: int
  tm_sec :: int
  tv_usec :: int

definition timestamp_text :: "clock \<Rightarrow> string" where
  "timestamp_text t =
     pad (CHR '' '') 4 (fmt_int (tm_year t + 1900)) @ fmt_zero 2 (tm_mon t + 1) @ fmt_zero 2 (tm_mday t) @
     '' '' @ fmt_zero 2 (tm_hour t) @ '':'' @ fmt_zero 2 (tm_min t) @ '':'' @ fmt_zero 2 (tm_sec t) @
     ''.'' @ fmt_zero 6 (tv_usec t)"

text \<open>\<open>sprintf\<close> and \<open>snprintf\<close> to an offset of the array: the text with its terminator.\<close>

definition put_str :: "nat \<Rightarrow> string \<Rightarrow> char list \<Rightarrow> char list res" where
  "put_str i s data = mem_write i (s @ [CHR 0x00]) data"

text \<open>\<open>timestamp\<close> returns what \<open>snprintf\<close> returns, the length without the cut.\<close>

definition timestamp :: "clock \<Rightarrow> nat \<Rightarrow> char list \<Rightarrow> (nat \<times> char list) res" where
  "timestamp t len data =
     rbind (put_str 0 (snprintf len (timestamp_text t)) data) (\<lambda>data'.
     Inr (length (timestamp_text t), data'))"

text \<open>The text in front of the message, the same way in \<open>log_base\<close> and \<open>log_sys\<close>, and the message.\<close>

definition log_prefix ::
  "clock \<Rightarrow> int \<Rightarrow> string \<Rightarrow> char list \<Rightarrow> (nat \<times> char list) res" where
  "log_prefix t pid tag data =
     rbind (timestamp t 32 data) (\<lambda>(i, d1).
     let s1 = '' ['' @ fmt_int pid @ '']'' in
     rbind (put_str i s1 d1) (\<lambda>d2.
     let i2 = i + length s1; s2 = '' '' @ tag @ '' '' in
     rbind (put_str i2 s2 d2) (\<lambda>d3. Inr (i2 + length s2, d3))))"

definition log_message :: "nat \<Rightarrow> string \<Rightarrow> char list \<Rightarrow> char list res" where
  "log_message i message data =
     (let n = sz_sub MAXLINE i in
      if n = 0 then Inr data else put_str i (snprintf n message) data)"

text \<open>A C string: the characters before the terminator, which has to be in the array.\<close>

definition c_str :: "char list \<Rightarrow> string res" where
  "c_str data = (if CHR 0x00 \<in> set data then Inr (takeWhile (\<lambda>c. c \<noteq> CHR 0x00) data) else Inl OutOfBounds)"

text \<open>\<open>strrchr(file, '/') + 1\<close>: the name behind the last slash; without one the pointer is null.\<close>

definition base_name :: "string \<Rightarrow> string res" where
  "base_name file =
     (if CHR ''/'' \<in> set file then Inr (rev (takeWhile (\<lambda>c. c \<noteq> CHR ''/'') (rev file)))
      else Inl NullDeref)"

subsection \<open>The two functions and the macros\<close>

text \<open>The result is the state after the write, and whether \<open>abort()\<close> was called then.\<close>

definition log_base ::
  "(int \<Rightarrow> string \<Rightarrow> bool) \<Rightarrow> clock \<Rightarrow> int \<Rightarrow> char list \<Rightarrow> string \<Rightarrow> int \<Rightarrow> int \<Rightarrow> bool \<Rightarrow> string \<Rightarrow>
   logger \<Rightarrow> (logger \<times> bool) res" where
  "log_base dprintf_ok t pid data file line level to_abort message l =
     rbind (check (0 \<le> level \<and> nat level < length log_level_str) OutOfBounds) (\<lambda>_.
     rbind (log_prefix t pid (log_level_str ! nat level) data) (\<lambda>(i, d1).
     rbind (log_message i message d1) (\<lambda>d2.
     rbind (c_str d2) (\<lambda>text.
     rbind (base_name file) (\<lambda>name.
     let out = text @ '' - '' @ name @ '':'' @ fmt_int line @ [CHR 0x0A];
         l' = (if dprintf_ok (lg_fd l) out then l\<lparr>lg_out := lg_out l @ [(lg_fd l, out)]\<rparr>
               else l\<lparr>lg_out := lg_out l @ [(STDERR_FILENO, ''log failed'')]\<rparr>)
     in Inr (l', to_abort))))))"

definition log_sys ::
  "(int \<Rightarrow> string \<Rightarrow> bool) \<Rightarrow> clock \<Rightarrow> int \<Rightarrow> char list \<Rightarrow> string \<Rightarrow> string \<Rightarrow> int \<Rightarrow> bool \<Rightarrow> string \<Rightarrow>
   logger \<Rightarrow> (logger \<times> bool) res" where
  "log_sys dprintf_ok t pid data strerror file line to_abort message l =
     rbind (log_prefix t pid (if to_abort then ''[SYSFA]'' else ''[SYSER]'') data) (\<lambda>(i, d1).
     rbind (log_message i message d1) (\<lambda>d2.
     rbind (c_str d2) (\<lambda>text.
     rbind (base_name file) (\<lambda>name.
     let out = text @ '': '' @ strerror @ '' - '' @ name @ '':'' @ fmt_int line @ [CHR 0x0A];
         l' = (if dprintf_ok (lg_fd l) out then l\<lparr>lg_out := lg_out l @ [(lg_fd l, out)]\<rparr> else l)
     in Inr (l', to_abort)))))"

text \<open>\<open>LOG_TRACE\<close> to \<open>LOG_FATAL\<close>, by their level.\<close>

definition log_at ::
  "(int \<Rightarrow> string \<Rightarrow> bool) \<Rightarrow> clock \<Rightarrow> int \<Rightarrow> char list \<Rightarrow> string \<Rightarrow> int \<Rightarrow> int \<Rightarrow> string \<Rightarrow>
   logger \<Rightarrow> (logger \<times> bool) res" where
  "log_at dprintf_ok t pid data file line level message l =
     (if level \<le> LOG_LEVEL_WARN then
        if lg_level l \<le> level then log_base dprintf_ok t pid data file line level False message l
        else Inr (l, False)
      else log_base dprintf_ok t pid data file line level (level = LOG_LEVEL_FATAL) message l)"

subsection \<open>The array holds the line\<close>

text \<open>The array starts with the string \<open>s\<close> and its terminator.\<close>

definition holds_str :: "string \<Rightarrow> char list \<Rightarrow> bool" where
  "holds_str s data \<longleftrightarrow> take (length s + 1) data = s @ [CHR 0x00]"

lemma holds_strE:
  assumes "holds_str s data"
  obtains rest where "data = s @ CHR 0x00 # rest"
proof -
  have "data = take (length s + 1) data @ drop (length s + 1) data" by simp
  with assms show ?thesis unfolding holds_str_def by (intro that) simp
qed

lemma put_str_append:
  assumes "holds_str s data" and "length s + length x < length data"
  obtains d where "put_str (length s) x data = Inr d" and "holds_str (s @ x) d" and "length d = length data"
proof -
  from assms(1) obtain rest where data: "data = s @ CHR 0x00 # rest" by (rule holds_strE)
  let ?d = "s @ (x @ [CHR 0x00]) @ drop (length s + length (x @ [CHR 0x00])) data"
  have "put_str (length s) x data = Inr ?d"
    using assms(2) by (simp add: put_str_def mem_write_def data)
  then show ?thesis by (rule that) (use assms(2) in \<open>simp_all add: holds_str_def\<close>)
qed

lemma put_str_start:
  assumes "length x < length data"
  obtains d where "put_str 0 x data = Inr d" and "holds_str x d" and "length d = length data"
proof -
  have "put_str 0 x data = Inr (x @ [CHR 0x00] @ drop (length x + 1) data)"
    using assms by (simp add: put_str_def mem_write_def)
  then show ?thesis by (rule that) (use assms in \<open>simp_all add: holds_str_def\<close>)
qed

lemma c_str_holds: "holds_str s data \<Longrightarrow> CHR 0x00 \<notin> set s \<Longrightarrow> c_str data = Inr s"
  by (erule holds_strE) (auto simp: c_str_def takeWhile_append takeWhile_eq_all_conv)

text \<open>The ranges \<open>gmtime_r\<close> and \<open>gettimeofday\<close> document.\<close>

definition clock_ok :: "clock \<Rightarrow> bool" where
  "clock_ok t \<longleftrightarrow> 0 \<le> tm_year t + 1900 \<and> tm_year t + 1900 < 2 ^ 31 \<and>
     0 \<le> tm_mon t \<and> tm_mon t \<le> 11 \<and> 0 \<le> tm_mday t \<and> tm_mday t \<le> 31 \<and>
     0 \<le> tm_hour t \<and> tm_hour t \<le> 23 \<and> 0 \<le> tm_min t \<and> tm_min t \<le> 59 \<and>
     0 \<le> tm_sec t \<and> tm_sec t \<le> 60 \<and> 0 \<le> tv_usec t \<and> tv_usec t < 1000000"

lemma length_pad [simp]: "length (pad c w s) = max w (length s)"
  by (simp add: pad_def max_def)

lemma fmt_int_short: "0 \<le> i \<Longrightarrow> i < 10 ^ k \<Longrightarrow> 0 < k \<Longrightarrow> length (fmt_int i) \<le> k"
  by (simp add: fmt_int_def dec_nat_length nat_less_iff)

lemma fmt_zero_width: "0 \<le> i \<Longrightarrow> i < 10 ^ w \<Longrightarrow> 0 < w \<Longrightarrow> length (fmt_zero w i) = w"
  using dec_nat_length [of "nat i" w] by (simp add: fmt_zero_def nat_less_iff)

lemma dec_nat_no_nul: "CHR 0x00 \<notin> set (dec_nat n)"
  using dec_nat_digits [of "CHR 0x00" n] by auto

lemma fmt_no_nul [simp]: "CHR 0x00 \<notin> set (fmt_int i)" "CHR 0x00 \<notin> set (fmt_zero w i)"
  "c \<noteq> CHR 0x00 \<Longrightarrow> CHR 0x00 \<notin> set s \<Longrightarrow> CHR 0x00 \<notin> set (pad c w s)"
  by (auto simp: fmt_int_def fmt_zero_def pad_def dec_nat_no_nul)

lemma timestamp_short: "clock_ok t \<Longrightarrow> length (timestamp_text t) \<le> 31"
proof -
  assume t: "clock_ok t"
  have "length (fmt_int (tm_year t + 1900)) \<le> 10" using t by (intro fmt_int_short) (simp_all add: clock_ok_def)
  moreover have "length (fmt_zero 2 (tm_mon t + 1)) = 2" "length (fmt_zero 2 (tm_mday t)) = 2"
    "length (fmt_zero 2 (tm_hour t)) = 2" "length (fmt_zero 2 (tm_min t)) = 2"
    "length (fmt_zero 2 (tm_sec t)) = 2" "length (fmt_zero 6 (tv_usec t)) = 6"
    using t by (simp_all add: fmt_zero_width clock_ok_def)
  ultimately show ?thesis by (simp add: timestamp_text_def)
qed

lemma timestamp_no_nul: "CHR 0x00 \<notin> set (timestamp_text t)"
  by (simp add: timestamp_text_def)

text \<open>The text in front of a message.\<close>

definition prefix_text :: "clock \<Rightarrow> int \<Rightarrow> string \<Rightarrow> string" where
  "prefix_text t pid tag = timestamp_text t @ '' ['' @ fmt_int pid @ ''] '' @ tag @ '' ''"

lemma log_prefix_text:
  assumes "clock_ok t" and "0 \<le> pid" "pid < 2 ^ 31" and "length tag = 7" and "length data = MAXLINE"
  obtains d where "log_prefix t pid tag data = Inr (length (prefix_text t pid tag), d)"
    and "holds_str (prefix_text t pid tag) d" and "length d = MAXLINE"
proof -
  let ?ts = "timestamp_text t" and ?s1 = "'' ['' @ fmt_int pid @ '']''" and ?s2 = "'' '' @ tag @ '' ''"
  have ts: "length ?ts \<le> 31" by (rule timestamp_short [OF assms(1)])
  have pid: "length (fmt_int pid) \<le> 10" using assms(2,3) by (intro fmt_int_short) simp_all
  note bounds = ts pid assms(4,5) MAXLINE_def
  obtain d1 where d1: "put_str 0 ?ts data = Inr d1" "holds_str ?ts d1" "length d1 = length data"
    by (rule put_str_start [of ?ts data]) (use bounds in simp)
  obtain d2 where d2: "put_str (length ?ts) ?s1 d1 = Inr d2" "holds_str (?ts @ ?s1) d2" "length d2 = length d1"
    by (rule put_str_append [OF d1(2), of ?s1]) (use bounds d1 in simp)
  obtain d3 where d3: "put_str (length (?ts @ ?s1)) ?s2 d2 = Inr d3" "holds_str ((?ts @ ?s1) @ ?s2) d3"
    "length d3 = length d2"
    by (rule put_str_append [OF d2(2), of ?s2]) (use bounds d1 d2 in simp)
  have cut: "snprintf 32 ?ts = ?ts" using ts by (simp add: snprintf_def)
  have "log_prefix t pid tag data = Inr (length (prefix_text t pid tag), d3)"
    using d1(1) d2(1) d3(1) by (simp add: log_prefix_def timestamp_def cut prefix_text_def Let_def)
  then show ?thesis by (rule that) (use d1 d2 d3 assms(5) in \<open>simp_all add: prefix_text_def\<close>)
qed

lemma prefix_text_short:
  assumes "clock_ok t" and "0 \<le> pid" "pid < 2 ^ 31" and "length tag = 7"
  shows "length (prefix_text t pid tag) \<le> 53"
proof -
  have "length (fmt_int pid) \<le> 10" using assms(2,3) by (intro fmt_int_short) simp_all
  with timestamp_short [OF assms(1)] assms(4) show ?thesis by (simp add: prefix_text_def)
qed

text \<open>The text both functions build: prefix and message, cut at the end of the array.\<close>

lemma log_text:
  assumes "clock_ok t" and "0 \<le> pid" "pid < 2 ^ 31" and "length tag = 7" and "length data = MAXLINE"
    and nul: "CHR 0x00 \<notin> set tag" "CHR 0x00 \<notin> set message"
  obtains i d1 d2 where "log_prefix t pid tag data = Inr (i, d1)" and "log_message i message d1 = Inr d2"
    and "c_str d2 = Inr (take 255 (prefix_text t pid tag @ message))"
proof -
  let ?p = "prefix_text t pid tag"
  obtain d1 where d1: "log_prefix t pid tag data = Inr (length ?p, d1)" "holds_str ?p d1" "length d1 = MAXLINE"
    by (rule log_prefix_text [OF assms(1-5)])
  have p: "length ?p \<le> 53" by (rule prefix_text_short [OF assms(1-4)])
  have n: "sz_sub MAXLINE (length ?p) = 256 - length ?p"
    using p by (simp add: sz_sub_exact MAXLINE_def kMaxSize_def)
  obtain d2 where d2: "put_str (length ?p) (take (255 - length ?p) message) d1 = Inr d2"
    "holds_str (?p @ take (255 - length ?p) message) d2"
    by (rule put_str_append [OF d1(2), of "take (255 - length ?p) message"])
      (use p d1(3) in \<open>simp add: MAXLINE_def\<close>)
  have "log_message (length ?p) message d1 = Inr d2"
    using p d2(1) by (simp add: log_message_def n snprintf_def)
  moreover have "c_str d2 = Inr (?p @ take (255 - length ?p) message)"
  proof (rule c_str_holds [OF d2(2)])
    show "CHR 0x00 \<notin> set (?p @ take (255 - length ?p) message)"
      using nul by (auto simp: prefix_text_def timestamp_no_nul dest: in_set_takeD)
  qed
  ultimately show ?thesis using d1(1) p by (intro that) simp_all
qed

lemma level_tags: "0 \<le> level \<Longrightarrow> level \<le> 5 \<Longrightarrow>
   length (log_level_str ! nat level) = 7 \<and> CHR 0x00 \<notin> set (log_level_str ! nat level)"
proof -
  assume "0 \<le> level" "level \<le> 5"
  then have "level \<in> {0, 1, 2, 3, 4, 5}" by auto
  then show ?thesis by (auto simp: log_level_str_def)
qed

lemma base_name_slash: "CHR ''/'' \<notin> set name \<Longrightarrow> base_name (dir @ CHR ''/'' # name) = Inr name"
proof -
  assume "CHR ''/'' \<notin> set name"
  then have "takeWhile (\<lambda>c. c \<noteq> CHR ''/'') (rev name @ CHR ''/'' # rev dir) = rev name"
    by (subst takeWhile_append2) auto
  then show ?thesis by (simp add: base_name_def)
qed

text \<open>The same for \<open>LOG_SYSERR\<close> and \<open>LOG_SYSFATAL\<close>, with the text of the errno in between.\<close>

lemma log_sys_line:
  assumes "clock_ok t" and "0 \<le> pid" "pid < 2 ^ 31" and "length data = MAXLINE"
    and "CHR 0x00 \<notin> set message" and "CHR ''/'' \<notin> set name"
  shows "log_sys dprintf_ok t pid data strerror (dir @ ''/'' @ name) line to_abort message l =
     (let out = take 255 (prefix_text t pid (if to_abort then ''[SYSFA]'' else ''[SYSER]'') @ message)
                @ '': '' @ strerror @ '' - '' @ name @ '':'' @ fmt_int line @ [CHR 0x0A] in
      Inr (if dprintf_ok (lg_fd l) out then l\<lparr>lg_out := lg_out l @ [(lg_fd l, out)]\<rparr> else l, to_abort))"
proof -
  let ?tag = "if to_abort then ''[SYSFA]'' else ''[SYSER]''"
  obtain i d1 d2 where "log_prefix t pid ?tag data = Inr (i, d1)" "log_message i message d1 = Inr d2"
    "c_str d2 = Inr (take 255 (prefix_text t pid ?tag @ message))"
    by (rule log_text [OF assms(1-3) _ assms(4), of ?tag message]) (use assms(5) in \<open>simp_all split: if_splits\<close>)
  with base_name_slash [OF assms(6), of dir] show ?thesis by (simp add: log_sys_def Let_def)
qed

subsection \<open>Properties\<close>

text \<open>C36. Logging writes exactly one line per message that passes the level filter, and stays
  inside its array.  After \<open>setLogLevel k\<close> a message of level \<open>level\<close> is written if the level
  is at least \<open>k\<close> (clamped to the valid range) or it is an error, whatever the stack array
  held before and however long the message is: time, process, level and message cut at 255
  characters, then file name and line, to the chosen descriptor; \<open>abort()\<close> follows exactly
  for \<open>LOG_FATAL\<close>.\<close>

theorem log_lines:
  assumes "clock_ok t" and "0 \<le> pid" "pid < 2 ^ 31" and "length data = MAXLINE"
    and "0 \<le> level" "level \<le> LOG_LEVEL_FATAL"
    and "CHR 0x00 \<notin> set message" and "CHR ''/'' \<notin> set name"
  shows "log_at dprintf_ok t pid data (dir @ ''/'' @ name) line level message (setLogFd fd (setLogLevel k l)) =
     (let l0 = setLogFd fd (setLogLevel k l); to = (if fd \<le> 0 then 1 else fd);
          out = take 255 (prefix_text t pid (log_level_str ! nat level) @ message)
                @ '' - '' @ name @ '':'' @ fmt_int line @ [CHR 0x0A] in
      if max 0 (min 5 k) \<le> level \<or> LOG_LEVEL_ERROR \<le> level
      then Inr (l0\<lparr>lg_out := lg_out l @ [if dprintf_ok to out then (to, out) else (2, ''log failed'')]\<rparr>,
                level = LOG_LEVEL_FATAL)
      else Inr (l0, False))"
proof -
  let ?tag = "log_level_str ! nat level" and ?l0 = "setLogFd fd (setLogLevel k l)"
  have lvl: "level \<le> 5" using assms(6) by (simp add: log_levels)
  obtain i d1 d2 where d: "log_prefix t pid ?tag data = Inr (i, d1)" "log_message i message d1 = Inr d2"
    "c_str d2 = Inr (take 255 (prefix_text t pid ?tag @ message))"
    using log_text [OF assms(1-3) _ assms(4), of ?tag message] level_tags [OF assms(5) lvl] assms(7) by metis
  have inb: "nat level < length log_level_str" using assms(5) lvl by (simp add: log_level_str_def)
  have fields: "lg_level ?l0 = max 0 (min 5 k)" "lg_fd ?l0 = (if fd \<le> 0 then 1 else fd)" "lg_out ?l0 = lg_out l"
    by (auto simp: setLogFd_def setLogLevel_def log_levels STDOUT_FILENO_def)
  have base: "log_base dprintf_ok t pid data (dir @ ''/'' @ name) line level ab message ?l0 =
      (let to = (if fd \<le> 0 then 1 else fd);
           out = take 255 (prefix_text t pid ?tag @ message) @ '' - '' @ name @ '':'' @ fmt_int line @ [CHR 0x0A] in
       Inr (?l0\<lparr>lg_out := lg_out l @ [if dprintf_ok to out then (to, out) else (2, ''log failed'')]\<rparr>, ab))" for ab
    using d inb assms(5) base_name_slash [OF assms(8), of dir]
    by (simp add: log_base_def fields STDERR_FILENO_def Let_def)
  show ?thesis
    using base [of False] base [of "level = LOG_LEVEL_FATAL"]
    by (simp add: log_at_def fields log_levels Let_def)
qed

definition some_clock :: clock where
  "some_clock = \<lparr> tm_year = 124, tm_mon = 0, tm_mday = 9, tm_hour = 12, tm_min = 30, tm_sec = 5, tv_usec = 42 \<rparr>"

theorem log_lines_witness:
  "log_at (\<lambda>fd s. True) some_clock 17 (replicate 256 (CHR ''x'')) ''a/b.cpp'' 7 2 ''hi'' (setLogFd 0 (setLogLevel 1 (new_logger True)))
     = Inr (\<lparr> lg_level = 1, lg_fd = 1,
         lg_out = [(1, ''20240109 12:30:05.000042 [17] [INFO]  hi - b.cpp:7'' @ [CHR 0x0A])] \<rparr>, False)"
proof -
  have d: "dec_nat 124 = ''124''" "dec_nat 2024 = ''2024''" "dec_nat (Suc 0) = ''1''" "dec_nat 9 = ''9''" "dec_nat 12 = ''12''"
    "dec_nat 30 = ''30''" "dec_nat 5 = ''5''" "dec_nat 42 = ''42''" "dec_nat 17 = ''17''" "dec_nat 7 = ''7''"
    by (simp_all add: dec_nat.simps char_of_eq_iff)
  have pads: "pad (CHR ''0'') 2 [x] = [CHR ''0'', x]" "pad (CHR ''0'') 2 [x, y] = [x, y]"
    "pad (CHR ''0'') 6 [x, y] = ''0000'' @ [x, y]" "pad (CHR '' '') 4 [x, y, z, w] = [x, y, z, w]" for x y z w
    by (simp_all add: pad_def numeral_eq_Suc)
  have "prefix_text some_clock 17 ''[INFO] '' = ''20240109 12:30:05.000042 [17] [INFO]  ''"
    by (simp add: prefix_text_def timestamp_text_def some_clock_def fmt_zero_def fmt_int_def d pads)
  moreover have "fmt_int 7 = ''7''" by (simp add: fmt_int_def d)
  ultimately show ?thesis
    using log_lines [of some_clock 17 "replicate 256 (CHR ''x'')" 2 "''hi''" "''b.cpp''" "\<lambda>fd s. True" "''a''" 7 0 1 "new_logger True"]
    by (simp add: clock_ok_def some_clock_def MAXLINE_def log_levels log_level_str_def setLogFd_def setLogLevel_def
        new_logger_def STDOUT_FILENO_def)
qed

end
