(* ===== verification/LoopProgress.thy ===== *)
theory LoopProgress
  imports EventLoop
begin

text \<open>
  What becomes of a task in the long run: the infinite executions of the loop thread and the other threads
  of \<open>EventLoop\<close>, with stuttering, and the weak fairness under which every queued task is run.
\<close>

subsection \<open>Executions\<close>

definition loop_run ::
  "('e \<Rightarrow> int + 'e) \<Rightarrow> ('e \<Rightarrow> int + 'e) \<Rightarrow> ('e \<Rightarrow> bool) \<Rightarrow> ('k, 'e) evloop \<Rightarrow> (nat \<Rightarrow> ('k, 'e) sys) \<Rightarrow> bool" where
  "loop_run efd_write efd_read readable l f \<longleftrightarrow>
     f 0 = sys_init l \<and> (\<forall>i. f (Suc i) = f i \<or> sys_step efd_write efd_read readable (f i) (f (Suc i)))"

text \<open>The loop thread has nothing to do: it is in \<open>epoll_wait\<close> with nothing to read, or behind \<open>loop()\<close>.\<close>

definition loop_waits :: "('e \<Rightarrow> bool) \<Rightarrow> ('k, 'e) sys \<Rightarrow> bool" where
  "loop_waits readable s \<longleftrightarrow> sy_pc s = LDone \<or> sy_pc s = LPoll \<and> \<not> readable (el_wakeupfd (sy_loop s))"

text \<open>
  Fairness: the loop thread calls \<open>loop()\<close>, its callbacks and tasks return, and \<open>epoll_wait\<close> returns when the
  wake-up descriptor stays readable; another thread gets out of \<open>addTask\<close> and \<open>quit\<close>.
\<close>

definition loop_fair :: "('e \<Rightarrow> bool) \<Rightarrow> (nat \<Rightarrow> ('k, 'e) sys) \<Rightarrow> bool" where
  "loop_fair readable f \<longleftrightarrow> (\<forall>i. \<exists>j\<ge>i. loop_waits readable (f j) \<or> core (sy_pc (f j)) \<noteq> core (sy_pc (f i)))"

definition threads_fair :: "(nat \<Rightarrow> ('k, 'e) sys) \<Rightarrow> bool" where
  "threads_fair f \<longleftrightarrow>
     (\<forall>i tid. sy_other (f i) tid \<noteq> OIdle \<longrightarrow> (\<exists>j\<ge>i. sy_other (f j) tid \<noteq> sy_other (f i) tid))"

text \<open>Nobody calls \<open>quit\<close>, and the loop thread queues nothing before \<open>loop()\<close>.\<close>

definition undisturbed :: "(nat \<Rightarrow> ('k, 'e) sys) \<Rightarrow> bool" where
  "undisturbed f \<longleftrightarrow> (\<forall>i. \<not> el_quit (sy_loop (f i)) \<and> \<not> sy_early (f i))"

lemma loop_run_next:
  "loop_run w r rd l f \<Longrightarrow> f (Suc i) = f i \<or> sys_step w r rd (f i) (f (Suc i))"
  by (simp add: loop_run_def)

lemma loop_run_reach: "loop_run w r rd l f \<Longrightarrow> sys_steps w r rd (sys_init l) (f i)"
proof (induction i)
  case 0
  then show ?case by (simp add: loop_run_def sys_steps.stay)
next
  case (Suc i)
  then show ?case using loop_run_next [OF Suc.prems, of i] sys_steps.more [OF Suc.IH] by metis
qed

lemma loop_run_inv:
  assumes "eventfd_kernel w r rd" and "fresh_loop l" and "loop_run w r rd l f"
  shows "sys_inv rd (f i)"
  using eventfd_kernel.sys_inv_steps [OF assms(1) loop_run_reach [OF assms(3)]] sys_inv_init [of l rd] assms(2)
  by (simp add: fresh_loop_def)

subsection \<open>Changes\<close>

text \<open>If a value of the state changes some time, there is a step that changes it.\<close>

lemma first_change:
  assumes "loop_run w r rd l f" and "v (f i) = p" and "i \<le> j" and "v (f j) \<noteq> p"
  obtains k where "i \<le> k" and "v (f k) = p" and "sys_step w r rd (f k) (f (Suc k))" and "v (f (Suc k)) \<noteq> p"
proof -
  have "\<exists>k. i \<le> k \<and> v (f k) = p \<and> v (f (Suc k)) \<noteq> p"
  proof (rule ccontr)
    assume no: "\<nexists>k. i \<le> k \<and> v (f k) = p \<and> v (f (Suc k)) \<noteq> p"
    have "v (f j) = p" using assms(3)
      by (induction rule: dec_induct) (use assms(2) no in auto)
    with assms(4) show False ..
  qed
  then obtain k where k: "i \<le> k" "v (f k) = p" "v (f (Suc k)) \<noteq> p" by blast
  from loop_run_next [OF assms(1), of k] k(2,3) have "sys_step w r rd (f k) (f (Suc k))" by auto
  with k that show ?thesis by blast
qed

text \<open>The points the loop thread goes to from the point \<open>p\<close> while nobody calls \<open>quit\<close>.\<close>

fun next_pcs :: "'k list \<Rightarrow> 'k lpc \<Rightarrow> 'k lpc set" where
  "next_pcs tasks LIdle = {LCheck}"
| "next_pcs tasks LCheck = {LPoll}"
| "next_pcs tasks LPoll = {LHandle True, LHandle False}"
| "next_pcs tasks (LHandle woken) = (if woken then {LHandle False} else {LTasks})"
| "next_pcs tasks LTasks = {LSwap}"
| "next_pcs tasks LSwap = {LRun tasks}"
| "next_pcs tasks (LRun ts) = (if ts = [] then {LCheck} else {LRun (tl ts)})"
| "next_pcs tasks pc = {}"

lemma core_step:
  "sys_step w r rd s s' \<Longrightarrow> pc_inv s \<Longrightarrow> core (sy_pc s') \<noteq> core (sy_pc s) \<Longrightarrow> \<not> el_quit (sy_loop s) \<Longrightarrow>
   core (sy_pc s') \<in> next_pcs (el_tasks (sy_loop s)) (core (sy_pc s))"
  by (erule sys_step.cases) (auto simp: pc_inv_def)

text \<open>What ran and what was taken out of the queue only grows.\<close>

definition taken :: "('k, 'e) sys \<Rightarrow> 'k list" where
  "taken s = sy_ran s @ unrun (core (sy_pc s))"

lemma taken_step: "sys_step w r rd s s' \<Longrightarrow> pc_inv s \<Longrightarrow> length (taken s) \<le> length (taken s')"
  by (erule sys_step.cases) (auto simp: pc_inv_def taken_def)

lemma ran_step: "sys_step w r rd s s' \<Longrightarrow> length (sy_ran s) \<le> length (sy_ran s')"
  by (erule sys_step.cases) auto

lemma added_step: "sys_step w r rd s s' \<Longrightarrow> length (sy_added s) \<le> length (sy_added s')"
  by (erule sys_step.cases) auto

lemma wakeupfd_step:
  "eventfd_kernel w r rd \<Longrightarrow> sys_step w r rd s s' \<Longrightarrow> sy_pc s = LPoll \<Longrightarrow> rd (el_wakeupfd (sy_loop s)) \<Longrightarrow>
   rd (el_wakeupfd (sy_loop s'))"
  by (erule sys_step.cases) (auto simp: eventfd_kernel.wakeup_readable)

lemma pushed_step:
  "eventfd_kernel w r rd \<Longrightarrow> sys_step w r rd s s' \<Longrightarrow> sy_other s tid = OPushed \<Longrightarrow> sy_other s' tid \<noteq> OPushed \<Longrightarrow>
   rd (el_wakeupfd (sy_loop s')) \<and> sy_pc s' = sy_pc s"
  by (erule sys_step.cases) (auto simp: eventfd_kernel.wakeup_readable split: if_splits)

lemma grows:
  fixes g :: "('k, 'e) sys \<Rightarrow> nat"
  assumes "loop_run w r rd l f" and "\<And>i. sys_step w r rd (f i) (f (Suc i)) \<Longrightarrow> g (f i) \<le> g (f (Suc i))" and "i \<le> j"
  shows "g (f i) \<le> g (f j)"
  using assms(3)
proof (induction rule: dec_induct)
  case (step n)
  then show ?case using loop_run_next [OF assms(1), of n] assms(2) [of n] by (metis order_trans)
qed simp

subsection \<open>Progress\<close>

definition fair_loop ::
  "('e \<Rightarrow> int + 'e) \<Rightarrow> ('e \<Rightarrow> int + 'e) \<Rightarrow> ('e \<Rightarrow> bool) \<Rightarrow> ('k, 'e) evloop \<Rightarrow> (nat \<Rightarrow> ('k, 'e) sys) \<Rightarrow> bool" where
  "fair_loop w r rd l f \<longleftrightarrow>
     eventfd_kernel w r rd \<and> fresh_loop l \<and> loop_run w r rd l f \<and> loop_fair rd f \<and> threads_fair f \<and> undisturbed f"

lemma fair_loopD:
  assumes "fair_loop w r rd l f"
  shows "eventfd_kernel w r rd" and "loop_run w r rd l f" and "sys_inv rd (f i)"
    and "\<not> el_quit (sy_loop (f i))" and "\<not> sy_early (f i)"
    and "\<exists>j\<ge>i. loop_waits rd (f j) \<or> core (sy_pc (f j)) \<noteq> core (sy_pc (f i))"
    and "sy_other (f i) tid \<noteq> OIdle \<Longrightarrow> \<exists>j\<ge>i. sy_other (f j) tid \<noteq> sy_other (f i) tid"
  using assms loop_run_inv [of w r rd l f i] unfolding fair_loop_def undisturbed_def loop_fair_def threads_fair_def
  by blast+

lemma never_done:
  assumes "fair_loop w r rd l f"
  shows "sy_pc (f i) \<noteq> LDone"
proof (induction i)
  case 0
  show ?case using assms by (simp add: fair_loop_def loop_run_def sys_init_def)
next
  case (Suc i)
  have "sys_step w r rd s s' \<Longrightarrow> pc_inv s \<Longrightarrow> \<not> el_quit (sy_loop s) \<Longrightarrow> sy_pc s \<noteq> LDone \<Longrightarrow> sy_pc s' \<noteq> LDone" for s s'
    by (erule sys_step.cases) (auto simp: pc_inv_def)
  with loop_run_next [OF fair_loopD(2) [OF assms], of i] fair_loopD(3,4) [OF assms, of i] Suc show ?case
    by (auto simp: sys_inv_def)
qed

text \<open>From every point but \<open>epoll_wait\<close> the loop thread goes on to the next one.\<close>

lemma loop_changes:
  assumes fair: "fair_loop w r rd l f" and "core (sy_pc (f i)) = p" and "i \<le> j" and "core (sy_pc (f j)) \<noteq> p"
  obtains k where "i \<le> k" and "sys_step w r rd (f k) (f (Suc k))" and "core (sy_pc (f k)) = p"
    and "core (sy_pc (f (Suc k))) \<in> next_pcs (el_tasks (sy_loop (f k))) p"
proof -
  obtain k where k: "i \<le> k" "core (sy_pc (f k)) = p" "sys_step w r rd (f k) (f (Suc k))" "core (sy_pc (f (Suc k))) \<noteq> p"
    using first_change [where v = "\<lambda>s. core (sy_pc s)", OF fair_loopD(2) [OF fair] assms(2-4)] by metis
  with core_step [OF k(3)] fair_loopD(3,4) [OF fair, of k] that show ?thesis by (auto simp: sys_inv_def)
qed

lemma loop_moves:
  assumes fair: "fair_loop w r rd l f" and "core (sy_pc (f i)) = p" and "p \<noteq> LPoll"
  obtains k where "i \<le> k" and "sys_step w r rd (f k) (f (Suc k))" and "core (sy_pc (f k)) = p"
    and "core (sy_pc (f (Suc k))) \<in> next_pcs (el_tasks (sy_loop (f k))) p"
proof -
  obtain j where j: "i \<le> j" "loop_waits rd (f j) \<or> core (sy_pc (f j)) \<noteq> p"
    using fair_loopD(6) [OF fair, of i] assms(2) by blast
  have "core (sy_pc (f j)) \<noteq> p"
    using j(2) never_done [OF fair, of j] assms(3) by (auto simp: loop_waits_def)
  from loop_changes [OF fair assms(2) j(1) this] that show ?thesis by blast
qed

text \<open>While a task is queued, the loop thread also comes out of \<open>epoll_wait\<close>.\<close>

lemma poll_stays_readable:
  assumes fair: "fair_loop w r rd l f" and "i \<le> j" and "rd (el_wakeupfd (sy_loop (f i)))"
    and "\<And>m. i \<le> m \<Longrightarrow> core (sy_pc (f m)) = LPoll"
  shows "rd (el_wakeupfd (sy_loop (f j)))"
  using assms(2)
proof (induction rule: dec_induct)
  case base
  show ?case by (rule assms(3))
next
  case (step n)
  have "pc_inv (f n)" using fair_loopD(3) [OF fair, of n] by (simp add: sys_inv_def)
  then have "sy_pc (f n) = LPoll"
    using assms(4) [OF step.hyps(1)] by (cases "sy_pc (f n)") (auto simp: pc_inv_def)
  with loop_run_next [OF fair_loopD(2) [OF fair], of n] wakeupfd_step [OF fair_loopD(1) [OF fair]] step.IH
  show ?case by auto
qed

lemma poll_cannot_last:
  assumes fair: "fair_loop w r rd l f" and poll: "\<And>m. i \<le> m \<Longrightarrow> core (sy_pc (f m)) = LPoll"
    and tasks: "\<And>m. i \<le> m \<Longrightarrow> el_tasks (sy_loop (f m)) \<noteq> []"
  shows False
proof -
  have pc: "sy_pc (f m) = LPoll" if "i \<le> m" for m
    using poll [OF that] fair_loopD(3) [OF fair, of m] by (cases "sy_pc (f m)") (auto simp: sys_inv_def pc_inv_def)
  have waits: "\<exists>j\<ge>m. \<not> rd (el_wakeupfd (sy_loop (f j)))" if "i \<le> m" for m
    using fair_loopD(6) [OF fair, of m] poll that never_done [OF fair] by (auto simp: loop_waits_def)
  then obtain j where j: "i \<le> j" "\<not> rd (el_wakeupfd (sy_loop (f j)))" by blast
  have "wakeup_inv rd (f j)" using fair_loopD(3) [OF fair, of j] by (simp add: sys_inv_def)
  then obtain tid where tid: "sy_other (f j) tid = OPushed"
    using pc [OF j(1)] tasks [OF j(1)] fair_loopD(5) [OF fair, of j] j(2) by (auto simp: wakeup_inv_def signalled_def)
  then obtain m where m: "j \<le> m" "sy_other (f m) tid \<noteq> OPushed" using fair_loopD(7) [OF fair, of j tid] by auto
  obtain k where k: "j \<le> k" "sy_other (f k) tid = OPushed" "sys_step w r rd (f k) (f (Suc k))" "sy_other (f (Suc k)) tid \<noteq> OPushed"
    using first_change [where v = "\<lambda>s. sy_other s tid", OF fair_loopD(2) [OF fair] tid m] by metis
  then have "rd (el_wakeupfd (sy_loop (f (Suc k))))" using pushed_step [OF fair_loopD(1) [OF fair]] by blast
  then have "rd (el_wakeupfd (sy_loop (f m)))" if "Suc k \<le> m" for m
    using poll_stays_readable [OF fair that] poll j(1) k(1) by simp
  moreover have "i \<le> Suc k" using j(1) k(1) by simp
  ultimately show False using waits by blast
qed

text \<open>Once \<open>n\<close> tasks have been added, \<open>n\<close> tasks run.\<close>

definition delivers :: "(nat \<Rightarrow> ('k, 'e) sys) \<Rightarrow> nat \<Rightarrow> nat \<Rightarrow> bool" where
  "delivers f n i \<longleftrightarrow> (\<exists>j\<ge>i. n \<le> length (sy_ran (f j)))"

lemma delivers_later: "delivers f n j \<Longrightarrow> i \<le> j \<Longrightarrow> delivers f n i"
  unfolding delivers_def using order_trans by blast

lemma run_delivers:
  assumes fair: "fair_loop w r rd l f"
  shows "core (sy_pc (f i)) = LRun ts \<Longrightarrow> n \<le> length (taken (f i)) \<Longrightarrow> delivers f n i"
    and "core (sy_pc (f i)) = LRun ts \<Longrightarrow> \<exists>j\<ge>i. core (sy_pc (f j)) = LCheck"
proof (induction ts arbitrary: i)
  case Nil
  {
    case 1
    then show ?case by (auto simp: delivers_def taken_def)
  next
    case 2
    obtain k where "i \<le> k" "core (sy_pc (f (Suc k))) = LCheck"
      by (rule loop_moves [OF fair 2]) auto
    then show ?case by (intro exI [of _ "Suc k"]) simp
  }
next
  case (Cons t ts)
  note grow = grows [OF fair_loopD(2) [OF fair], of "\<lambda>s. length (taken s)"]
  have inv: "pc_inv (f k)" for k using fair_loopD(3) [OF fair, of k] by (simp add: sys_inv_def)
  {
    case 1
    obtain k where k: "i \<le> k" "core (sy_pc (f (Suc k))) = LRun ts"
      by (rule loop_moves [OF fair 1(1)]) auto
    have "length (taken (f i)) \<le> length (taken (f (Suc k)))"
      by (rule grow) (use taken_step [OF _ inv] k(1) in auto)
    with Cons.IH(1) [OF k(2)] 1(2) k(1) delivers_later [of f n "Suc k" i] show ?case by simp
  next
    case 2
    obtain k where k: "i \<le> k" "core (sy_pc (f (Suc k))) = LRun ts"
      by (rule loop_moves [OF fair 2]) auto
    from Cons.IH(2) [OF k(2)] obtain j where "Suc k \<le> j" "core (sy_pc (f j)) = LCheck" by blast
    with k(1) show ?case by (intro exI [of _ j]) simp
  }
qed


lemma added_grows:
  assumes "fair_loop w r rd l f" and "i \<le> j"
  shows "length (sy_added (f i)) \<le> length (sy_added (f j))"
  by (rule grows [OF fair_loopD(2) [OF assms(1)] added_step assms(2)])

lemma swap_delivers:
  assumes fair: "fair_loop w r rd l f" and "core (sy_pc (f i)) = LSwap" and n: "n \<le> length (sy_added (f i))"
  shows "delivers f n i"
proof -
  obtain k where k: "i \<le> k" "sys_step w r rd (f k) (f (Suc k))" "core (sy_pc (f k)) = LSwap"
    "core (sy_pc (f (Suc k))) = LRun (el_tasks (sy_loop (f k)))"
    by (rule loop_moves [OF fair assms(2)]) auto
  have "fifo_inv (f k)" using fair_loopD(3) [OF fair, of k] by (simp add: sys_inv_def)
  then have "sy_added (f k) = sy_ran (f k) @ el_tasks (sy_loop (f k))" using k(3) by (simp add: fifo_inv_def)
  moreover have "length (sy_added (f i)) \<le> length (sy_added (f k))"
    by (rule added_grows [OF fair k(1)])
  ultimately have "n \<le> length (taken (f (Suc k)))"
    using n ran_step [OF k(2)] k(4) by (simp add: taken_def)
  from run_delivers(1) [OF fair k(4) this] show ?thesis by (rule delivers_later) (use k(1) in simp)
qed

lemma next_delivers:
  assumes fair: "fair_loop w r rd l f" and "core (sy_pc (f i)) = p" and "p \<noteq> LPoll"
    and n: "n \<le> length (sy_added (f i))"
    and go: "\<And>j tasks. i \<le> j \<Longrightarrow> core (sy_pc (f j)) \<in> next_pcs tasks p \<Longrightarrow> n \<le> length (sy_added (f j)) \<Longrightarrow> delivers f n j"
  shows "delivers f n i"
proof -
  obtain k where k: "i \<le> k" "core (sy_pc (f (Suc k))) \<in> next_pcs (el_tasks (sy_loop (f k))) p"
    by (rule loop_moves [OF fair assms(2,3)])
  have "length (sy_added (f i)) \<le> length (sy_added (f (Suc k)))"
    by (rule added_grows [OF fair]) (use k(1) in simp)
  with go [OF _ k(2)] k(1) n have "delivers f n (Suc k)" by simp
  then show ?thesis by (rule delivers_later) (use k(1) in simp)
qed

lemma handling_delivers:
  assumes fair: "fair_loop w r rd l f" and "core (sy_pc (f i)) = LTasks \<or> (\<exists>woken. core (sy_pc (f i)) = LHandle woken)"
    and "n \<le> length (sy_added (f i))"
  shows "delivers f n i"
proof -
  have tasks: "delivers f n i" if "core (sy_pc (f i)) = LTasks" "n \<le> length (sy_added (f i))" for i
    by (rule next_delivers [OF fair that(1) _ that(2)]) (auto intro: swap_delivers [OF fair])
  have handled: "delivers f n i" if "core (sy_pc (f i)) = LHandle False" "n \<le> length (sy_added (f i))" for i
    by (rule next_delivers [OF fair that(1) _ that(2)]) (auto intro: tasks)
  have "delivers f n i" if "core (sy_pc (f i)) = LHandle True" "n \<le> length (sy_added (f i))" for i
    by (rule next_delivers [OF fair that(1) _ that(2)]) (auto intro: handled)
  with tasks handled assms(2,3) show ?thesis by (metis (full_types))
qed

lemma poll_delivers:
  assumes fair: "fair_loop w r rd l f" and poll: "core (sy_pc (f i)) = LPoll" and n: "n \<le> length (sy_added (f i))"
  shows "delivers f n i"
proof (rule ccontr)
  assume no: "\<not> delivers f n i"
  have added: "n \<le> length (sy_added (f m))" if "i \<le> m" for m
    using added_grows [OF fair that] n by simp
  have "core (sy_pc (f m)) = LPoll" if "i \<le> m" for m
  proof (rule ccontr)
    assume away: "core (sy_pc (f m)) \<noteq> LPoll"
    note changes = loop_changes [OF fair poll that away]
    obtain k woken where k: "i \<le> k" "core (sy_pc (f (Suc k))) = LHandle woken"
      by (rule changes) auto
    then have "delivers f n (Suc k)" by (intro handling_delivers [OF fair]) (auto intro: added)
    with no delivers_later [of f n "Suc k" i] k(1) show False by simp
  qed
  moreover from this have "el_tasks (sy_loop (f m)) \<noteq> []" if "i \<le> m" for m
    using fair_loopD(3) [OF fair, of m] that added [OF that] no
    by (auto simp: sys_inv_def fifo_inv_def delivers_def)
  ultimately show False by (rule poll_cannot_last [OF fair])
qed

lemma all_delivered:
  assumes fair: "fair_loop w r rd l f" and "n \<le> length (sy_added (f i))"
  shows "delivers f n i"
proof -
  have check: "delivers f n i" if "core (sy_pc (f i)) = LCheck" "n \<le> length (sy_added (f i))" for i
    by (rule next_delivers [OF fair that(1) _ that(2)]) (auto intro: poll_delivers [OF fair])
  have idle: "delivers f n i" if "core (sy_pc (f i)) = LIdle" "n \<le> length (sy_added (f i))" for i
    by (rule next_delivers [OF fair that(1) _ that(2)]) (auto intro: check)
  have running: "delivers f n i" if "core (sy_pc (f i)) = LRun ts" "n \<le> length (sy_added (f i))" for i ts
  proof -
    note check_again = run_delivers(2) [OF fair that(1)]
    from check_again obtain j where j: "i \<le> j" "core (sy_pc (f j)) = LCheck" by blast
    have "n \<le> length (sy_added (f j))" using added_grows [OF fair j(1)] that(2) by simp
    from delivers_later [OF check [OF j(2) this] j(1)] show ?thesis .
  qed
  show ?thesis
    using assms(2) check idle running poll_delivers [OF fair] handling_delivers [OF fair] swap_delivers [OF fair]
      never_done [OF fair, of i] fair_loopD(3) [OF fair, of i]
    by (cases "core (sy_pc (f i))") (auto simp: sys_inv_def pc_inv_def elim: core.elims)
qed


lemma added_extends:
  assumes "loop_run w r rd l f" and "i \<le> j"
  shows "\<exists>more. sy_added (f j) = sy_added (f i) @ more"
  using assms(2)
proof (induction rule: dec_induct)
  case (step n)
  have "sys_step w r rd s s' \<Longrightarrow> \<exists>more. sy_added s' = sy_added s @ more" for s s'
    by (erule sys_step.cases) auto
  with loop_run_next [OF assms(1), of n] step.IH show ?case by (metis append_assoc)
qed simp

subsection \<open>Properties\<close>

text \<open>C14. Each task handed to \<open>addTask\<close> is run exactly once, by the loop thread, in the order in which the tasks
  were queued.  In every state of every execution of the loop thread and any number of other threads, the
  tasks that ran, those of the round in progress and those still queued are together exactly the tasks
  added, in that order; and if the execution is fair (the loop thread calls \<open>loop()\<close>, callbacks and tasks
  return, \<open>epoll_wait\<close> returns when the wake-up descriptor stays readable, the other threads get out of
  \<open>addTask\<close>), nobody calls \<open>quit\<close> and the loop thread queued nothing before \<open>loop()\<close>, every task that has been
  added is run later on.  Tasks queued after \<open>quit\<close> may stay in the queue, as may those queued by the loop
  thread before \<open>loop()\<close>.  It relies on \<open>eventfd\<close> as documented.\<close>

theorem tasks_exactly_once:
  assumes "eventfd_kernel efd_write efd_read readable" and "fresh_loop l"
    and "loop_run efd_write efd_read readable l f"
  shows "sy_ran (f i) @ unrun (core (sy_pc (f i))) @ el_tasks (sy_loop (f i)) = sy_added (f i) \<and>
    (loop_fair readable f \<and> threads_fair f \<and> undisturbed f \<longrightarrow>
       (\<exists>j\<ge>i. \<exists>later. sy_ran (f j) = sy_added (f i) @ later))"
proof (intro conjI impI)
  have inv: "sy_ran (f j) @ unrun (core (sy_pc (f j))) @ el_tasks (sy_loop (f j)) = sy_added (f j)" for j
    using loop_run_inv [OF assms, of j] by (simp add: sys_inv_def fifo_inv_def)
  then show "sy_ran (f i) @ unrun (core (sy_pc (f i))) @ el_tasks (sy_loop (f i)) = sy_added (f i)" .
  assume "loop_fair readable f \<and> threads_fair f \<and> undisturbed f"
  then have fair: "fair_loop efd_write efd_read readable l f" using assms by (simp add: fair_loop_def)
  obtain j where j: "i \<le> j" "length (sy_added (f i)) \<le> length (sy_ran (f j))"
    using all_delivered [OF fair order_refl, of i] by (auto simp: delivers_def)
  obtain more where "sy_added (f j) = sy_added (f i) @ more"
    using added_extends [OF assms(3) j(1)] by blast
  with inv [of j] j(2) have "\<exists>later. sy_ran (f j) = sy_added (f i) @ later"
    by (metis append_eq_append_conv_if append_take_drop_id)
  with j(1) show "\<exists>j\<ge>i. \<exists>later. sy_ran (f j) = sy_added (f i) @ later" by blast
qed

text \<open>The loop thread enters \<open>epoll_wait\<close>; thread 2 queues the task 7 and wakes it; the task runs and the loop
  waits again.\<close>

definition demo_state :: "nat lpc \<Rightarrow> opc \<Rightarrow> nat list \<Rightarrow> nat list \<Rightarrow> nat list \<Rightarrow> nat \<Rightarrow> (nat, nat) sys" where
  "demo_state pc other added done_tasks tasks fd =
     \<lparr> sy_loop = example_loop\<lparr>el_looping := (pc \<noteq> LIdle), el_tasks := tasks, el_wakeupfd := fd,
         el_runningTasks := in_runTasks pc\<rparr>,
       sy_pc = pc, sy_other = (\<lambda>_. OIdle)(2 := other), sy_added = added, sy_ran = done_tasks, sy_early = False \<rparr>"

definition demo_states :: "(nat, nat) sys list" where
  "demo_states =
     [demo_state LIdle OIdle [] [] [] 0, demo_state LCheck OIdle [] [] [] 0, demo_state LPoll OIdle [] [] [] 0,
      demo_state LPoll OPushed [7] [] [7] 0, demo_state LPoll OIdle [7] [] [7] 1,
      demo_state (LHandle True) OIdle [7] [] [7] 1, demo_state (LHandle False) OIdle [7] [] [7] 0,
      demo_state LTasks OIdle [7] [] [7] 0, demo_state LSwap OIdle [7] [] [7] 0,
      demo_state (LRun [7]) OIdle [7] [] [] 0, demo_state (LRun []) OIdle [7] [7] [] 0,
      demo_state LCheck OIdle [7] [7] [] 0, demo_state LPoll OIdle [7] [7] [] 0]"

definition demo_run :: "nat \<Rightarrow> (nat, nat) sys" where
  "demo_run i = demo_states ! min i 12"

lemma demo_steps:
  "i < 12 \<Longrightarrow> sys_step counter_write counter_read (\<lambda>n. 0 < n) (demo_states ! i) (demo_states ! Suc i)"
proof -
  note d = demo_state_def example_loop_def
  let ?s = "sys_step counter_write counter_read (\<lambda>n. 0 < n)"
  have "?s (demo_state LIdle OIdle [] [] [] 0) (demo_state LCheck OIdle [] [] [] 0)"
    using start [of "demo_state LIdle OIdle [] [] [] 0"] by (simp add: d)
  moreover have "?s (demo_state LCheck OIdle a r [] 0) (demo_state LPoll OIdle a r [] 0)" for a r
    using check_go [of "demo_state LCheck OIdle a r [] 0"] by (simp add: d)
  moreover have "?s (demo_state LPoll OIdle [] [] [] 0) (demo_state LPoll OPushed [7] [] [7] 0)"
    using other_push [of "demo_state LPoll OIdle [] [] [] 0" 2 _ _ _ 7] by (simp add: d push_task_def)
  moreover have "?s (demo_state LPoll OPushed [7] [] [7] 0) (demo_state LPoll OIdle [7] [] [7] 1)"
    using other_wakeup [of "demo_state LPoll OPushed [7] [] [7] 0" 2 counter_write] by (simp add: d wakeup_def counter_write_def)
  moreover have "?s (demo_state LPoll OIdle [7] [] [7] 1) (demo_state (LHandle True) OIdle [7] [] [7] 1)"
    using poll_woken [of "demo_state LPoll OIdle [7] [] [7] 1" "\<lambda>n. 0 < n"] by (simp add: d)
  moreover have "?s (demo_state (LHandle True) OIdle [7] [] [7] 1) (demo_state (LHandle False) OIdle [7] [] [7] 0)"
    using handle_wakeup [of "demo_state (LHandle True) OIdle [7] [] [7] 1" _ counter_read]
    by (simp add: d el_handleRead_def counter_read_def)
  moreover have "?s (demo_state (LHandle False) OIdle [7] [] [7] 0) (demo_state LTasks OIdle [7] [] [7] 0)"
    using handled [of "demo_state (LHandle False) OIdle [7] [] [7] 0"] by (simp add: d)
  moreover have "?s (demo_state LTasks OIdle [7] [] [7] 0) (demo_state LSwap OIdle [7] [] [7] 0)"
    using running [of "demo_state LTasks OIdle [7] [] [7] 0"] by (simp add: d)
  moreover have "?s (demo_state LSwap OIdle [7] [] [7] 0) (demo_state (LRun [7]) OIdle [7] [] [] 0)"
    using swap [of "demo_state LSwap OIdle [7] [] [7] 0"] by (simp add: d)
  moreover have "?s (demo_state (LRun [7]) OIdle [7] [] [] 0) (demo_state (LRun []) OIdle [7] [7] [] 0)"
    using run [of "demo_state (LRun [7]) OIdle [7] [] [] 0" 7 "[]"] by (simp add: d)
  moreover have "?s (demo_state (LRun []) OIdle [7] [7] [] 0) (demo_state LCheck OIdle [7] [7] [] 0)"
    using ran_all [of "demo_state (LRun []) OIdle [7] [7] [] 0"] by (simp add: d)
  moreover assume "i < 12"
  then have "i \<in> {0, 1, 2, 3, 4, 5, 6, 7, 8, 9, 10, 11}" by (simp, presburger)
  ultimately show "?s (demo_states ! i) (demo_states ! Suc i)"
    by (elim insertE emptyE) (simp_all add: demo_states_def)
qed


lemma demo_loop_run: "loop_run counter_write counter_read (\<lambda>n. 0 < n) example_loop demo_run"
proof -
  have "demo_run (Suc i) = demo_run i \<or> sys_step counter_write counter_read (\<lambda>n. 0 < n) (demo_run i) (demo_run (Suc i))" for i
    using demo_steps [of i] by (cases "i < 12") (auto simp: demo_run_def min_def)
  moreover have "demo_run 0 = sys_init example_loop"
    by (simp add: demo_run_def demo_states_def demo_state_def sys_init_def example_loop_def fun_upd_idem)
  ultimately show ?thesis by (simp add: loop_run_def)
qed

lemma demo_last: "12 \<le> i \<Longrightarrow> demo_run i = demo_state LPoll OIdle [7] [7] [] 0"
  by (simp add: demo_run_def demo_states_def min_def)

lemma demo_members: "\<exists>s \<in> set demo_states. demo_run i = s"
proof -
  have "min i 12 < length demo_states" by (simp add: demo_states_def)
  then show ?thesis unfolding demo_run_def using nth_mem by blast
qed

lemma demo_fair: "loop_fair (\<lambda>n. 0 < n) demo_run \<and> threads_fair demo_run \<and> undisturbed demo_run"
proof (intro conjI)
  show "loop_fair (\<lambda>n. 0 < n) demo_run"
    unfolding loop_fair_def
  proof
    fix i
    have "loop_waits (\<lambda>n. 0 < n) (demo_run (i + 12))"
      by (simp add: demo_last loop_waits_def demo_state_def)
    then show "\<exists>j\<ge>i. loop_waits (\<lambda>n. 0 < n) (demo_run j) \<or> core (sy_pc (demo_run j)) \<noteq> core (sy_pc (demo_run i))"
      by (intro exI [of _ "i + 12"]) simp
  qed
  show "threads_fair demo_run"
    unfolding threads_fair_def
  proof (intro allI impI)
    fix i tid assume "sy_other (demo_run i) tid \<noteq> OIdle"
    moreover have "sy_other (demo_run (i + 12)) tid = OIdle" by (simp add: demo_last demo_state_def)
    ultimately show "\<exists>j\<ge>i. sy_other (demo_run j) tid \<noteq> sy_other (demo_run i) tid"
      by (intro exI [of _ "i + 12"]) simp
  qed
  have "\<forall>s \<in> set demo_states. \<not> el_quit (sy_loop s) \<and> \<not> sy_early s"
    by (simp add: demo_states_def demo_state_def example_loop_def)
  then show "undisturbed demo_run" using demo_members unfolding undisturbed_def by metis
qed

theorem tasks_exactly_once_witness:
  "sy_added (demo_run 4) = [7] \<and> sy_ran (demo_run 4) = [] \<and> (\<exists>j\<ge>4. \<exists>later. sy_ran (demo_run j) = [7] @ later)"
  using tasks_exactly_once [OF counter.eventfd_kernel_axioms example_fresh demo_loop_run, of 4] demo_fair
  by (simp add: demo_run_def demo_states_def demo_state_def)

end
