(* ===== verification/Spec2Isabelle.thy ===== *)
theory Spec2Isabelle
  imports BufferSafety HttpStream ChatMain EchoTests StartTests SendFile Registration Dispatch TimerTests Logging LoopProgress
begin

text \<open>
  A verification development of yvent, a C++ network library built around one epoll loop per
  thread, its HTTP server, and the example programs that come with it.

  \<^bold>\<open>The program.\<close>  An \<open>EventLoop\<close> blocks in \<open>Poll::poll\<close> until a descriptor is ready or an
  eventfd wakes it, dispatches the ready \<open>Channel\<close>s, and then runs the tasks other threads have
  queued.  A \<open>TimerQueue\<close> hangs on the loop through a timerfd.  An \<open>Acceptor\<close> (server side) and a
  \<open>Connector\<close> (client side) produce descriptors that \<open>TcpServer\<close> and \<open>TcpClient\<close> wrap in
  \<open>TcpConnection\<close>s.  A connection reads into one \<open>Buffer\<close> and writes from another, or from a file;
  the application above it sees a message callback.  \<open>HttpServer\<close> is such an application: it parses
  with \<open>HttpContext\<close>, calls a request handler and serialises an \<open>HttpResponse\<close>.  The web server of
  \<open>example/WebServer\<close> is a request handler; the chat of \<open>example/chat\<close> puts a length-prefixed codec
  on the connections.

  \<^bold>\<open>The theories and the code they model\<close> (paths under \<open>src/\<close>).

  \<^item> \<open>Prelude\<close>: result type \<open>error + 'a\<close> with its bind, \<open>size_t\<close> arithmetic, running a list of
    operations, and the lemmas on lists and words shared by the components.  \<open>Byte_Queue\<close>: the contract
    of a FIFO of bytes.  \<open>Containers\<close>: \<open>std::set\<close> and \<open>std::map\<close> as sorted lists with their
    contracts.  \<open>Format\<close>: decimal printing and \<open>snprintf\<close>.
  \<^item> \<open>Buffer\<close>, \<open>BufferSafety\<close>: \<open>yvent/Buffer.h\<close>, \<open>Buffer.cpp\<close>.  The vector is a list of bytes with
    the two indices in front of it; every access is bounds-checked and every assert is a branch.
  \<^item> \<open>Channel\<close>: \<open>yvent/Channel\<close> and \<open>yvent/Poll\<close>.  Interest masks are 32-bit words, the kernel's
    interest list is a state behind \<open>epoll_ctl\<close>.
  \<^item> \<open>EventLoop\<close>: \<open>yvent/EventLoop\<close>, both as the sequential functions of the loop thread and as a
    step relation of all threads, one step per critical section or system call.  \<open>LoopProgress\<close>: the
    infinite executions of that relation and what is fair in them.  \<open>LoopLifetime\<close>: the
    constructors and destructors of the loops of a process, its thread-local variables and its open
    descriptors (with the constructors of \<open>Poll\<close> and \<open>TimerQueue\<close>).
  \<^item> \<open>TimerQueue\<close>: \<open>yvent/Timer\<close>, \<open>yvent/TimerQueue\<close> and \<open>runAt\<close>, \<open>runAfter\<close>, \<open>runEvery\<close> of the loop.
    Timers live on an explicit heap, so that a use after free is a branch.  \<open>TimerHeap\<close>: the heap over the
    life of a queue, up to its destructor.  \<open>TimerTests\<close>: \<open>testcase/testTimerQueue.cpp\<close>, loops with one timer.
  \<^item> \<open>LoopThreads\<close>: \<open>yvent/EventLoopThread\<close> (a step relation of the owner and the new thread, up to the destructor)
    and \<open>yvent/EventLoopThreadPool\<close>.
  \<^item> \<open>Dispatch\<close>: one round of \<open>EventLoop::loop\<close> with the list of active channels that \<open>Poll::poll\<close> fills.
    \<open>Registration\<close>: the kernel's interest list over the life of a connection.
  \<^item> \<open>InetAddr\<close>: \<open>yvent/InetAddr\<close>.  \<open>Acceptor\<close>: \<open>yvent/Socket\<close> and \<open>yvent/Acceptor\<close>.
  \<^item> \<open>TcpConnection\<close>, \<open>SendFile\<close>: \<open>yvent/TcpConnection\<close>; the second theory is about the file branch
    of \<open>handleWrite\<close>.  \<open>ConnProtocol\<close>: the order of the callbacks, for applications that use the connection
    inside them.  \<open>CrossThread\<close>: sends and shutdowns from several threads.  \<open>EchoTests\<close>: the message
    callbacks of \<open>testcase/testTcpConnection.cpp\<close>.  The world record holds the connection (absent once it is destroyed), the
    number of its owners, the bytes on the wire and the state of the operating system.
  \<^item> \<open>TcpServer\<close>: \<open>yvent/TcpServer\<close>.  \<open>Client\<close>: \<open>yvent/Connector\<close> and \<open>yvent/TcpClient\<close>.
  \<^item> \<open>Programs\<close>: the start of the two servers (\<open>main\<close> of \<open>example/chat/server.cpp\<close> and of \<open>WebServer.cpp\<close>) and of
    \<open>testHttpServer.cpp\<close>, on a process with sockets and the loops of all its threads, those of a pool included.  \<open>StartTests\<close>: the tests of \<open>testcase\<close> that
    construct objects and do not run a loop.
  \<^item> \<open>Logging\<close>: \<open>yvent/Logging\<close>, the array a line is built in included.
  \<^item> \<open>HttpRequest\<close>, \<open>HttpContext\<close>, \<open>HttpResponse\<close>, \<open>HttpServer\<close>: the files of the same names under
    \<open>yvent/http\<close>.  \<open>HttpPrint\<close> has the printer of requests that the parser inverts; \<open>HttpStream\<close> has the
    server's answers to arbitrary bytes as a function on lists.
  \<^item> \<open>WebServer\<close>: \<open>example/WebServer/WebServer.cpp\<close>.  \<open>Codec\<close> and \<open>Chat\<close>: \<open>example/chat\<close>.  \<open>CodecMemory\<close>:
    the input buffer of a connection with the codec.  \<open>ChatMain\<close>: the chat client as a program, from the lines
    typed at it.

  Definitions bear the names of the functions they model (with the class in front where a name is
  used twice); C++ data members are the fields of the records.  A C++ \<open>assert\<close>, an \<open>abort\<close> by
  \<open>LOG_FATAL\<close>, an uncaught exception, an access outside a vector and an access to a destroyed object are
  the values \<open>Inl e\<close>, so a theorem with \<open>Inr\<close> in its conclusion says that none of them happens.

  \<^bold>\<open>What is shown.\<close>

  \<^item> Buffer: over every sequence of calls a FIFO of bytes, never an access outside the vector, and
    the exact failures of every operation; one argument of \<open>ensureWritableBytes\<close> wraps and spoils the buffer.
  \<^item> Memory: the input buffer of a chat connection stays below a fixed size; every timer is freed once.
  \<^item> Channel and Poll: the kernel's list follows the mask until \<open>disableAll\<close>, and never again after it; a round of the loop runs the handlers the masks select, in the
    order of the report; an open connection is watched and a closed one never is.  A connection closed by a
    handler of another one in the same round is used after it is freed.
  \<^item> Loop: under every interleaving tasks run at most once and in order, in fair executions without \<open>quit\<close> every one of them
    runs, and no wake-up is lost once the loop is running; a task the loop thread queued before that can be left waiting.  A thread has at most one loop, and
    the open descriptors are those of the loops.
  \<^item> Loop threads: the start and the destruction of a loop thread, with their races; the pool's order.
  \<^item> Timers: expiry runs exactly the due timers and re-arms the descriptor; queued timers are live; the timer
    tests end with the counts they expect, those that are ended by a thread after 10 s if the kernel is not too late for that.
  \<^item> Connections: the bytes on the wire are the messages sent before the first shutdown, whatever
    partial writes and errors occur, with a file behind them when one was set, and also when several
    threads send; the callbacks come in a fixed order; destruction during dispatch; connection entries of the server, whatever its
    connection callback closes; connection attempts of the client.
  \<^item> HTTP: the parser ends on every reachable state and computes a specification on byte lists, is
    independent of the chunks, and inverts the printer; an exchange answers each request once, and
    on arbitrary bytes the server answers as \<open>http_serve\<close> says until a request line is refused.
  \<^item> Start-up: the servers reach \<open>loop()\<close> listening, with exactly the descriptors they need open, or abort; the construction tests
    pass and give back every descriptor, except for the loops of pool threads, which nothing releases.
  \<^item> Programs: a requested file arrives whole behind its header (below, across \<open>WebServer\<close>,
    \<open>HttpServer\<close>, \<open>TcpConnection\<close> and \<open>SendFile\<close>); a chat message reaches every other user once;
    a line typed at a chat client with a connection arrives whole and in order.

  Several theorems state how the code fails (asserts reached from the network, uses of freed memory,
  a lost notification); each says so in the text in front of it.

  \<^bold>\<open>Interfaces.\<close>  \<open>byte_queue\<close> (interpreted by the buffer), \<open>ordered_set\<close> and \<open>ordered_map\<close> (by the
  sorted lists that stand for the C++ containers), \<open>http_conn\<close> (what \<open>HttpServer\<close> needs of a connection,
  by \<open>TcpConnection\<close>), and \<open>epoll_kernel\<close>, \<open>conn_kernel\<close>, \<open>epoll_fds\<close> and \<open>eventfd_kernel\<close> (documented behaviour of the kernel,
  by reference interest lists and by a counter).  System calls are otherwise arguments of the definitions, and
  what a theorem relies on is a named hypothesis, such as \<open>write_bounded\<close>: \<open>write\<close> accepts at most the
  bytes it is given.

  \<^bold>\<open>Bounds and termination.\<close>  \<open>size_t\<close> is a natural number with the reduction modulo \<open>2 ^ 64\<close> written
  out; a vector holds at most \<open>kMaxSize = 2 ^ 63 - 1\<close> bytes and growing past it is
  \<open>std::length_error\<close>.  Event masks, ports and frame lengths are words.  Time points are 64-bit counts of
  nanoseconds, and the predicate \<open>near\<close> keeps the sums in range.  The loops of the parser, of the codec
  and of the event loop are \<open>partial_function (option)\<close>: the first two are shown to return, with the
  parser's two states in which it does not as a theorem of their own, and the event loop to return
  exactly in the first round that starts with \<open>quit_\<close> set.  No fuel is used.

  \<^bold>\<open>Not modelled.\<close>  \<open>Callbacks.h\<close> and \<open>noncopyable.h\<close> (declarations only) and the build files; what the chat
  server prints; \<open>fork\<close>, and with it a cached thread id from before it; in \<open>Programs\<close>, what the threads of a pool do after
  they have constructed their loops (\<open>LoopThreads\<close> has it); the name, the addresses and the \<open>std::any\<close> context of a connection, which
  no handler of the library branches on (the HTTP context is an argument of the HTTP handlers).
\<close>

subsection \<open>A file, from the request to the wire\<close>

lemma served_close: "rs_closeConnection (served ws name stats rsp) = rs_closeConnection rsp"
  by (simp add: served_def setBodyLen_def setContentType_def response_addHeader_def Let_def split: option.split)

text \<open>C7. A request for a file is answered with the header and the whole file.  When the path of a
  parsed request names an existing file with a dot in its name, the server's answer, followed
  by as many writable events as there are bytes, puts on the connection's stream, behind
  everything sent before, exactly the serialised response and then the content of the file,
  and shuts the connection down at the end exactly when the request asked for it.  It relies
  on \<open>write\<close> and \<open>sendfile\<close> as documented and on a file that has the size \<open>fstatat\<close> gave.\<close>

theorem web_file_delivered:
  assumes "rq_path req \<noteq> []" and "\<forall>i \<in> set (indexs (ws_location ws)). CHR ''.'' \<in> set i"
    and "web_target ws fs (rq_path req) = Some (path, name, stats)" and "CHR ''.'' \<in> set name"
    and "st_size stats = int (length (file (w_os w)))"
    and "response = served ws name stats (new_response (wants_close req))"
    and "rs_closeConnection response \<or> content_length response < 10 ^ 13"
    and "length (print_response response) + kCheapPrepend \<le> kMaxSize"
    and "stream_state tid (length (print_response response)) acc w c" and "tc_state c = kConnected"
    and "file_law os (fs_openat fs (cstr path)) file" and "write_bounded os"
    and "benign (writeCompleteCallback cbs)" and "progressing os (fs_openat fs (cstr path)) file"
    and "length (acc @ print_response response @ file (w_os w)) \<le> n"
  shows "\<exists>w' c'. rbind (onRequest (tcp_ops os cbs tid)
          (Some (web_onRequest ws fs (\<lambda>fd size. upd_conn (setSendFd fd size)))) req w)
        (run_list (conn_step os cbs tid) (replicate n Writable)) = Inr w' \<and> w_conn w' = Some c' \<and>
     w_wire w' = acc @ print_response response @ file (w_os w) \<and> (w_shut w' \<longleftrightarrow> wants_close req)"
proof -
  let ?sfd = "fs_openat fs (cstr path)" and ?acc = "acc @ print_response response @ file (w_os w)"
  let ?w0 = "upd_conn (setSendFd ?sfd (int (length (file (w_os w))))) w"
  have "web_onRequest ws fs (\<lambda>fd size. upd_conn (setSendFd fd size)) req (new_response (wants_close req)) w
      = Inr (response, ?w0)"
    by (simp add: web_answers_eq [OF assms(1,2)] assms(3-6))
  then have answer: "onRequest (tcp_ops os cbs tid)
        (Some (web_onRequest ws fs (\<lambda>fd size. upd_conn (setSendFd fd size)))) req w
      = rbind (conn_send os cbs tid (print_response response) ?w0) (\<lambda>w1.
          if rs_closeConnection response then conn_shutdown os cbs tid w1 else Inr w1)"
    by (subst tcp.onRequest_answers [where response = response, OF _ assms(7,8)]) (simp_all add: tcp_ops_def cong: if_cong)
  have close: "rs_closeConnection response \<longleftrightarrow> wants_close req"
    by (simp add: assms(6) served_close new_response_def)
  obtain w1 c1 where w1: "conn_send os cbs tid (print_response response) ?w0 = Inr w1"
    "delivering file ?sfd tid 0 ?acc w1 c1" "tc_state c1 = kConnected"
    using send_delivering [OF assms(9-13)] by blast
  obtain w2 c2 where w2: "(if wants_close req then conn_shutdown os cbs tid w1 else Inr w1) = Inr w2"
    "delivering file ?sfd tid 0 ?acc w2 c2" "tc_state c2 = kDisconnecting \<longleftrightarrow> wants_close req"
  proof (cases "wants_close req")
    case True
    from deliver_step [OF w1(2) assms(11-13), of Shutdown] that True show ?thesis by auto
  next
    case False
    with w1 that show ?thesis by auto
  qed
  obtain w' c' where w': "run_list (conn_step os cbs tid) (replicate n Writable) w2 = Inr w'" "w_conn w' = Some c'"
    "w_wire w' = ?acc" "w_shut w' \<longleftrightarrow> tc_state c2 = kDisconnecting"
    by (rule writable_all [OF w2(2) assms(11-15)])
  have run: "onRequest (tcp_ops os cbs tid)
        (Some (web_onRequest ws fs (\<lambda>fd size. upd_conn (setSendFd fd size)))) req w = Inr w2"
    using answer w1(1) w2(1) close by simp
  show ?thesis
    unfolding run rbind_Inr using w' w2(3) by (intro exI [of _ w'] exI [of _ c']) simp
qed

text \<open>A page of four bytes in the root directory, requested by an old client.\<close>

definition page_fs :: fs where
  "page_fs = \<lparr> fs_fstatat = [''a.txt'' \<mapsto> \<lparr> st_mode = 0x81A4, st_size = 4 \<rparr>], fs_openat = (\<lambda>p. 8) \<rparr>"

definition page_request :: http_request where
  "page_request = new_request\<lparr>rq_method := Get, rq_version := Http10, rq_path := ''/a.txt''\<rparr>"

definition page_response :: http_response where
  "page_response = setContentType ''text/plain; charset=utf-8'' (setBodyLen 4 (new_response True))"

lemma page_facts:
  "web_target demo_web page_fs (rq_path page_request) = Some (''a.txt'', ''/a.txt'', \<lparr> st_mode = 0x81A4, st_size = 4 \<rparr>)"
  "wants_close page_request"
  "served demo_web ''/a.txt'' \<lparr> st_mode = 0x81A4, st_size = 4 \<rparr> (new_response True) = page_response"
  by (simp_all add: web_target_def page_fs_def page_request_def S_IFDIR_def cstr_def wants_close_def getHeader_def
      new_request_def served_def demo_web_def default_types_def ext_of_def page_response_def Let_def)

theorem web_file_delivered_witness:
  "\<exists>w' c'. rbind (onRequest (tcp_ops file_os no_callbacks 1)
          (Some (web_onRequest demo_web page_fs (\<lambda>fd size. upd_conn (setSendFd fd size)))) page_request file_world)
        (run_list (conn_step file_os no_callbacks 1) (replicate 200 Writable)) = Inr w' \<and> w_conn w' = Some c' \<and>
     w_wire w' = print_response page_response @ ''page'' \<and> w_shut w'"
proof -
  have rq: "rq_path page_request \<noteq> []" by (simp add: page_request_def)
  have idx: "\<forall>i \<in> set (indexs (ws_location demo_web)). CHR ''.'' \<in> set i" by (simp add: demo_web_def)
  have short: "length (print_response page_response) < 100" by code_simp
  then have len: "length (print_response page_response) + kCheapPrepend \<le> kMaxSize"
    by (simp add: kCheapPrepend_def kMaxSize_def)
  have st: "stream_state 1 (length (print_response page_response)) [] file_world file_conn"
    using len by (simp add: stream_state_def streaming_def file_world_def file_conn_def new_connection_def
        new_buffer_ok new_buffer_empty new_buffer_room isInLoopThread_def isReading_bit isWriting_bit bit_simps)
  have "progressing file_os 8 (\<lambda>f. f)" by (simp add: progressing_def file_os_def)
  then show ?thesis
    using web_file_delivered [of page_request demo_web page_fs "''a.txt''" "''/a.txt''" "\<lparr> st_mode = 0x81A4, st_size = 4 \<rparr>"
        "\<lambda>f. f" file_world page_response 1 "[]" file_conn file_os no_callbacks 200]
      rq idx page_facts short len st file_os_law file_os_bounded no_callbacks_benign
    by (simp add: file_world_def file_conn_def page_response_def new_response_def setBodyLen_def
        setContentType_def response_addHeader_def page_fs_def)
qed

end
